(* ===== verification/Ferminux_Prelude.thy ===== *)
theory Ferminux_Prelude
  imports Main "HOL-Library.Word" "HOL-Library.AList"
begin

text \<open>
  Shared vocabulary of the development: the fixed-width types of the Go sources, big-endian
  byte strings, the error-short-circuiting run of a step function, and the generic lemmas on
  lists, association lists and words that the component theories rest on.
\<close>

section \<open>Types\<close>

type_synonym u8 = "8 word"
type_synonym u64 = "64 word"
type_synonym bytes = "u8 list"

text \<open>
  \<open>common.Address\<close> is a \<open>[20]byte\<close> and \<open>common.Hash\<close> a \<open>[32]byte\<close>; both are compared and
  ordered as big-endian byte strings, which is the order of the corresponding words
  (\<open>bytes_less_address\<close> below). \<open>types.BlockNonce\<close> is an \<open>[8]byte\<close>.
\<close>

type_synonym address = "160 word"
type_synonym hash = "256 word"

named_theorems go_simps \<open>unfolding rules for the small Go helpers\<close>

section \<open>Big-endian byte strings\<close>

fun be_bytes :: "nat \<Rightarrow> nat \<Rightarrow> bytes" where
  "be_bytes 0 n = []"
| "be_bytes (Suc k) n = be_bytes k (n div 256) @ [word_of_nat n]"

definition be_nat :: "bytes \<Rightarrow> nat" where
  "be_nat bs = foldl (\<lambda>a b. a * 256 + unat b) 0 bs"

lemma length_be_bytes [simp]: "length (be_bytes k n) = k"
  by (induction k n rule: be_bytes.induct) auto

lemma be_nat_Nil [simp]: "be_nat [] = 0"
  by (simp add: be_nat_def)

lemma be_nat_snoc [simp]: "be_nat (bs @ [b]) = be_nat bs * 256 + unat b"
  by (simp add: be_nat_def)

lemma unat_u8_less: "unat (b :: u8) < 256"
  using unsigned_less [of b, where 'a = nat] by simp

lemma unat_u64_less: "unat (n :: u64) < 18446744073709551616"
  using unsigned_less [of n, where 'a = nat] by simp

lemma uint_u64_less: "uint (x :: u64) < 18446744073709551616"
  using unsigned_less [of x, where 'a = int] by simp

lemma uint_dec: "x \<noteq> 0 \<Longrightarrow> uint (x - 1) = uint x - 1" for x :: u64
proof -
  assume x: "x \<noteq> 0"
  then have "unat (x - 1) = unat x - 1" by (rule unat_minus_one)
  moreover have "0 < unat x" using x by (simp add: unat_gt_0)
  ultimately have "int (unat (x - 1)) = int (unat x) - 1" by simp
  then show ?thesis by simp
qed

lemma be_nat_less: "be_nat bs < 256 ^ length bs"
proof (induction bs rule: rev_induct)
  case (snoc b bs)
  have "unat b < 256" by (rule unat_u8_less)
  then have "be_nat bs * 256 + unat b < (be_nat bs + 1) * 256" by simp
  also have "\<dots> \<le> 256 ^ length bs * 256" using snoc by (intro mult_right_mono) auto
  finally show ?case by simp
qed simp

lemma be_nat_be_bytes: "be_nat (be_bytes k n) = n mod 256 ^ k"
proof (induction k arbitrary: n)
  case (Suc k)
  have "unat (word_of_nat n :: u8) = n mod 256"
    by (simp add: unat_of_nat)
  with Suc show ?case by (simp add: mod_mult2_eq)
qed simp

lemma be_bytes_be_nat: "be_bytes (length bs) (be_nat bs) = bs"
proof (induction bs rule: rev_induct)
  case (snoc b bs)
  have lt: "unat b < 256" by (rule unat_u8_less)
  have "(be_nat bs * 256 + unat b) div 256 = be_nat bs" using lt by simp
  moreover have "(word_of_nat (be_nat bs * 256 + unat b) :: u8) = b"
  proof -
    have "(word_of_nat (be_nat bs * 256 + unat b) :: u8) = word_of_nat (be_nat bs) * 256 + b"
      by simp
    moreover have "(256 :: u8) = 0" by code_simp
    ultimately show ?thesis by (simp only: mult_zero_right add_0)
  qed
  ultimately show ?case using snoc by simp
qed simp

lemma be_nat_inj: "length xs = length ys \<Longrightarrow> be_nat xs = be_nat ys \<Longrightarrow> xs = ys"
  by (metis be_bytes_be_nat)

lemma be_nat_append: "be_nat (xs @ ys) = be_nat xs * 256 ^ length ys + be_nat ys"
  by (induction ys rule: rev_induct) (simp_all add: append_assoc [symmetric] algebra_simps del: append_assoc)

lemma be_nat_Cons: "be_nat (x # xs) = unat x * 256 ^ length xs + be_nat xs"
  using be_nat_append [of "[x]" xs] be_nat_snoc [of "[]" x] by simp

text \<open>\<open>bytes.Compare(a, b) < 0\<close>.\<close>

fun bytes_less :: "bytes \<Rightarrow> bytes \<Rightarrow> bool" where
  "bytes_less xs [] = False"
| "bytes_less [] (y # ys) = True"
| "bytes_less (x # xs) (y # ys) = (x < y \<or> x = y \<and> bytes_less xs ys)"

lemma bytes_less_be_nat:
  "length xs = length ys \<Longrightarrow> bytes_less xs ys \<longleftrightarrow> be_nat xs < be_nat ys"
proof (induction xs ys rule: list_induct2)
  case (Cons x xs y ys)
  have bx: "be_nat xs < 256 ^ length xs" and by': "be_nat ys < 256 ^ length xs"
    using be_nat_less [of xs] be_nat_less [of ys] Cons.hyps by auto
  consider "unat x < unat y" | "unat x = unat y" | "unat y < unat x" by linarith
  then show ?case
  proof cases
    case 1
    then have "unat x * 256 ^ length xs + 256 ^ length xs \<le> unat y * 256 ^ length xs"
      by (metis Suc_leI add.commute mult_Suc mult_le_mono1)
    then have "be_nat (x # xs) < be_nat (y # ys)"
      using bx Cons.hyps by (simp add: be_nat_Cons)
    then show ?thesis using 1 by (simp add: word_less_nat_alt)
  next
    case 2
    then show ?thesis using Cons by (simp add: be_nat_Cons word_less_nat_alt word_unat_eq_iff)
  next
    case 3
    then have "unat y * 256 ^ length xs + 256 ^ length xs \<le> unat x * 256 ^ length xs"
      by (metis Suc_leI add.commute mult_Suc mult_le_mono1)
    then have "be_nat (y # ys) < be_nat (x # xs)"
      using by' Cons.hyps by (simp add: be_nat_Cons)
    then show ?thesis using 3 by (auto simp: word_less_nat_alt)
  qed
qed simp

text \<open>The fixed-width byte strings of addresses, hashes and 64-bit integers.\<close>

definition address_bytes :: "address \<Rightarrow> bytes" where
  "address_bytes a = be_bytes 20 (unat a)"

definition bytes_address :: "bytes \<Rightarrow> address" where
  "bytes_address bs = word_of_nat (be_nat bs)"

definition hash_bytes :: "hash \<Rightarrow> bytes" where
  "hash_bytes h = be_bytes 32 (unat h)"

definition bytes_hash :: "bytes \<Rightarrow> hash" where
  "bytes_hash bs = word_of_nat (be_nat bs)"

definition u64_bytes :: "u64 \<Rightarrow> bytes" where
  "u64_bytes n = be_bytes 8 (unat n)"

lemma length_address_bytes [simp]: "length (address_bytes a) = 20"
  by (simp add: address_bytes_def)

lemma length_hash_bytes [simp]: "length (hash_bytes h) = 32"
  by (simp add: hash_bytes_def)

lemma length_u64_bytes [simp]: "length (u64_bytes n) = 8"
  by (simp add: u64_bytes_def)

lemma be_nat_address_bytes [simp]: "be_nat (address_bytes a) = unat a"
  using unsigned_less [of a, where 'a = nat] by (simp add: address_bytes_def be_nat_be_bytes)

lemma be_nat_hash_bytes [simp]: "be_nat (hash_bytes h) = unat h"
  using unsigned_less [of h, where 'a = nat] by (simp add: hash_bytes_def be_nat_be_bytes)

lemma be_nat_u64_bytes [simp]: "be_nat (u64_bytes n) = unat n"
  using unsigned_less [of n, where 'a = nat] by (simp add: u64_bytes_def be_nat_be_bytes)

lemma bytes_address_bytes [simp]: "bytes_address (address_bytes a) = a"
  by (simp add: bytes_address_def)

lemma address_bytes_inj [simp]: "address_bytes a = address_bytes b \<longleftrightarrow> a = b"
  by (metis bytes_address_bytes)

lemma hash_bytes_inj [simp]: "hash_bytes a = hash_bytes b \<longleftrightarrow> a = b"
  by (metis be_nat_hash_bytes word_unat_eq_iff)

lemma u64_bytes_inj [simp]: "u64_bytes a = u64_bytes b \<longleftrightarrow> a = b"
  by (metis be_nat_u64_bytes word_unat_eq_iff)

lemma bytes_less_address: "bytes_less (address_bytes a) (address_bytes b) \<longleftrightarrow> a < b"
  by (simp add: bytes_less_be_nat word_less_nat_alt)

lemma address_bytes_bytes: "length bs = 20 \<Longrightarrow> address_bytes (bytes_address bs) = bs"
proof -
  assume l: "length bs = 20"
  have "be_nat bs < 2 ^ 160" using be_nat_less [of bs] l by simp
  then have "unat (word_of_nat (be_nat bs) :: address) = be_nat bs"
    by (simp add: unat_of_nat)
  then show ?thesis using l be_bytes_be_nat [of bs]
    by (simp add: address_bytes_def bytes_address_def)
qed

text \<open>\<open>big.Int.Bytes\<close>: the minimal big-endian form, empty for zero.\<close>

fun nat_bytes :: "nat \<Rightarrow> bytes" where
  "nat_bytes n = (if n = 0 then [] else nat_bytes (n div 256) @ [word_of_nat n])"

declare nat_bytes.simps [simp del]

lemma nat_bytes_0 [simp]: "nat_bytes 0 = []"
  by (simp add: nat_bytes.simps)

lemma nat_bytes_pos: "0 < n \<Longrightarrow> nat_bytes n = nat_bytes (n div 256) @ [word_of_nat n]"
  by (subst nat_bytes.simps) simp

lemma be_nat_nat_bytes [simp]: "be_nat (nat_bytes n) = n"
proof (induction n rule: nat_bytes.induct)
  case (1 n)
  have "unat (word_of_nat n :: u8) = n mod 256" by (simp add: unat_of_nat)
  with 1 show ?case by (cases "n = 0") (simp_all add: nat_bytes_pos)
qed

lemma nat_bytes_inj [simp]: "nat_bytes m = nat_bytes n \<longleftrightarrow> m = n"
  by (metis be_nat_nat_bytes)

lemma sint_u64_neg: "sint (w :: u64) < 0 \<longleftrightarrow> 9223372036854775808 \<le> unat w"
proof -
  have "sint w < 0 \<longleftrightarrow> bit w 63" using bit_last_iff [of w] by simp
  also have "\<dots> \<longleftrightarrow> bit (unat w) 63" by (simp add: bit_unsigned_iff)
  also have "\<dots> \<longleftrightarrow> odd (unat w div 9223372036854775808)" by (simp add: bit_iff_odd)
  also have "\<dots> \<longleftrightarrow> 9223372036854775808 \<le> unat w"
  proof (cases "9223372036854775808 \<le> unat w")
    case True
    then have "unat w div 9223372036854775808 = 1" using unat_u64_less [of w] by (intro div_nat_eqI) simp_all
    with True show ?thesis by simp
  qed simp
  finally show ?thesis .
qed

lemma unat_drop_bit: "unat (drop_bit n w) = unat w div 2 ^ n"
  by (metis unat_drop_bit_eq drop_bit_eq_div)

lemma unat_ucast_u8: "unat (ucast (w :: u64) :: u8) = unat w mod 256"
  by (simp add: unsigned_ucast_eq unsigned_take_bit_eq take_bit_eq_mod)

lemma unat_ucast_u64: "unat (ucast (w :: u8) :: u64) = unat w"
  using unat_u8_less [of w] by (simp add: unsigned_ucast_eq unsigned_take_bit_eq take_bit_eq_mod)

lemma ucast_u8_word_of_nat: "(ucast (w :: u64) :: u8) = word_of_nat (unat w)"
  by (simp add: word_unat_eq_iff unat_ucast_u8 unat_of_nat)

lemma be_bytes_Cons: "be_bytes (Suc n) m = word_of_nat (m div 256 ^ n) # be_bytes n m"
proof (induction n arbitrary: m)
  case (Suc n)
  have "be_bytes (Suc (Suc n)) m = be_bytes (Suc n) (m div 256) @ [word_of_nat m]" by simp
  also have "\<dots> = word_of_nat (m div 256 div 256 ^ n) # be_bytes n (m div 256) @ [word_of_nat m]"
    by (subst Suc.IH) simp
  finally show ?case by (simp add: div_mult2_eq)
qed simp

lemma nat_bytes_be_bytes: "256 ^ k \<le> n \<Longrightarrow> n < 256 ^ Suc k \<Longrightarrow> nat_bytes n = be_bytes (Suc k) n"
proof (induction k arbitrary: n)
  case (Suc k)
  have "256 ^ k \<le> n div 256" using Suc.prems(1) by (simp add: less_eq_div_iff_mult_less_eq mult.commute)
  moreover have "n div 256 < 256 ^ Suc k" using Suc.prems(2) by (simp add: less_mult_imp_div_less mult.commute)
  ultimately have "nat_bytes (n div 256) = be_bytes (Suc k) (n div 256)" by (rule Suc.IH)
  moreover have "0 < n" using Suc.prems(1) by (metis gr_zeroI leD zero_less_numeral zero_less_power)
  ultimately show ?case by (simp add: nat_bytes_pos)
qed (simp add: nat_bytes_pos)

lemma length_nat_bytes_le: "n < 256 ^ k \<Longrightarrow> length (nat_bytes n) \<le> k"
proof (induction k arbitrary: n)
  case (Suc k)
  show ?case
  proof (cases "n = 0")
    case False
    have "n div 256 < 256 ^ k" using Suc.prems by (simp add: less_mult_imp_div_less mult.commute)
    with Suc.IH False show ?thesis by (simp add: nat_bytes_pos)
  qed simp
qed simp

lemma nat_bytes_Nil_iff [simp]: "nat_bytes n = [] \<longleftrightarrow> n = 0"
  by (cases "n = 0") (simp_all add: nat_bytes_pos)

lemma hd_nat_bytes: "0 < n \<Longrightarrow> hd (nat_bytes n) \<noteq> 0"
proof (induction n rule: nat_bytes.induct)
  case (1 n)
  show ?case
  proof (cases "n div 256 = 0")
    case True
    then have "n < 256" by simp
    then have "unat (word_of_nat n :: u8) = n" by (simp add: unat_of_nat)
    with 1 have "(word_of_nat n :: u8) \<noteq> 0" by (metis gr_implies_not_zero unat_eq_zero)
    with 1 True show ?thesis by (simp add: nat_bytes_pos)
  next
    case False
    then have "nat_bytes (n div 256) \<noteq> []" by simp
    then have "hd (nat_bytes (n div 256) @ [word_of_nat n]) = hd (nat_bytes (n div 256))" by simp
    with 1 False show ?thesis by (simp only: nat_bytes_pos) simp
  qed
qed

lemma be_nat_ge: "xs \<noteq> [] \<Longrightarrow> hd xs \<noteq> 0 \<Longrightarrow> 256 ^ (length xs - 1) \<le> be_nat xs"
  by (cases xs) (auto simp: be_nat_Cons unat_eq_zero Suc_le_eq unat_gt_0 trans_le_add1)

lemma nat_bytes_be_nat: "xs = [] \<or> hd xs \<noteq> 0 \<Longrightarrow> nat_bytes (be_nat xs) = xs"
proof (cases xs)
  case (Cons x ys)
  assume "xs = [] \<or> hd xs \<noteq> 0"
  then have "nat_bytes (be_nat xs) = be_bytes (Suc (length ys)) (be_nat xs)"
    using be_nat_ge [of xs] be_nat_less [of xs] Cons by (intro nat_bytes_be_bytes) auto
  then show ?thesis using be_bytes_be_nat [of xs] Cons by simp
qed simp

text \<open>\<open>common.LeftPadBytes\<close>.\<close>

definition LeftPadBytes :: "bytes \<Rightarrow> nat \<Rightarrow> bytes" where
  "LeftPadBytes b l = (if l \<le> length b then b else replicate (l - length b) 0 @ b)"

lemma length_LeftPadBytes: "length (LeftPadBytes b l) = max l (length b)"
  by (simp add: LeftPadBytes_def)

lemma be_nat_zeros [simp]: "be_nat (replicate k 0) = 0"
  by (induction k) (simp_all add: be_nat_Cons)

lemma be_nat_LeftPadBytes [simp]: "be_nat (LeftPadBytes b l) = be_nat b"
  by (simp add: LeftPadBytes_def be_nat_append)

section \<open>Slices and fixed-width records\<close>

text \<open>The Go slice expression \<open>xs[a:b]\<close>, within bounds.\<close>

definition slice :: "'a list \<Rightarrow> nat \<Rightarrow> nat \<Rightarrow> 'a list" where
  "slice xs a b = take (b - a) (drop a xs)"

lemma length_slice: "b \<le> length xs \<Longrightarrow> length (slice xs a b) = b - a"
  by (simp add: slice_def)

lemma slice_append_mid: "length p = a \<Longrightarrow> a + length m = b \<Longrightarrow> slice (p @ m @ q) a b = m"
  by (auto simp: slice_def)

lemma length_concat_bound: "\<forall>x \<in> set xs. length (f x) \<le> k \<Longrightarrow> length (concat (map f xs)) \<le> length xs * k"
  by (induction xs) auto

lemma take_chunks: "k * w \<le> length p \<Longrightarrow> concat (map (\<lambda>i. take w (drop (i * w) p)) [0..<k]) = take (k * w) p"
proof (induction k)
  case (Suc k)
  have "take (Suc k * w) p = take (k * w) p @ take w (drop (k * w) p)"
    by (simp add: take_add [symmetric] add.commute)
  with Suc show ?case by simp
qed simp

lemma takeWhile_stop: "\<forall>x \<in> set xs. P x \<Longrightarrow> ys \<noteq> [] \<Longrightarrow> \<not> P (hd ys) \<Longrightarrow> takeWhile P (xs @ ys) = xs"
  by (cases ys) (simp_all add: takeWhile_tail)

lemma sorted_wrt_less_nth:
  "sorted_wrt (<) xs \<longleftrightarrow> (\<forall>i<length xs. 0 < i \<longrightarrow> xs ! (i - 1) < xs ! i)" for xs :: "'a :: linorder list"
proof -
  have "sorted_wrt (<) xs \<longleftrightarrow> (\<forall>i. Suc i < length xs \<longrightarrow> xs ! i < xs ! Suc i)"
    by (rule sorted_wrt_iff_nth_Suc_transp) (rule transp_on_less)
  also have "\<dots> \<longleftrightarrow> (\<forall>i<length xs. 0 < i \<longrightarrow> xs ! (i - 1) < xs ! i)"
    by (metis Suc_pred' diff_Suc_1 zero_less_Suc)
  finally show ?thesis .
qed

text \<open>
  A sequence of equally wide records laid out back to back: \<open>enc\<close> writes one record,
  \<open>dec\<close> reads one, \<open>ok\<close> says which values have the declared width.
\<close>

locale fixed_width =
  fixes enc :: "'a \<Rightarrow> 'b list"
    and dec :: "'b list \<Rightarrow> 'a"
    and width :: nat
    and ok :: "'a \<Rightarrow> bool"
  assumes width_enc: "ok x \<Longrightarrow> length (enc x) = width"
    and dec_enc: "ok x \<Longrightarrow> dec (enc x) = x"
begin

lemma length_concat: "(\<And>x. x \<in> set xs \<Longrightarrow> ok x) \<Longrightarrow> length (concat (map enc xs)) = length xs * width"
  by (induction xs) (auto simp: width_enc)

lemma drop_concat:
  assumes "\<And>x. x \<in> set xs \<Longrightarrow> ok x" and "i \<le> length xs"
  shows "drop (i * width) (concat (map enc xs) @ rest) = concat (map enc (drop i xs)) @ rest"
  using assms
proof (induction xs arbitrary: i)
  case (Cons x xs)
  show ?case
  proof (cases i)
    case (Suc j)
    with Cons have "drop (j * width) (concat (map enc xs) @ rest) = concat (map enc (drop j xs)) @ rest"
      by auto
    with Suc Cons.prems show ?thesis by (simp add: width_enc)
  qed simp
qed simp

lemma read_nth:
  assumes "\<And>x. x \<in> set xs \<Longrightarrow> ok x" and "i < length xs"
  shows "dec (take width (drop (i * width) (concat (map enc xs) @ rest))) = xs ! i"
proof -
  have x: "ok (xs ! i)" using assms by simp
  have "drop (i * width) (concat (map enc xs) @ rest) = enc (xs ! i) @ concat (map enc (drop (Suc i) xs)) @ rest"
    using drop_concat [of xs i rest] assms by (simp add: Cons_nth_drop_Suc [symmetric])
  then show ?thesis using x by (simp add: width_enc dec_enc)
qed

lemma read_all:
  assumes "\<And>x. x \<in> set xs \<Longrightarrow> ok x"
  shows "map (\<lambda>i. dec (take width (drop (i * width) (concat (map enc xs) @ rest)))) [0..<length xs] = xs"
  using assms by (intro nth_equalityI) (simp_all add: read_nth del: drop_append take_append)

end

interpretation addr: fixed_width address_bytes bytes_address 20 "\<lambda>_. True"
  by unfold_locales simp_all

interpretation sig65: fixed_width "\<lambda>s :: bytes. s" "\<lambda>s. s" 65 "\<lambda>s. length s = 65"
  by unfold_locales simp_all

lemma all_less_Suc_split: "(\<forall>i<Suc n. P i) \<longleftrightarrow> P 0 \<and> (\<forall>i<n. P (Suc i))"
  using less_Suc_eq_0_disj by auto

lemma word64_of_nat: "n < 2 ^ 64 \<Longrightarrow> unat (word_of_nat n :: u64) = n"
  by (simp add: unat_of_nat)

section \<open>Go maps as association lists\<close>

definition map_put :: "'k \<Rightarrow> 'v \<Rightarrow> ('k \<times> 'v) list \<Rightarrow> ('k \<times> 'v) list" where
  "map_put k v m = (k, v) # filter (\<lambda>p. fst p \<noteq> k) m"

definition map_del :: "'k \<Rightarrow> ('k \<times> 'v) list \<Rightarrow> ('k \<times> 'v) list" where
  "map_del k m = filter (\<lambda>p. fst p \<noteq> k) m"

lemma set_map_put [simp]: "set (map_put k v m) = insert (k, v) {p \<in> set m. fst p \<noteq> k}"
  by (auto simp: map_put_def)

lemma set_map_del [simp]: "set (map_del k m) = {p \<in> set m. fst p \<noteq> k}"
  by (auto simp: map_del_def)

lemma map_of_filter_key: "map_of (filter (\<lambda>p. fst p \<noteq> k) m) = (map_of m)(k := None)"
  by (induction m) (auto simp: fun_eq_iff)

lemma map_of_map_put [simp]: "map_of (map_put k v m) = (map_of m)(k \<mapsto> v)"
  by (simp add: map_put_def map_of_filter_key)

lemma map_of_map_del [simp]: "map_of (map_del k m) = (map_of m)(k := None)"
  by (simp add: map_del_def map_of_filter_key)

lemma distinct_fst_filter: "distinct (map fst m) \<Longrightarrow> distinct (map fst (filter P m))"
  by (induction m) auto

lemma distinct_map_put [simp]: "distinct (map fst m) \<Longrightarrow> distinct (map fst (map_put k v m))"
  by (auto simp: map_put_def distinct_fst_filter)

lemma distinct_map_del [simp]: "distinct (map fst m) \<Longrightarrow> distinct (map fst (map_del k m))"
  by (simp add: map_del_def distinct_fst_filter)

fun remove_first :: "('a \<Rightarrow> bool) \<Rightarrow> 'a list \<Rightarrow> 'a list" where
  "remove_first P [] = []"
| "remove_first P (x # xs) = (if P x then xs else x # remove_first P xs)"

lemma remove_first_None: "find P xs = None \<Longrightarrow> remove_first P xs = xs"
  by (induction xs) (auto split: if_splits)

lemma set_remove_first: "set (remove_first P xs) \<subseteq> set xs"
  by (induction xs) auto

lemma find_Some_split:
  "find P xs = Some x \<Longrightarrow> \<exists>ys zs. xs = ys @ x # zs \<and> P x \<and> (\<forall>y \<in> set ys. \<not> P y) \<and> remove_first P xs = ys @ zs"
proof (induction xs)
  case (Cons y xs)
  show ?case
  proof (cases "P y")
    case True
    with Cons.prems show ?thesis by (intro exI [of _ "[]"] exI [of _ xs]) auto
  next
    case False
    with Cons obtain ys zs where "xs = ys @ x # zs" "P x" "\<forall>y \<in> set ys. \<not> P y" "remove_first P xs = ys @ zs" by auto
    with False show ?thesis by (intro exI [of _ "y # ys"] exI [of _ zs]) auto
  qed
qed simp

section \<open>Fallible steps\<close>

text \<open>
  A Go loop whose body may return an error: the run stops at the first error. \<open>run_res f s xs\<close>
  is \<open>for _, x := range xs { if s, err = f(s, x); err != nil { return err } }\<close>.
\<close>

fun run_res :: "('s \<Rightarrow> 'x \<Rightarrow> 'e + 's) \<Rightarrow> 's \<Rightarrow> 'x list \<Rightarrow> 'e + 's" where
  "run_res f s [] = Inr s"
| "run_res f s (x # xs) = (case f s x of Inl e \<Rightarrow> Inl e | Inr s' \<Rightarrow> run_res f s' xs)"

lemma run_res_append:
  "run_res f s (xs @ ys) = (case run_res f s xs of Inl e \<Rightarrow> Inl e | Inr s' \<Rightarrow> run_res f s' ys)"
  by (induction xs arbitrary: s) (auto split: sum.splits)

lemma run_res_snoc_Inr:
  "run_res f s (xs @ [x]) = Inr t \<longleftrightarrow> (\<exists>s'. run_res f s xs = Inr s' \<and> f s' x = Inr t)"
  by (auto simp: run_res_append split: sum.splits)

locale checked_steps =
  fixes step :: "'s \<Rightarrow> 'x \<Rightarrow> 'e + 's"
    and inv :: "'s \<Rightarrow> bool"
  assumes step_inv: "inv s \<Longrightarrow> step s x = Inr s' \<Longrightarrow> inv s'"
begin

lemma run_inv: "inv s \<Longrightarrow> run_res step s xs = Inr s' \<Longrightarrow> inv s'"
  by (induction xs arbitrary: s) (auto split: sum.splits dest: step_inv)

end

end
