(* ===== verification/Chain_Params.thy ===== *)
theory Chain_Params
  imports Ferminux_Prelude
begin

text \<open>
  Package \<open>params\<close>: the chain configuration of \<open>src/chain/params/config.go\<close> with its fork
  predicates, the fork-order check and the compatibility check that decides how far a stored
  chain is rewound, and the Ferminux constants of \<open>src/chain/params/ferminux.go\<close>.

  A \<open>*big.Int\<close> that may be nil is an \<open>int option\<close>. \<open>CheckCompatible\<close> loops until the
  reported height stops moving; the loop is a terminating recursion (every report is strictly
  below the head it was computed for, or is zero), and the last report names a height at which
  the two configurations no longer conflict.
\<close>

section \<open>Chain configuration\<close>

record CliqueConfig =
  Period :: u64
  Epoch :: u64

record ChainConfig =
  ChainID :: "int option"
  HomesteadBlock :: "int option"
  DAOForkBlock :: "int option"
  DAOForkSupport :: bool
  EIP150Block :: "int option"
  EIP150Hash :: hash
  EIP155Block :: "int option"
  EIP158Block :: "int option"
  ByzantiumBlock :: "int option"
  ConstantinopleBlock :: "int option"
  PetersburgBlock :: "int option"
  IstanbulBlock :: "int option"
  MuirGlacierBlock :: "int option"
  BerlinBlock :: "int option"
  LondonBlock :: "int option"
  ArrowGlacierBlock :: "int option"
  GrayGlacierBlock :: "int option"
  MergeNetsplitBlock :: "int option"
  ShanghaiBlock :: "int option"
  CancunBlock :: "int option"
  PosaBlock :: "int option"
  TerminalTotalDifficulty :: "int option"
  TerminalTotalDifficultyPassed :: bool
  Powhash :: bool
  Clique :: "CliqueConfig option"

definition isForked :: "int option \<Rightarrow> int option \<Rightarrow> bool" where
  "isForked s head = (case (s, head) of (Some a, Some h) \<Rightarrow> a \<le> h | _ \<Rightarrow> False)"

definition configNumEqual :: "int option \<Rightarrow> int option \<Rightarrow> bool" where
  "configNumEqual x y =
    (case x of None \<Rightarrow> y = None
     | Some a \<Rightarrow> (case y of None \<Rightarrow> False | Some b \<Rightarrow> a = b))"

definition isForkIncompatible :: "int option \<Rightarrow> int option \<Rightarrow> int option \<Rightarrow> bool" where
  "isForkIncompatible s1 s2 head = ((isForked s1 head \<or> isForked s2 head) \<and> \<not> configNumEqual s1 s2)"

definition IsHomestead :: "ChainConfig \<Rightarrow> int option \<Rightarrow> bool" where
  "IsHomestead c num = isForked (HomesteadBlock c) num"

definition IsDAOFork :: "ChainConfig \<Rightarrow> int option \<Rightarrow> bool" where
  "IsDAOFork c num = isForked (DAOForkBlock c) num"

definition IsEIP150 :: "ChainConfig \<Rightarrow> int option \<Rightarrow> bool" where
  "IsEIP150 c num = isForked (EIP150Block c) num"

definition IsEIP155 :: "ChainConfig \<Rightarrow> int option \<Rightarrow> bool" where
  "IsEIP155 c num = isForked (EIP155Block c) num"

definition IsEIP158 :: "ChainConfig \<Rightarrow> int option \<Rightarrow> bool" where
  "IsEIP158 c num = isForked (EIP158Block c) num"

definition IsByzantium :: "ChainConfig \<Rightarrow> int option \<Rightarrow> bool" where
  "IsByzantium c num = isForked (ByzantiumBlock c) num"

definition IsConstantinople :: "ChainConfig \<Rightarrow> int option \<Rightarrow> bool" where
  "IsConstantinople c num = isForked (ConstantinopleBlock c) num"

definition IsMuirGlacier :: "ChainConfig \<Rightarrow> int option \<Rightarrow> bool" where
  "IsMuirGlacier c num = isForked (MuirGlacierBlock c) num"

definition IsPetersburg :: "ChainConfig \<Rightarrow> int option \<Rightarrow> bool" where
  "IsPetersburg c num =
    (isForked (PetersburgBlock c) num \<or>
     PetersburgBlock c = None \<and> isForked (ConstantinopleBlock c) num)"

definition IsIstanbul :: "ChainConfig \<Rightarrow> int option \<Rightarrow> bool" where
  "IsIstanbul c num = isForked (IstanbulBlock c) num"

definition IsBerlin :: "ChainConfig \<Rightarrow> int option \<Rightarrow> bool" where
  "IsBerlin c num = isForked (BerlinBlock c) num"

definition IsLondon :: "ChainConfig \<Rightarrow> int option \<Rightarrow> bool" where
  "IsLondon c num = isForked (LondonBlock c) num"

definition IsArrowGlacier :: "ChainConfig \<Rightarrow> int option \<Rightarrow> bool" where
  "IsArrowGlacier c num = isForked (ArrowGlacierBlock c) num"

definition IsGrayGlacier :: "ChainConfig \<Rightarrow> int option \<Rightarrow> bool" where
  "IsGrayGlacier c num = isForked (GrayGlacierBlock c) num"

definition IsPosa :: "ChainConfig \<Rightarrow> int option \<Rightarrow> bool" where
  "IsPosa c num = isForked (PosaBlock c) num"

definition IsShanghai :: "ChainConfig \<Rightarrow> int option \<Rightarrow> bool" where
  "IsShanghai c num = isForked (ShanghaiBlock c) num"

definition IsCancun :: "ChainConfig \<Rightarrow> int option \<Rightarrow> bool" where
  "IsCancun c num = isForked (CancunBlock c) num"

definition IsTerminalPoWBlock :: "ChainConfig \<Rightarrow> int \<Rightarrow> int \<Rightarrow> bool" where
  "IsTerminalPoWBlock c parentTotalDiff totalDiff =
    (case TerminalTotalDifficulty c of None \<Rightarrow> False
     | Some ttd \<Rightarrow> parentTotalDiff < ttd \<and> ttd \<le> totalDiff)"

section \<open>Fork order\<close>

record fork =
  fork_name :: string
  fork_block :: "int option"
  fork_optional :: bool

datatype fork_order_error =
    ForkNotEnabled string string int
  | ForkOutOfOrder string int string int

definition config_forks :: "ChainConfig \<Rightarrow> fork list" where
  "config_forks c =
    [\<lparr>fork_name = ''homesteadBlock'', fork_block = HomesteadBlock c, fork_optional = False\<rparr>,
     \<lparr>fork_name = ''daoForkBlock'', fork_block = DAOForkBlock c, fork_optional = True\<rparr>,
     \<lparr>fork_name = ''eip150Block'', fork_block = EIP150Block c, fork_optional = False\<rparr>,
     \<lparr>fork_name = ''eip155Block'', fork_block = EIP155Block c, fork_optional = False\<rparr>,
     \<lparr>fork_name = ''eip158Block'', fork_block = EIP158Block c, fork_optional = False\<rparr>,
     \<lparr>fork_name = ''byzantiumBlock'', fork_block = ByzantiumBlock c, fork_optional = False\<rparr>,
     \<lparr>fork_name = ''constantinopleBlock'', fork_block = ConstantinopleBlock c, fork_optional = False\<rparr>,
     \<lparr>fork_name = ''petersburgBlock'', fork_block = PetersburgBlock c, fork_optional = False\<rparr>,
     \<lparr>fork_name = ''istanbulBlock'', fork_block = IstanbulBlock c, fork_optional = False\<rparr>,
     \<lparr>fork_name = ''muirGlacierBlock'', fork_block = MuirGlacierBlock c, fork_optional = True\<rparr>,
     \<lparr>fork_name = ''berlinBlock'', fork_block = BerlinBlock c, fork_optional = False\<rparr>,
     \<lparr>fork_name = ''londonBlock'', fork_block = LondonBlock c, fork_optional = False\<rparr>,
     \<lparr>fork_name = ''arrowGlacierBlock'', fork_block = ArrowGlacierBlock c, fork_optional = True\<rparr>,
     \<lparr>fork_name = ''grayGlacierBlock'', fork_block = GrayGlacierBlock c, fork_optional = True\<rparr>,
     \<lparr>fork_name = ''mergeNetsplitBlock'', fork_block = MergeNetsplitBlock c, fork_optional = True\<rparr>,
     \<lparr>fork_name = ''shanghaiBlock'', fork_block = ShanghaiBlock c, fork_optional = True\<rparr>,
     \<lparr>fork_name = ''cancunBlock'', fork_block = CancunBlock c, fork_optional = True\<rparr>]"

text \<open>One iteration; the state is \<open>lastFork\<close>, whose zero value is \<open>None\<close> (empty name).\<close>

definition fork_order_step :: "fork option \<Rightarrow> fork \<Rightarrow> fork_order_error + fork option" where
  "fork_order_step lastFork cur =
    (let next = (if \<not> fork_optional cur \<or> fork_block cur \<noteq> None then Some cur else lastFork)
     in case lastFork of None \<Rightarrow> Inr next
        | Some l \<Rightarrow>
            (case (fork_block l, fork_block cur) of
               (None, Some b) \<Rightarrow> Inl (ForkNotEnabled (fork_name l) (fork_name cur) b)
             | (Some a, Some b) \<Rightarrow>
                 if b < a then Inl (ForkOutOfOrder (fork_name l) a (fork_name cur) b) else Inr next
             | _ \<Rightarrow> Inr next))"

definition CheckConfigForkOrder :: "ChainConfig \<Rightarrow> fork_order_error option" where
  "CheckConfigForkOrder c =
    (case run_res fork_order_step None (config_forks c) of Inl e \<Rightarrow> Some e | Inr _ \<Rightarrow> None)"

section \<open>Configuration compatibility\<close>

record ConfigCompatError =
  What :: string
  StoredConfig :: "int option"
  NewConfig :: "int option"
  RewindTo :: u64

definition newCompatError :: "string \<Rightarrow> int option \<Rightarrow> int option \<Rightarrow> ConfigCompatError" where
  "newCompatError what storedblock newblock =
    (let rew = (case storedblock of None \<Rightarrow> newblock
                | Some s \<Rightarrow> (case newblock of None \<Rightarrow> storedblock
                             | Some n \<Rightarrow> if s < n then storedblock else newblock))
     in \<lparr>What = what, StoredConfig = storedblock, NewConfig = newblock,
         RewindTo = (case rew of None \<Rightarrow> 0
                     | Some r \<Rightarrow> if 0 < r then word_of_int r - 1 else 0)\<rparr>)"

definition checkCompatible :: "ChainConfig \<Rightarrow> ChainConfig \<Rightarrow> int option \<Rightarrow> ConfigCompatError option" where
  "checkCompatible c newcfg head =
   (if isForkIncompatible (HomesteadBlock c) (HomesteadBlock newcfg) head
      then Some (newCompatError ''Homestead fork block'' (HomesteadBlock c) (HomesteadBlock newcfg))
    else if isForkIncompatible (DAOForkBlock c) (DAOForkBlock newcfg) head
      then Some (newCompatError ''DAO fork block'' (DAOForkBlock c) (DAOForkBlock newcfg))
    else if IsDAOFork c head \<and> DAOForkSupport c \<noteq> DAOForkSupport newcfg
      then Some (newCompatError ''DAO fork support flag'' (DAOForkBlock c) (DAOForkBlock newcfg))
    else if isForkIncompatible (EIP150Block c) (EIP150Block newcfg) head
      then Some (newCompatError ''EIP150 fork block'' (EIP150Block c) (EIP150Block newcfg))
    else if isForkIncompatible (EIP155Block c) (EIP155Block newcfg) head
      then Some (newCompatError ''EIP155 fork block'' (EIP155Block c) (EIP155Block newcfg))
    else if isForkIncompatible (EIP158Block c) (EIP158Block newcfg) head
      then Some (newCompatError ''EIP158 fork block'' (EIP158Block c) (EIP158Block newcfg))
    else if IsEIP158 c head \<and> \<not> configNumEqual (ChainID c) (ChainID newcfg)
      then Some (newCompatError ''EIP158 chain ID'' (EIP158Block c) (EIP158Block newcfg))
    else if isForkIncompatible (ByzantiumBlock c) (ByzantiumBlock newcfg) head
      then Some (newCompatError ''Byzantium fork block'' (ByzantiumBlock c) (ByzantiumBlock newcfg))
    else if isForkIncompatible (ConstantinopleBlock c) (ConstantinopleBlock newcfg) head
      then Some (newCompatError ''Constantinople fork block'' (ConstantinopleBlock c) (ConstantinopleBlock newcfg))
    else if isForkIncompatible (PetersburgBlock c) (PetersburgBlock newcfg) head \<and>
            isForkIncompatible (ConstantinopleBlock c) (PetersburgBlock newcfg) head
      then Some (newCompatError ''Petersburg fork block'' (PetersburgBlock c) (PetersburgBlock newcfg))
    else if isForkIncompatible (IstanbulBlock c) (IstanbulBlock newcfg) head
      then Some (newCompatError ''Istanbul fork block'' (IstanbulBlock c) (IstanbulBlock newcfg))
    else if isForkIncompatible (MuirGlacierBlock c) (MuirGlacierBlock newcfg) head
      then Some (newCompatError ''Muir Glacier fork block'' (MuirGlacierBlock c) (MuirGlacierBlock newcfg))
    else if isForkIncompatible (BerlinBlock c) (BerlinBlock newcfg) head
      then Some (newCompatError ''Berlin fork block'' (BerlinBlock c) (BerlinBlock newcfg))
    else if isForkIncompatible (LondonBlock c) (LondonBlock newcfg) head
      then Some (newCompatError ''London fork block'' (LondonBlock c) (LondonBlock newcfg))
    else if isForkIncompatible (ArrowGlacierBlock c) (ArrowGlacierBlock newcfg) head
      then Some (newCompatError ''Arrow Glacier fork block'' (ArrowGlacierBlock c) (ArrowGlacierBlock newcfg))
    else if isForkIncompatible (GrayGlacierBlock c) (GrayGlacierBlock newcfg) head
      then Some (newCompatError ''Gray Glacier fork block'' (GrayGlacierBlock c) (GrayGlacierBlock newcfg))
    else if isForkIncompatible (MergeNetsplitBlock c) (MergeNetsplitBlock newcfg) head
      then Some (newCompatError ''Merge netsplit fork block'' (MergeNetsplitBlock c) (MergeNetsplitBlock newcfg))
    else if isForkIncompatible (ShanghaiBlock c) (ShanghaiBlock newcfg) head
      then Some (newCompatError ''Shanghai fork block'' (ShanghaiBlock c) (ShanghaiBlock newcfg))
    else if isForkIncompatible (CancunBlock c) (CancunBlock newcfg) head
      then Some (newCompatError ''Cancun fork block'' (CancunBlock c) (CancunBlock newcfg))
    else if isForkIncompatible (PosaBlock c) (PosaBlock newcfg) head
      then Some (newCompatError ''Ferminux PoSA fork block'' (PosaBlock c) (PosaBlock newcfg))
    else None)"

lemma newCompatError_below:
  assumes "isForked s (Some h) \<or> isForked n (Some h)" and "0 \<le> h" and "h < 2 ^ 64"
  shows "RewindTo (newCompatError w s n) = 0 \<or> uint (RewindTo (newCompatError w s n)) < h"
proof -
  define rew where "rew = (case s of None \<Rightarrow> n | Some a \<Rightarrow> (case n of None \<Rightarrow> s | Some b \<Rightarrow> if a < b then s else n))"
  have to: "RewindTo (newCompatError w s n)
      = (case rew of None \<Rightarrow> 0 | Some r \<Rightarrow> if 0 < r then word_of_int r - 1 else 0)"
    by (simp add: newCompatError_def rew_def)
  show ?thesis
  proof (cases rew)
    case (Some r)
    with assms(1) have "r \<le> h"
      by (auto simp: rew_def isForked_def split: option.splits if_splits)
    with assms have r: "0 < r \<Longrightarrow> uint (word_of_int r - 1 :: u64) = r - 1"
      by (simp add: uint_word_ariths uint_word_of_int_eq take_bit_eq_mod mod_diff_left_eq)
    with \<open>r \<le> h\<close> show ?thesis by (simp add: to Some)
  qed (simp add: to)
qed

lemma if_Some_elim:
  assumes "(if P then Some x else y) = Some e"
  obtains "P" "x = e" | "y = Some e"
  using assms by (simp split: if_split_asm)

lemma newCompatError_incompatible:
  assumes "newCompatError w s n = e" and "isForkIncompatible s n (Some h)" and "0 \<le> h" and "h < 2 ^ 64"
  shows "RewindTo e = 0 \<or> uint (RewindTo e) < h"
  using newCompatError_below [of s h n w] assms by (auto simp: isForkIncompatible_def)

lemma newCompatError_stored:
  assumes "newCompatError w s n = e" and "isForked s (Some h)" and "0 \<le> h" and "h < 2 ^ 64"
  shows "RewindTo e = 0 \<or> uint (RewindTo e) < h"
  using newCompatError_below [of s h n w] assms by auto

lemma checkCompatible_below:
  assumes "checkCompatible c newcfg (Some h) = Some e" and "0 \<le> h" and "h < 2 ^ 64"
  shows "RewindTo e = 0 \<or> uint (RewindTo e) < h"
proof -
  note rewind = newCompatError_incompatible [OF _ _ assms(2,3)] newCompatError_stored [OF _ _ assms(2,3)]
  from assms(1) [unfolded checkCompatible_def IsDAOFork_def IsEIP158_def] show ?thesis
    by (elim if_Some_elim) (simp_all only: option.distinct, (erule conjE | rule rewind, assumption, assumption)+)
qed

function CheckCompatible_loop ::
  "ChainConfig \<Rightarrow> ChainConfig \<Rightarrow> u64 \<Rightarrow> ConfigCompatError option \<Rightarrow> ConfigCompatError option" where
  "CheckCompatible_loop c newcfg bhead lasterr =
    (case checkCompatible c newcfg (Some (uint bhead)) of
       None \<Rightarrow> lasterr
     | Some err \<Rightarrow>
         if lasterr \<noteq> None \<and> RewindTo err = RewindTo (the lasterr) then lasterr
         else CheckCompatible_loop c newcfg (RewindTo err) (Some err))"
  by pat_completeness auto
termination
proof (relation "measures [\<lambda>(c, newcfg, bhead, lasterr). unat bhead,
    \<lambda>(c, newcfg, bhead, lasterr). if lasterr \<noteq> None \<and> RewindTo (the lasterr) = bhead then 0 else 1]", goal_cases)
  case (2 c newcfg bhead lasterr err)
  from checkCompatible_below [OF 2(1)] consider "RewindTo err = 0" | "uint (RewindTo err) < uint bhead"
    using uint_u64_less [of bhead] by fastforce
  then show ?case
  proof cases
    case 1
    with 2(2) show ?thesis
      by (cases "bhead = 0") (auto simp: unat_gt_0)
  next
    case 2
    then show ?thesis by (simp add: word_less_alt [symmetric] word_less_nat_alt)
  qed
qed simp

declare CheckCompatible_loop.simps [simp del]

definition CheckCompatible :: "ChainConfig \<Rightarrow> ChainConfig \<Rightarrow> u64 \<Rightarrow> ConfigCompatError option" where
  "CheckCompatible c newcfg height = CheckCompatible_loop c newcfg height None"

section \<open>The Ferminux chain\<close>

definition FerminuxChainConfig :: ChainConfig where
  "FerminuxChainConfig =
    \<lparr>ChainID = Some 3961, HomesteadBlock = Some 0, DAOForkBlock = None, DAOForkSupport = False,
     EIP150Block = Some 0, EIP150Hash = 0, EIP155Block = Some 0, EIP158Block = Some 0,
     ByzantiumBlock = Some 0, ConstantinopleBlock = Some 0, PetersburgBlock = Some 0,
     IstanbulBlock = Some 0, MuirGlacierBlock = Some 0, BerlinBlock = Some 0, LondonBlock = Some 0,
     ArrowGlacierBlock = None, GrayGlacierBlock = None, MergeNetsplitBlock = None,
     ShanghaiBlock = None, CancunBlock = None, PosaBlock = Some 160000,
     TerminalTotalDifficulty = None, TerminalTotalDifficultyPassed = False,
     Powhash = True, Clique = None\<rparr>"

definition FerminuxPosaPeriod :: u64 where "FerminuxPosaPeriod = 7"

definition FerminuxPosaEpoch :: u64 where "FerminuxPosaEpoch = 30000"

definition FerminuxMaxReorgDepth :: u64 where "FerminuxMaxReorgDepth = 64"

definition FerminuxBreakGlassThreshold :: int where "FerminuxBreakGlassThreshold = 2"

definition FerminuxInitialSigners :: "address list" where
  "FerminuxInitialSigners =
    [0x3322f60aCEA9f88658665E83BeB30a516036187D,
     0xA46A721F25771BB2Be312a63A5D891539fF1de23,
     0x1538249E04c767dFfC50845068C19F633341bB0f,
     0x71377E0F553a5B0CB847443ab6648235977919b0,
     0x8e97f419F388c20E745dFF826587f359C31EF693]"

definition FerminuxTreasury :: address where
  "FerminuxTreasury = 0xc0A5Eb613f859f072554F29f1Ab7400265af15aB"

definition FerminuxRewardSink :: address where
  "FerminuxRewardSink = 0x691E5275BF346FfFa0B30174dDBeDfCC078dd8D6"

definition FerminuxPosaCheckpointHash :: hash where
  "FerminuxPosaCheckpointHash = 0xfa62e740b3cb3aaa60206476288e2e14d9a9f355a051dda896d87b576fa5af08"

definition FerminuxBreakGlassOwners :: "address list" where
  "FerminuxBreakGlassOwners =
    [0x1a143bf911E1E097730f3aA8C809C6B9109019EA,
     0x0fBBa0CC0e4f748Dc2Af25dDD3992700e7FCce15,
     0x11B53110eb83c548b392a56410bF5f959E6F41db]"

record Rules =
  ruleChainID :: int
  ruleHomestead :: bool
  ruleEIP150 :: bool
  ruleEIP155 :: bool
  ruleEIP158 :: bool
  ruleByzantium :: bool
  ruleConstantinople :: bool
  rulePetersburg :: bool
  ruleIstanbul :: bool
  ruleBerlin :: bool
  ruleLondon :: bool
  ruleMerge :: bool
  ruleShanghai :: bool
  ruleCancun :: bool

definition rules_of :: "ChainConfig \<Rightarrow> int option \<Rightarrow> bool \<Rightarrow> Rules" where
  "rules_of c num isMerge =
    \<lparr>ruleChainID = (case ChainID c of None \<Rightarrow> 0 | Some i \<Rightarrow> i),
     ruleHomestead = IsHomestead c num, ruleEIP150 = IsEIP150 c num, ruleEIP155 = IsEIP155 c num,
     ruleEIP158 = IsEIP158 c num, ruleByzantium = IsByzantium c num,
     ruleConstantinople = IsConstantinople c num, rulePetersburg = IsPetersburg c num,
     ruleIstanbul = IsIstanbul c num, ruleBerlin = IsBerlin c num, ruleLondon = IsLondon c num,
     ruleMerge = isMerge, ruleShanghai = IsShanghai c num, ruleCancun = IsCancun c num\<rparr>"

section \<open>Lemmas\<close>

lemma isForked_mono: "isForked s (Some h) \<Longrightarrow> h \<le> h' \<Longrightarrow> isForked s (Some h')"
  by (auto simp: isForked_def split: option.splits)

lemma isForkIncompatible_mono:
  "isForkIncompatible s n (Some h) \<Longrightarrow> h \<le> h' \<Longrightarrow> isForkIncompatible s n (Some h')"
  by (auto simp: isForkIncompatible_def intro: isForked_mono)

lemma checkCompatible_fixpoint:
  assumes "checkCompatible c newcfg (Some (uint b)) = Some e" and "RewindTo e = b"
  shows "b = 0"
  using checkCompatible_below [OF assms(1)] uint_u64_less [of b] assms(2) by auto

lemma CheckCompatible_loop_settles:
  assumes "RewindTo l = b"
  shows "\<exists>e. CheckCompatible_loop c newcfg b (Some l) = Some e \<and>
    (checkCompatible c newcfg (Some (uint (RewindTo e))) = None \<or> RewindTo e = 0)"
  using assms
proof (induction c newcfg b "Some l" arbitrary: l rule: CheckCompatible_loop.induct)
  case (1 c newcfg b l)
  show ?case
  proof (cases "checkCompatible c newcfg (Some (uint b))")
    case None
    with 1 show ?thesis by (auto simp: CheckCompatible_loop.simps [of c newcfg b])
  next
    case (Some e)
    with 1 show ?thesis
      using checkCompatible_fixpoint [OF Some]
      by (subst CheckCompatible_loop.simps) auto
  qed
qed

definition enabled_blocks :: "fork list \<Rightarrow> int list" where
  "enabled_blocks fs = concat (map (\<lambda>f. case fork_block f of None \<Rightarrow> [] | Some b \<Rightarrow> [b]) fs)"

lemma fork_order_run:
  assumes "run_res fork_order_step s fs = Inr s'"
  shows "sorted (enabled_blocks fs) \<and>
    (\<forall>l. s = Some l \<longrightarrow> (case fork_block l of None \<Rightarrow> enabled_blocks fs = []
                        | Some a \<Rightarrow> \<forall>b \<in> set (enabled_blocks fs). a \<le> b))"
  using assms
proof (induction fs arbitrary: s)
  case Nil
  then show ?case by (simp add: enabled_blocks_def split: option.splits)
next
  case (Cons f fs)
  then obtain t where t: "fork_order_step s f = Inr t" and r: "run_res fork_order_step t fs = Inr s'"
    by (auto split: sum.splits)
  note ih = Cons.IH [OF r]
  show ?case
  proof (cases "fork_block f")
    case None
    then have e: "enabled_blocks (f # fs) = enabled_blocks fs" by (simp add: enabled_blocks_def)
    show ?thesis
    proof (cases "fork_optional f")
      case True
      with None t have "t = s"
        by (auto simp: fork_order_step_def Let_def split: option.splits if_splits)
      with ih show ?thesis unfolding e by simp
    next
      case False
      with None t have "t = Some f"
        by (auto simp: fork_order_step_def Let_def split: option.splits if_splits)
      with ih e None show ?thesis by (auto split: option.splits)
    qed
  next
    case (Some b)
    then have e: "enabled_blocks (f # fs) = b # enabled_blocks fs" by (simp add: enabled_blocks_def)
    have "t = Some f"
      using Some t by (auto simp: fork_order_step_def Let_def split: option.splits if_splits)
    with ih Some have "sorted (enabled_blocks fs)" and ge: "\<forall>x \<in> set (enabled_blocks fs). b \<le> x" by auto
    moreover have "\<exists>a. fork_block l = Some a \<and> a \<le> b" if "s = Some l" for l
      using t Some that by (auto simp: fork_order_step_def Let_def split: option.splits if_splits)
    ultimately show ?thesis using e by fastforce
  qed
qed

text \<open>
  A configuration that passes the fork-order check activates its forks at non-decreasing block
  numbers.
\<close>

lemma CheckConfigForkOrder_sorted:
  assumes "CheckConfigForkOrder c = None"
  shows "sorted (enabled_blocks (config_forks c))"
proof -
  obtain s' where "run_res fork_order_step None (config_forks c) = Inr s'"
    using assms by (auto simp: CheckConfigForkOrder_def split: sum.splits)
  from fork_order_run [OF this] show ?thesis by simp
qed

lemma CheckConfigForkOrder_sorted_example:
  "CheckConfigForkOrder FerminuxChainConfig = None \<and>
   sorted (enabled_blocks (config_forks FerminuxChainConfig))"
proof -
  have c: "CheckConfigForkOrder FerminuxChainConfig = None"
    by (simp add: CheckConfigForkOrder_def config_forks_def FerminuxChainConfig_def fork_order_step_def)
  from c CheckConfigForkOrder_sorted [OF c] show ?thesis ..
qed

text \<open>
  C40. The compatibility check reports no conflict exactly when there is none at the chain head, and
  otherwise it terminates with a height at which the two configurations no longer conflict,
  genesis being the only exception.
\<close>

theorem CheckCompatible_rewind:
  "case CheckCompatible c newcfg height of
     None \<Rightarrow> checkCompatible c newcfg (Some (uint height)) = None
   | Some e \<Rightarrow> checkCompatible c newcfg (Some (uint height)) \<noteq> None \<and>
       (checkCompatible c newcfg (Some (uint (RewindTo e))) = None \<or> RewindTo e = 0)"
proof (cases "checkCompatible c newcfg (Some (uint height))")
  case None
  then show ?thesis by (simp add: CheckCompatible_def CheckCompatible_loop.simps)
next
  case (Some e)
  then have "CheckCompatible c newcfg height = CheckCompatible_loop c newcfg (RewindTo e) (Some e)"
    by (simp add: CheckCompatible_def CheckCompatible_loop.simps [of _ _ height])
  with CheckCompatible_loop_settles [of e "RewindTo e" c newcfg] Some show ?thesis by auto
qed

end
