(* ===== verification/RLP.thy ===== *)
theory RLP
  imports Ferminux_Prelude
begin

text \<open>
  Package \<open>rlp\<close>: the integer and header writers of \<open>encode.go\<close>, the two-pass encoder buffer of
  \<open>encbuffer.go\<close> (string data and list headers kept apart and interleaved at the end), and the
  slice decoders of \<open>raw.go\<close>.

  The reference is \<open>rlp_encode\<close> on trees of byte strings. The encoder buffer is shown to
  produce it, the decoders are shown to invert it and to accept canonical encodings only, and
  \<open>rlp_encode\<close> is shown to be injective. Lengths are naturals; the statements carry the bound
  \<open>2 ^ 63\<close> that every Go slice satisfies.
\<close>

unbundle bit_operations_syntax

section \<open>Integers and headers (encode.go)\<close>

text \<open>\<open>byte(i >> (8*(n-1))), ..., byte(i >> 8), byte(i)\<close>.\<close>

fun be_shifts :: "u64 \<Rightarrow> nat \<Rightarrow> bytes" where
  "be_shifts i 0 = []"
| "be_shifts i (Suc n) = ucast (drop_bit (8 * n) i) # be_shifts i n"

definition putint :: "u64 \<Rightarrow> bytes" where
  "putint i =
    (if i < 2 ^ 8 then be_shifts i 1
     else if i < 2 ^ 16 then be_shifts i 2
     else if i < 2 ^ 24 then be_shifts i 3
     else if i < 2 ^ 32 then be_shifts i 4
     else if i < 2 ^ 40 then be_shifts i 5
     else if i < 2 ^ 48 then be_shifts i 6
     else if i < 2 ^ 56 then be_shifts i 7
     else be_shifts i 8)"

function intsize_loop :: "u64 \<Rightarrow> nat \<Rightarrow> nat" where
  "intsize_loop i sz = (if drop_bit 8 i = 0 then sz else intsize_loop (drop_bit 8 i) (sz + 1))"
  by pat_completeness auto
termination
proof (relation "measure (\<lambda>(i, sz). unat i)", goal_cases)
  case (2 i sz)
  then have "i \<noteq> 0" by auto
  then show ?case by (simp add: unat_drop_bit unat_gt_0)
qed simp

declare intsize_loop.simps [simp del]

definition intsize :: "u64 \<Rightarrow> nat" where
  "intsize i = intsize_loop i 1"

definition headsize :: "u64 \<Rightarrow> nat" where
  "headsize sz = (if sz < 56 then 1 else 1 + intsize sz)"

definition puthead :: "u8 \<Rightarrow> u8 \<Rightarrow> u64 \<Rightarrow> bytes" where
  "puthead smalltag largetag sz =
    (if sz < 56 then [smalltag + ucast sz]
     else (let s = putint sz in (largetag + word_of_nat (length s)) # s))"

section \<open>The encoder buffer (encbuffer.go)\<close>

record listhead =
  lh_offset :: nat
  lh_size :: nat

record encBuffer =
  eb_str :: bytes
  lheads :: "listhead list"
  lhsize :: nat

definition eb_reset :: encBuffer where
  "eb_reset = \<lparr>eb_str = [], lheads = [], lhsize = 0\<rparr>"

definition eb_size :: "encBuffer \<Rightarrow> nat" where
  "eb_size buf = length (eb_str buf) + lhsize buf"

definition listhead_encode :: "listhead \<Rightarrow> bytes" where
  "listhead_encode head = puthead 0xC0 0xF7 (word_of_nat (lh_size head))"

fun copyTo_loop :: "nat \<Rightarrow> listhead list \<Rightarrow> bytes \<Rightarrow> bytes" where
  "copyTo_loop strpos [] str = drop strpos str"
| "copyTo_loop strpos (head # heads) str =
     slice str strpos (lh_offset head) @ listhead_encode head @
     copyTo_loop (strpos + (lh_offset head - strpos)) heads str"

definition makeBytes :: "encBuffer \<Rightarrow> bytes" where
  "makeBytes w = copyTo_loop 0 (lheads w) (eb_str w)"

definition eb_write :: "encBuffer \<Rightarrow> bytes \<Rightarrow> encBuffer" where
  "eb_write buf b = buf\<lparr>eb_str := eb_str buf @ b\<rparr>"

definition writeUint64 :: "encBuffer \<Rightarrow> u64 \<Rightarrow> encBuffer" where
  "writeUint64 buf i =
    (if i = 0 then eb_write buf [0x80]
     else if i < 128 then eb_write buf [ucast i]
     else (let s = putint i in eb_write buf ((0x80 + word_of_nat (length s)) # s)))"

definition encodeStringHeader :: "encBuffer \<Rightarrow> nat \<Rightarrow> encBuffer" where
  "encodeStringHeader buf sz =
    (if sz < 56 then eb_write buf [0x80 + word_of_nat sz]
     else (let s = putint (word_of_nat sz) in eb_write buf ((0xB7 + word_of_nat (length s)) # s)))"

definition writeBytes :: "encBuffer \<Rightarrow> bytes \<Rightarrow> encBuffer" where
  "writeBytes buf b =
    (if length b = 1 \<and> hd b \<le> 0x7F then eb_write buf [hd b]
     else eb_write (encodeStringHeader buf (length b)) b)"

text \<open>
  \<open>big.Int\<close>: \<open>BitLen\<close> and the little-endian machine words \<open>Bits\<close> of the absolute value, and the
  loop of \<open>writeBigInt\<close> that stores the words backwards from the end of the reserved space.
\<close>

fun BitLen :: "nat \<Rightarrow> nat" where
  "BitLen n = (if n = 0 then 0 else Suc (BitLen (n div 2)))"

declare BitLen.simps [simp del]

fun Bits :: "nat \<Rightarrow> u64 list" where
  "Bits n = (if n = 0 then [] else word_of_nat n # Bits (n div 2 ^ 64))"

declare Bits.simps [simp del]

fun fill_word :: "nat \<Rightarrow> u64 \<Rightarrow> nat \<times> bytes \<Rightarrow> nat \<times> bytes" where
  "fill_word 0 d (index, buf) = (index, buf)"
| "fill_word (Suc j) d (index, buf) =
     (if index = 0 then (index, buf)
      else fill_word j (drop_bit 8 d) (index - 1, buf[index - 1 := ucast d]))"

definition bigint_bytes :: "nat \<Rightarrow> nat \<Rightarrow> bytes" where
  "bigint_bytes n len = snd (foldl (\<lambda>st d. fill_word 8 d st) (len, replicate len 0) (Bits n))"

definition writeBigInt :: "encBuffer \<Rightarrow> int \<Rightarrow> encBuffer" where
  "writeBigInt w i =
    (let n = nat \<bar>i\<bar>; bitlen = BitLen n in
     if bitlen \<le> 64 then writeUint64 w (word_of_nat n)
     else (let len = (bitlen + 7) div 8 in
           eb_write (encodeStringHeader w len) (bigint_bytes n len)))"

definition eb_list :: "encBuffer \<Rightarrow> nat \<times> encBuffer" where
  "eb_list buf =
    (length (lheads buf),
     buf\<lparr>lheads := lheads buf @ [\<lparr>lh_offset = length (eb_str buf), lh_size = lhsize buf\<rparr>]\<rparr>)"

definition listEnd :: "encBuffer \<Rightarrow> nat \<Rightarrow> encBuffer" where
  "listEnd buf index =
    (let lh = lheads buf ! index;
         sz = eb_size buf - lh_offset lh - lh_size lh
     in buf\<lparr>lheads := (lheads buf)[index := lh\<lparr>lh_size := sz\<rparr>],
            lhsize := (if sz < 56 then lhsize buf + 1
                       else lhsize buf + (1 + intsize (word_of_nat sz)))\<rparr>)"

text \<open>Values the reflective writers see, as trees; the slice writer of \<open>makeSliceWriter\<close>.\<close>

datatype rlp_item = Str bytes | Lst "rlp_item list"

fun write_item :: "encBuffer \<Rightarrow> rlp_item \<Rightarrow> encBuffer"
  and write_items :: "encBuffer \<Rightarrow> rlp_item list \<Rightarrow> encBuffer" where
  "write_item w (Str b) = writeBytes w b"
| "write_item w (Lst []) = eb_write w [0xC0]"
| "write_item w (Lst (x # xs)) =
    (let (listOffset, w1) = eb_list w in listEnd (write_items w1 (x # xs)) listOffset)"
| "write_items w [] = w"
| "write_items w (x # xs) = write_items (write_item w x) xs"

definition EncodeToBytes :: "rlp_item \<Rightarrow> bytes" where
  "EncodeToBytes x = makeBytes (write_item eb_reset x)"

section \<open>Slice decoders (raw.go)\<close>

datatype Kind = Byte_Kind | String_Kind | List_Kind

datatype rlp_error =
    ErrUnexpectedEOF | ErrExpectedString | ErrExpectedList | ErrCanonInt | ErrCanonSize
  | ErrValueTooLarge | ErrUintOverflow

text \<open>The shift-and-or of the first \<open>slen\<close> bytes is their big-endian value.\<close>

definition readSize :: "bytes \<Rightarrow> u8 \<Rightarrow> rlp_error + u64" where
  "readSize b slen =
    (if length b < unat slen then Inl ErrUnexpectedEOF
     else (let s = (if 1 \<le> slen \<and> slen \<le> 8 then word_of_nat (be_nat (take (unat slen) b)) else 0) in
           if s < 56 \<or> hd b = 0 then Inl ErrCanonSize else Inr s))"

definition readKind :: "bytes \<Rightarrow> rlp_error + (Kind \<times> u64 \<times> u64)" where
  "readKind buf =
    (case buf of [] \<Rightarrow> Inl ErrUnexpectedEOF
     | b # rest \<Rightarrow>
       let r = (if b < 0x80 then Inr (Byte_Kind, 0, 1)
                else if b < 0xB8 then
                  (let contentsize = ucast (b - 0x80) in
                   if contentsize = 1 \<and> length buf > 1 \<and> buf ! 1 < 128 then Inl ErrCanonSize
                   else Inr (String_Kind, 1, contentsize))
                else if b < 0xC0 then
                  (case readSize rest (b - 0xB7) of Inl e \<Rightarrow> Inl e
                   | Inr s \<Rightarrow> Inr (String_Kind, ucast (b - 0xB7) + 1, s))
                else if b < 0xF8 then Inr (List_Kind, 1, ucast (b - 0xC0))
                else
                  (case readSize rest (b - 0xF7) of Inl e \<Rightarrow> Inl e
                   | Inr s \<Rightarrow> Inr (List_Kind, ucast (b - 0xF7) + 1, s)))
       in case r of Inl e \<Rightarrow> Inl e
          | Inr (k, tagsize, contentsize) \<Rightarrow>
              if contentsize > word_of_nat (length buf) - tagsize then Inl ErrValueTooLarge
              else Inr (k, tagsize, contentsize))"

definition Split :: "bytes \<Rightarrow> rlp_error + (Kind \<times> bytes \<times> bytes)" where
  "Split b =
    (case readKind b of Inl e \<Rightarrow> Inl e
     | Inr (k, ts, cs) \<Rightarrow>
         Inr (k, slice b (unat ts) (unat (ts + cs)), drop (unat (ts + cs)) b))"

definition SplitString :: "bytes \<Rightarrow> rlp_error + (bytes \<times> bytes)" where
  "SplitString b =
    (case Split b of Inl e \<Rightarrow> Inl e
     | Inr (k, content, rest) \<Rightarrow>
         if k = List_Kind then Inl ErrExpectedString else Inr (content, rest))"

definition SplitUint64 :: "bytes \<Rightarrow> rlp_error + (u64 \<times> bytes)" where
  "SplitUint64 b =
    (case SplitString b of Inl e \<Rightarrow> Inl e
     | Inr (content, rest) \<Rightarrow>
         if length content = 0 then Inr (0, rest)
         else if length content = 1 then
           (if hd content = 0 then Inl ErrCanonInt else Inr (ucast (hd content), rest))
         else if length content > 8 then Inl ErrUintOverflow
         else (case readSize content (word_of_nat (length content)) of
                 Inl _ \<Rightarrow> Inl ErrCanonInt
               | Inr x \<Rightarrow> Inr (x, rest)))"

definition SplitList :: "bytes \<Rightarrow> rlp_error + (bytes \<times> bytes)" where
  "SplitList b =
    (case Split b of Inl e \<Rightarrow> Inl e
     | Inr (k, content, rest) \<Rightarrow>
         if k \<noteq> List_Kind then Inl ErrExpectedList else Inr (content, rest))"

text \<open>
  The loop of \<open>CountValues\<close> drops at least one byte per turn: with a tag of size zero the
  content size is one. \<open>max 1\<close> makes the recursion visibly decreasing; \<open>readKind_progress\<close>
  shows that it changes nothing.
\<close>

function CountValues_loop :: "bytes \<Rightarrow> nat \<Rightarrow> rlp_error + nat" where
  "CountValues_loop b i =
    (if b = [] then Inr i
     else (case readKind b of Inl e \<Rightarrow> Inl e
           | Inr (_, tagsize, sz) \<Rightarrow> CountValues_loop (drop (max 1 (unat (tagsize + sz))) b) (i + 1)))"
  by pat_completeness auto
termination
  by (relation "measure (\<lambda>(b, i). length b)") auto

declare CountValues_loop.simps [simp del]

definition CountValues :: "bytes \<Rightarrow> rlp_error + nat" where
  "CountValues b = CountValues_loop b 0"

definition ListSize :: "u64 \<Rightarrow> u64" where
  "ListSize contentSize = word_of_nat (headsize contentSize) + contentSize"

definition IntSize :: "u64 \<Rightarrow> nat" where
  "IntSize x = (if x < 0x80 then 1 else 1 + intsize x)"

definition AppendUint64 :: "bytes \<Rightarrow> u64 \<Rightarrow> bytes" where
  "AppendUint64 b i =
    (if i = 0 then b @ [0x80]
     else if i < 128 then b @ [ucast i]
     else if i < 2 ^ 8 then b @ 0x81 # be_shifts i 1
     else if i < 2 ^ 16 then b @ 0x82 # be_shifts i 2
     else if i < 2 ^ 24 then b @ 0x83 # be_shifts i 3
     else if i < 2 ^ 32 then b @ 0x84 # be_shifts i 4
     else if i < 2 ^ 40 then b @ 0x85 # be_shifts i 5
     else if i < 2 ^ 48 then b @ 0x86 # be_shifts i 6
     else if i < 2 ^ 56 then b @ 0x87 # be_shifts i 7
     else b @ 0x88 # be_shifts i 8)"

section \<open>Reference encoding\<close>

definition rlp_head :: "u8 \<Rightarrow> u8 \<Rightarrow> nat \<Rightarrow> bytes" where
  "rlp_head small large n =
    (if n < 56 then [small + word_of_nat n]
     else (large + word_of_nat (length (nat_bytes n))) # nat_bytes n)"

definition rlp_string :: "bytes \<Rightarrow> bytes" where
  "rlp_string b = (if length b = 1 \<and> hd b < 0x80 then b else rlp_head 0x80 0xB7 (length b) @ b)"

definition rlp_list :: "bytes \<Rightarrow> bytes" where
  "rlp_list c = rlp_head 0xC0 0xF7 (length c) @ c"

fun rlp_encode :: "rlp_item \<Rightarrow> bytes" where
  "rlp_encode (Str b) = rlp_string b"
| "rlp_encode (Lst xs) = rlp_list (concat (map rlp_encode xs))"

section \<open>Integers and headers agree with the reference\<close>

lemma be_shifts_be_bytes: "n \<le> 8 \<Longrightarrow> be_shifts i n = be_bytes n (unat i)"
proof (induction n)
  case (Suc n)
  have "(ucast (drop_bit (8 * n) i) :: u8) = word_of_nat (unat (drop_bit (8 * n) i))"
    by (rule ucast_u8_word_of_nat)
  also have "\<dots> = word_of_nat (unat i div 256 ^ n)"
    by (simp add: unat_drop_bit power_mult)
  finally show ?case using Suc by (simp add: be_bytes_Cons del: be_bytes.simps(2))
qed simp

lemma be_shifts_nat_bytes:
  assumes "256 ^ k \<le> unat i" and "unat i < 256 ^ Suc k" and "k < 8"
  shows "be_shifts i (Suc k) = nat_bytes (unat i)"
  using be_shifts_be_bytes [of "Suc k" i] nat_bytes_be_bytes [OF assms(1,2)] assms(3) by simp

lemma putint_nat_bytes:
  assumes "0 < i"
  shows "putint i = nat_bytes (unat i)"
proof -
  have "0 < unat i" using assms by (simp add: word_less_nat_alt)
  moreover have "unat i < 18446744073709551616" by (rule unat_u64_less)
  ultimately show ?thesis
    using be_shifts_nat_bytes [of 0 i] be_shifts_nat_bytes [of 1 i] be_shifts_nat_bytes [of 2 i]
      be_shifts_nat_bytes [of 3 i] be_shifts_nat_bytes [of 4 i] be_shifts_nat_bytes [of 5 i]
      be_shifts_nat_bytes [of 6 i] be_shifts_nat_bytes [of 7 i]
    unfolding putint_def word_less_nat_alt
    by (simp add: numeral_2_eq_2 [symmetric] del: be_shifts.simps)
qed

lemma intsize_loop_nat_bytes:
  "intsize_loop i sz = sz + (length (nat_bytes (unat i)) - 1)"
proof (induction i sz rule: intsize_loop.induct)
  case (1 i sz)
  have u: "unat (drop_bit 8 i) = unat i div 256" by (simp add: unat_drop_bit)
  show ?case
  proof (cases "drop_bit 8 i = 0")
    case True
    then have "unat i div 256 = 0" using u by simp
    then show ?thesis using True
      by (cases "unat i = 0") (simp_all add: intsize_loop.simps nat_bytes_pos)
  next
    case False
    then have nz: "unat i div 256 \<noteq> 0" using u by (metis unat_eq_zero)
    then have "0 < length (nat_bytes (unat i div 256))" and "0 < unat i" by auto
    with 1 False u show ?thesis
      by (subst intsize_loop.simps) (simp add: nat_bytes_pos)
  qed
qed

lemma intsize_nat_bytes: "0 < i \<Longrightarrow> intsize i = length (nat_bytes (unat i))"
proof -
  assume "0 < i"
  then have "0 < unat i" by (simp add: word_less_nat_alt)
  then have "0 < length (nat_bytes (unat i))" by simp
  then show ?thesis by (simp add: intsize_def intsize_loop_nat_bytes)
qed

lemma length_be_shifts [simp]: "length (be_shifts i n) = n"
  by (induction n) simp_all

lemma word64_less: "n < 2 ^ 64 \<Longrightarrow> m < 2 ^ 64 \<Longrightarrow> (word_of_nat n :: u64) < word_of_nat m \<longleftrightarrow> n < m"
  by (simp add: word_less_nat_alt word64_of_nat)

lemma word64_less_56: "n < 2 ^ 64 \<Longrightarrow> (word_of_nat n :: u64) < 56 \<longleftrightarrow> n < 56"
  using word64_less [of n 56] by simp

lemma word64_pos: "0 < n \<Longrightarrow> n < 2 ^ 64 \<Longrightarrow> 0 < (word_of_nat n :: u64)"
  by (simp add: word_less_nat_alt word64_of_nat)

lemma ucast_word64: "(ucast (word_of_nat n :: u64) :: u8) = word_of_nat n"
proof -
  have "unat (ucast (word_of_nat n :: u64) :: u8) = n mod 2 ^ 64 mod 256"
    by (simp add: unat_ucast_u8 unat_of_nat)
  also have "\<dots> = n mod 256" by (rule mod_mod_cancel) simp
  finally show ?thesis by (simp add: word_unat_eq_iff unat_of_nat)
qed

lemma puthead_rlp_head:
  assumes "n < 2 ^ 64"
  shows "puthead small large (word_of_nat n) = rlp_head small large n"
  using assms putint_nat_bytes [OF word64_pos, of n]
  by (auto simp: puthead_def rlp_head_def word64_less_56 ucast_word64 word64_of_nat Let_def)

lemma headsize_rlp_head:
  assumes "n < 2 ^ 64"
  shows "headsize (word_of_nat n) = length (rlp_head small large n)"
  using assms intsize_nat_bytes [OF word64_pos, of n]
  by (auto simp: headsize_def rlp_head_def word64_less_56 word64_of_nat)

section \<open>Writers\<close>

lemma u8_le_7F: "(b :: u8) \<le> 0x7F \<longleftrightarrow> b < 0x80"
  by (simp add: word_le_nat_alt word_less_nat_alt) linarith

lemma eb_write_eb_write [simp]: "eb_write (eb_write w a) b = eb_write w (a @ b)"
  by (simp add: eb_write_def)

lemma encodeStringHeader_eq:
  "n < 2 ^ 64 \<Longrightarrow> encodeStringHeader w n = eb_write w (rlp_head 0x80 0xB7 n)"
  using putint_nat_bytes [OF word64_pos, of n]
  by (auto simp: encodeStringHeader_def rlp_head_def Let_def word64_of_nat)

lemma writeBytes_eq:
  "length b < 2 ^ 64 \<Longrightarrow> writeBytes w b = eb_write w (rlp_string b)"
  by (cases b) (auto simp: writeBytes_def rlp_string_def u8_le_7F encodeStringHeader_eq)

lemma writeUint64_eq: "writeUint64 w i = eb_write w (rlp_string (nat_bytes (unat i)))"
proof (cases "i < 128")
  case True
  then have lt: "unat i < 128" by (simp add: word_less_nat_alt)
  show ?thesis
  proof (cases "i = 0")
    case False
    then have pos: "0 < unat i" by (simp add: unat_gt_0)
    have nb: "nat_bytes (unat i) = [ucast i]"
      using lt pos by (simp add: nat_bytes_pos)
    have "(ucast i :: u8) < 0x80"
      using lt by (simp add: word_less_nat_alt unat_ucast_u8)
    then show ?thesis using False True nb by (simp add: writeUint64_def rlp_string_def)
  qed (simp add: writeUint64_def rlp_string_def rlp_head_def)
next
  case False
  then have ge: "128 \<le> unat i" by (simp add: word_less_nat_alt)
  then have pos: "0 < i" by (simp add: word_less_nat_alt)
  have len: "length (nat_bytes (unat i)) \<le> 8"
    using unat_u64_less [of i] by (intro length_nat_bytes_le) simp
  have "\<not> (length (nat_bytes (unat i)) = 1 \<and> hd (nat_bytes (unat i)) < 0x80)"
  proof
    assume a: "length (nat_bytes (unat i)) = 1 \<and> hd (nat_bytes (unat i)) < 0x80"
    then obtain x where x: "nat_bytes (unat i) = [x]" by (auto simp: length_Suc_conv)
    then have "unat i = unat x" using be_nat_nat_bytes [of "unat i"] be_nat_snoc [of "[]" x] by simp
    with a x ge show False by (simp add: word_less_nat_alt)
  qed
  with False pos len show ?thesis
    by (auto simp: writeUint64_def putint_nat_bytes rlp_string_def rlp_head_def Let_def)
qed

lemma BitLen_le_iff: "BitLen n \<le> k \<longleftrightarrow> n < 2 ^ k"
proof (induction n arbitrary: k rule: BitLen.induct)
  case (1 n)
  show ?case
  proof (cases "n = 0")
    case False
    then have "BitLen n = Suc (BitLen (n div 2))" by (simp add: BitLen.simps)
    with 1 False show ?thesis by (cases k) (auto simp: less_mult_imp_div_less div_less_iff_less_mult mult.commute)
  qed (simp add: BitLen.simps)
qed

lemma be_bytes_zero: "be_bytes k 0 = replicate k 0"
  by (induction k) (simp_all add: replicate_append_same)

lemma be_bytes_split: "be_bytes (a + b) n = be_bytes a (n div 256 ^ b) @ be_bytes b n"
  by (induction b arbitrary: n) (simp_all add: div_mult2_eq)

lemma be_bytes_mod: "k \<le> m \<Longrightarrow> be_bytes k (n mod 256 ^ m) = be_bytes k n"
proof -
  assume "k \<le> m"
  then have "(256 :: nat) ^ k dvd 256 ^ m" by (rule le_imp_power_dvd)
  then have "be_nat (be_bytes k (n mod 256 ^ m)) = be_nat (be_bytes k n)"
    by (simp add: be_nat_be_bytes mod_mod_cancel)
  then show ?thesis by (intro be_nat_inj) simp_all
qed

lemma fill_word_eq:
  "length pre = index \<Longrightarrow>
   fill_word j d (index, pre @ post)
     = (index - j, take (index - j) pre @ be_bytes (min j index) (unat d) @ post)"
proof (induction j arbitrary: d index pre post)
  case (Suc j)
  show ?case
  proof (cases "index = 0")
    case False
    with Suc.prems obtain ys y where pre: "pre = ys @ [y]" by (metis length_0_conv rev_exhaust)
    with Suc.prems have len: "length ys = index - 1" by simp
    have "(pre @ post)[index - 1 := ucast d] = ys @ ucast d # post"
      using pre len by (simp add: list_update_append)
    moreover have "min (Suc j) index = Suc (min j (index - 1))" using False by simp
    ultimately show ?thesis
      using False len pre Suc.IH [OF len, of "drop_bit 8 d" "ucast d # post"]
      by (simp add: unat_drop_bit)
  qed (use Suc.prems in simp)
qed simp

lemma fill_words_eq:
  "snd (foldl (\<lambda>st d. fill_word 8 d st) (index, replicate index 0 @ post) (Bits n)) = be_bytes index n @ post"
proof (induction n arbitrary: index post rule: Bits.induct)
  case (1 n)
  show ?case
  proof (cases "n = 0")
    case False
    let ?d = "word_of_nat n :: u64"
    have d: "unat ?d = n mod 256 ^ 8" by (simp add: unat_of_nat)
    have "snd (foldl (\<lambda>st d. fill_word 8 d st) (index, replicate index 0 @ post) (Bits n))
        = snd (foldl (\<lambda>st d. fill_word 8 d st)
            (index - 8, replicate (index - 8) 0 @ be_bytes (min 8 index) n @ post) (Bits (n div 2 ^ 64)))"
      using False by (subst Bits.simps) (simp add: fill_word_eq d be_bytes_mod [of _ 8, simplified] del: fill_word.simps)
    also have "\<dots> = be_bytes (index - 8) (n div 2 ^ 64) @ be_bytes (min 8 index) n @ post"
      using 1 False by simp
    also have "\<dots> = be_bytes index n @ post"
    proof (cases "8 \<le> index")
      case True
      then show ?thesis using be_bytes_split [of "index - 8" 8 n] by simp
    qed simp
    finally show ?thesis .
  qed (simp add: Bits.simps be_bytes_zero)
qed

lemma bigint_bytes_eq: "bigint_bytes n len = be_bytes len n"
  using fill_words_eq [of len "[]" n] by (simp add: bigint_bytes_def)

lemma length_nat_bytes_BitLen:
  assumes "0 < n"
  shows "nat_bytes n = be_bytes ((BitLen n + 7) div 8) n"
proof -
  define k where "k = (BitLen n - 1) div 8"
  have b: "0 < BitLen n" using assms by (simp add: BitLen.simps)
  then have L: "(BitLen n + 7) div 8 = Suc k" unfolding k_def by (cases "BitLen n") simp_all
  have "8 * k \<le> BitLen n - 1" unfolding k_def by simp
  then have "\<not> BitLen n \<le> 8 * k" using b by linarith
  then have "256 ^ k \<le> n" by (simp add: BitLen_le_iff power_mult)
  moreover have "BitLen n \<le> 8 * Suc k" unfolding k_def using b by simp
  then have "n < 256 ^ Suc k" unfolding BitLen_le_iff by (simp add: power_add power_mult)
  ultimately show ?thesis using L by (simp only: nat_bytes_be_bytes)
qed

lemma writeBigInt_eq:
  assumes "BitLen (nat \<bar>i\<bar>) < 2 ^ 63"
  shows "writeBigInt w i = eb_write w (rlp_string (nat_bytes (nat \<bar>i\<bar>)))"
proof (cases "BitLen (nat \<bar>i\<bar>) \<le> 64")
  case True
  then have "unat (word_of_nat (nat \<bar>i\<bar>) :: u64) = nat \<bar>i\<bar>"
    using BitLen_le_iff [of "nat \<bar>i\<bar>" 64] by (intro word64_of_nat) simp
  then show ?thesis using True unfolding writeBigInt_def by (simp add: writeUint64_eq del: word_of_nat_eq_0_iff)
next
  case False
  let ?n = "nat \<bar>i\<bar>"
  have "0 < ?n" using False by (cases "?n = 0") (simp_all add: BitLen.simps)
  from length_nat_bytes_BitLen [OF this] have nb: "nat_bytes ?n = be_bytes ((BitLen ?n + 7) div 8) ?n" .
  then have "length (nat_bytes ?n) = (BitLen ?n + 7) div 8" by simp
  moreover have "8 < (BitLen ?n + 7) div 8" using False by linarith
  moreover have "(BitLen ?n + 7) div 8 < 2 ^ 64" using assms by simp
  ultimately show ?thesis using False nb
    by (simp add: writeBigInt_def Let_def bigint_bytes_eq encodeStringHeader_eq rlp_string_def del: nat_bytes_Nil_iff)
qed

section \<open>The encoder buffer produces the reference encoding\<close>

text \<open>
  What writing a value adds to a buffer: string data, list headers with offsets relative to
  the start of that data, and the total size of those headers.
\<close>

fun segment :: "rlp_item \<Rightarrow> bytes \<times> listhead list \<times> nat"
  and segments :: "rlp_item list \<Rightarrow> bytes \<times> listhead list \<times> nat" where
  "segment (Str b) = (rlp_string b, [], 0)"
| "segment (Lst []) = ([0xC0], [], 0)"
| "segment (Lst (x # xs)) =
    (let (s, hs, k) = segments (x # xs); n = length s + k
     in (s, \<lparr>lh_offset = 0, lh_size = n\<rparr> # hs, k + length (rlp_head 0xC0 0xF7 n)))"
| "segments [] = ([], [], 0)"
| "segments (x # xs) =
    (let (s1, h1, k1) = segment x; (s2, h2, k2) = segments xs
     in (s1 @ s2, h1 @ map (\<lambda>h. h\<lparr>lh_offset := length s1 + lh_offset h\<rparr>) h2, k1 + k2))"

definition shift :: "nat \<Rightarrow> listhead list \<Rightarrow> listhead list" where
  "shift n hs = map (\<lambda>h. h\<lparr>lh_offset := n + lh_offset h\<rparr>) hs"

lemma shift_simps [simp]:
  "shift n [] = []" "shift n (h # hs) = h\<lparr>lh_offset := n + lh_offset h\<rparr> # shift n hs"
  "shift n (hs @ hs') = shift n hs @ shift n hs'" "shift 0 hs = hs"
  "shift m (shift n hs) = shift (m + n) hs"
  by (simp_all add: shift_def comp_def add.assoc)

definition extend :: "encBuffer \<Rightarrow> bytes \<times> listhead list \<times> nat \<Rightarrow> encBuffer" where
  "extend w seg = (case seg of (s, hs, k) \<Rightarrow>
     \<lparr>eb_str = eb_str w @ s, lheads = lheads w @ shift (length (eb_str w)) hs, lhsize = lhsize w + k\<rparr>)"

definition sorted_heads :: "nat \<Rightarrow> listhead list \<Rightarrow> nat \<Rightarrow> bool" where
  "sorted_heads lo hs hi \<longleftrightarrow> sorted (map lh_offset hs) \<and> (\<forall>h \<in> set hs. lo \<le> lh_offset h \<and> lh_offset h \<le> hi)"

lemma copyTo_shift: "copyTo_loop (length a + p) (shift (length a) hs) (a @ b) = copyTo_loop p hs b"
  by (induction hs arbitrary: p) (simp_all add: slice_def listhead_encode_def add.assoc)

lemma copyTo_append:
  assumes "p \<le> length a" and "sorted_heads p h1 (length a)"
  shows "copyTo_loop p (h1 @ shift (length a) h2) (a @ b) = copyTo_loop p h1 a @ copyTo_loop 0 h2 b"
  using assms
proof (induction h1 arbitrary: p)
  case Nil
  show ?case
  proof (cases h2)
    case (Cons h hs)
    have "slice (a @ b) p (length a + lh_offset h) = drop p a @ slice b 0 (lh_offset h)"
      using Nil.prems by (simp add: slice_def)
    moreover have "p + (length a + lh_offset h - p) = length a + lh_offset h" using Nil.prems by simp
    ultimately show ?thesis using Cons copyTo_shift [of a "lh_offset h" hs b]
      by (simp add: listhead_encode_def)
  qed (use Nil.prems in simp)
next
  case (Cons h hs)
  from Cons.prems have o: "p \<le> lh_offset h" "lh_offset h \<le> length a" by (auto simp: sorted_heads_def)
  from Cons.prems have "sorted_heads (lh_offset h) hs (length a)" by (auto simp: sorted_heads_def)
  with Cons.IH o have "copyTo_loop (lh_offset h) (hs @ shift (length a) h2) (a @ b)
      = copyTo_loop (lh_offset h) hs a @ copyTo_loop 0 h2 b" by simp
  moreover have "slice (a @ b) p (lh_offset h) = slice a p (lh_offset h)" using o by (simp add: slice_def)
  ultimately show ?case using o by simp
qed

lemma sorted_map_add_mono: "sorted (map f xs) \<Longrightarrow> sorted (map (\<lambda>x. m + f x) xs)" for f :: "'a \<Rightarrow> nat"
  by (induction xs) auto

lemma sorted_heads_append:
  "sorted_heads 0 h1 m \<Longrightarrow> sorted_heads 0 h2 n \<Longrightarrow> sorted_heads 0 (h1 @ shift m h2) (m + n)"
  by (auto simp: sorted_heads_def shift_def sorted_append comp_def trans_le_add1 intro: sorted_map_add_mono)

lemma segment_sorted:
  "segment x = (s, hs, k) \<Longrightarrow> sorted_heads 0 hs (length s)"
  "segments xs = (s, hs, k) \<Longrightarrow> sorted_heads 0 hs (length s)"
proof (induction x and xs arbitrary: s hs k and s hs k rule: segment_segments.induct)
  case (3 x xs)
  then show ?case by (auto simp: sorted_heads_def Let_def simp del: segments.simps split: prod.splits)
next
  case (5 x xs)
  obtain s1 h1 k1 s2 h2 k2 where seg: "segment x = (s1, h1, k1)" "segments xs = (s2, h2, k2)"
    by (metis prod_cases3)
  then have "sorted_heads 0 (h1 @ shift (length s1) h2) (length s1 + length s2)"
    using 5(1,2) by (intro sorted_heads_append) simp_all
  then show ?case using 5(3) seg by (auto simp: shift_def)
qed (auto simp: sorted_heads_def)

text \<open>The segment, merged, is the reference encoding, and its size is accounted for.\<close>

lemma segment_merge:
  "segment x = (s, hs, k) \<Longrightarrow> length (rlp_encode x) < 2 ^ 63 \<Longrightarrow>
     copyTo_loop 0 hs s = rlp_encode x \<and> length s + k = length (rlp_encode x)"
  "segments xs = (s, hs, k) \<Longrightarrow> length (concat (map rlp_encode xs)) < 2 ^ 63 \<Longrightarrow>
     copyTo_loop 0 hs s = concat (map rlp_encode xs) \<and> length s + k = length (concat (map rlp_encode xs))"
proof (induction x and xs arbitrary: s hs k and s hs k rule: segment_segments.induct)
  case (3 x xs)
  let ?c = "concat (map rlp_encode (x # xs))"
  obtain s' hs' k' where seg: "segments (x # xs) = (s', hs', k')" by (metis prod_cases3)
  have "length ?c < 2 ^ 63" using 3(3) by (simp add: rlp_list_def)
  with 3(1) [OF seg] have m: "copyTo_loop 0 hs' s' = ?c" "length s' + k' = length ?c" by auto
  have out: "s = s'" "hs = \<lparr>lh_offset = 0, lh_size = length ?c\<rparr> # hs'"
    "k = k' + length (rlp_head 0xC0 0xF7 (length ?c))"
    using 3(2) seg m(2) by (auto simp: Let_def)
  have "length ?c < 2 ^ 64" using \<open>length ?c < 2 ^ 63\<close> by simp
  then have "listhead_encode \<lparr>lh_offset = 0, lh_size = length ?c\<rparr> = rlp_head 0xC0 0xF7 (length ?c)"
    by (simp add: listhead_encode_def puthead_rlp_head del: concat.simps list.map)
  then show ?case using out m by (simp add: rlp_list_def slice_def del: concat.simps list.map)
next
  case (5 x xs)
  obtain s1 h1 k1 s2 h2 k2 where seg: "segment x = (s1, h1, k1)" "segments xs = (s2, h2, k2)"
    by (metis prod_cases3)
  have m: "copyTo_loop 0 h1 s1 = rlp_encode x \<and> length s1 + k1 = length (rlp_encode x)"
    "copyTo_loop 0 h2 s2 = concat (map rlp_encode xs) \<and> length s2 + k2 = length (concat (map rlp_encode xs))"
    using 5 seg by auto
  have "copyTo_loop 0 (h1 @ shift (length s1) h2) (s1 @ s2) = copyTo_loop 0 h1 s1 @ copyTo_loop 0 h2 s2"
    using segment_sorted(1) [OF seg(1)] by (intro copyTo_append) simp_all
  then show ?case using m 5(3) seg by (auto simp: shift_def)
qed (auto simp: rlp_list_def rlp_head_def)

lemma extend_extend:
  "extend (extend w (s1, h1, k1)) (s2, h2, k2) = extend w (s1 @ s2, h1 @ shift (length s1) h2, k1 + k2)"
  by (simp add: extend_def)

lemma length_rlp_string_ge: "length b \<le> length (rlp_string b)"
  by (simp add: rlp_string_def)

lemma lhsize_rlp_head:
  assumes "n < 2 ^ 64"
  shows "(if n < 56 then m + 1 else m + (1 + intsize (word_of_nat n))) = m + length (rlp_head 0xC0 0xF7 n)"
  using headsize_rlp_head [OF assms, of "0xC0" "0xF7"] word64_less_56 [OF assms] by (simp add: headsize_def split: if_splits)

lemma listEnd_extend:
  assumes "length s + k < 2 ^ 64"
  shows "listEnd (extend (snd (eb_list w)) (s, hs, k)) (fst (eb_list w))
    = extend w (s, \<lparr>lh_offset = 0, lh_size = length s + k\<rparr> # hs, k + length (rlp_head 0xC0 0xF7 (length s + k)))"
proof -
  define n where "n = length s + k"
  let ?w = "extend (snd (eb_list w)) (s, hs, k)"
  have head: "lheads ?w ! fst (eb_list w) = \<lparr>lh_offset = length (eb_str w), lh_size = lhsize w\<rparr>"
    by (simp add: extend_def eb_list_def nth_append)
  have sz: "eb_size ?w - length (eb_str w) - lhsize w = n"
    by (simp add: extend_def eb_list_def eb_size_def n_def)
  have "listEnd ?w (fst (eb_list w)) =
      ?w\<lparr>lheads := (lheads ?w)[fst (eb_list w) := \<lparr>lh_offset = length (eb_str w), lh_size = n\<rparr>],
         lhsize := lhsize ?w + length (rlp_head 0xC0 0xF7 n)\<rparr>"
    unfolding listEnd_def Let_def head listhead.select_convs sz
    using lhsize_rlp_head [of n "lhsize ?w"] assms by (simp add: n_def [symmetric])
  also have "\<dots> = extend w (s, \<lparr>lh_offset = 0, lh_size = n\<rparr> # hs, k + length (rlp_head 0xC0 0xF7 n))"
    by (simp add: extend_def eb_list_def list_update_append)
  finally show ?thesis by (simp only: n_def)
qed

lemma write_item_extend:
  "length (rlp_encode x) < 2 ^ 63 \<Longrightarrow> write_item w x = extend w (segment x)"
  "length (concat (map rlp_encode xs)) < 2 ^ 63 \<Longrightarrow> write_items w xs = extend w (segments xs)"
proof (induction w x and w xs rule: write_item_write_items.induct)
  case (1 w b)
  then have "length b < 2 ^ 64" using length_rlp_string_ge [of b] by simp
  then show ?case by (cases w) (simp add: writeBytes_eq extend_def eb_write_def)
next
  case (2 w)
  show ?case by (cases w) (simp add: extend_def eb_write_def)
next
  case (3 w x xs)
  obtain s hs k where seg: "segments (x # xs) = (s, hs, k)" by (metis prod_cases3)
  have c: "length (concat (map rlp_encode (x # xs))) < 2 ^ 63" using 3(2) by (simp add: rlp_list_def)
  then have "length s + k = length (concat (map rlp_encode (x # xs)))" using segment_merge(2) [OF seg] by blast
  with c have "length s + k < 2 ^ 64" by (simp del: concat.simps list.map)
  note le = listEnd_extend [OF this, of w hs]
  have "write_items (snd (eb_list w)) (x # xs) = extend (snd (eb_list w)) (s, hs, k)"
    using 3(1) [OF refl _ c] seg by (metis prod.collapse)
  then have "write_item w (Lst (x # xs)) = listEnd (extend (snd (eb_list w)) (s, hs, k)) (fst (eb_list w))"
    by (simp only: write_item.simps Let_def split_beta)
  also note le
  finally show ?case using seg by (simp only: segment.simps Let_def split)
next
  case (5 w x xs)
  obtain s1 h1 k1 s2 h2 k2 where seg: "segment x = (s1, h1, k1)" "segments xs = (s2, h2, k2)"
    by (metis prod_cases3)
  have "write_items w (x # xs) = extend (extend w (s1, h1, k1)) (s2, h2, k2)"
    using 5 seg by simp
  then show ?case using seg by (simp add: extend_extend shift_def)
qed (simp add: extend_def)

lemma makeBytes_write_item:
  assumes "length (rlp_encode x) < 2 ^ 63"
  shows "makeBytes (write_item eb_reset x) = rlp_encode x"
proof -
  obtain s hs k where seg: "segment x = (s, hs, k)" by (metis prod_cases3)
  have "write_item eb_reset x = extend eb_reset (s, hs, k)"
    using write_item_extend(1) [OF assms] seg by simp
  then show ?thesis
    using segment_merge(1) [OF seg assms] by (simp add: makeBytes_def extend_def eb_reset_def)
qed

text \<open>
  C28. Encoding through the two-pass buffer, with list headers recorded aside and interleaved at
  the end, yields exactly the recursive RLP encoding of the value.
\<close>

theorem EncodeToBytes_refines:
  assumes "length (rlp_encode x) < 2 ^ 63"
  shows "EncodeToBytes x = rlp_encode x"
  using makeBytes_write_item [OF assms] by (simp add: EncodeToBytes_def)

section \<open>Decoding\<close>

text \<open>The canonical encodings of a content of each kind.\<close>

fun kind_encode :: "Kind \<Rightarrow> bytes \<Rightarrow> bytes" where
  "kind_encode Byte_Kind c = c"
| "kind_encode String_Kind c = rlp_head 0x80 0xB7 (length c) @ c"
| "kind_encode List_Kind c = rlp_list c"

fun kind_ok :: "Kind \<Rightarrow> bytes \<Rightarrow> bool" where
  "kind_ok Byte_Kind c = (length c = 1 \<and> hd c < 0x80)"
| "kind_ok String_Kind c = (\<not> (length c = 1 \<and> hd c < 0x80))"
| "kind_ok List_Kind c = True"

lemma length_nat_bytes_8: "n < 2 ^ 64 \<Longrightarrow> length (nat_bytes n) \<le> 8"
  by (rule length_nat_bytes_le) simp

lemma unat_of_nat_u8: "n < 256 \<Longrightarrow> unat (word_of_nat n :: u8) = n"
  by (simp add: unat_of_nat)

lemma readSize_nat_bytes:
  assumes "56 \<le> n" and "n < 2 ^ 64"
  shows "readSize (nat_bytes n @ rest) (word_of_nat (length (nat_bytes n))) = Inr (word_of_nat n)"
proof -
  let ?l = "length (nat_bytes n)"
  have l: "1 \<le> ?l" "?l \<le> 8" using assms length_nat_bytes_8 [of n] by (auto simp: Suc_le_eq)
  then have u: "unat (word_of_nat ?l :: u8) = ?l" by (intro unat_of_nat_u8) simp
  have "hd (nat_bytes n @ rest) \<noteq> 0" using assms hd_nat_bytes [of n] by simp
  moreover have "\<not> (word_of_nat n :: u64) < 56" using assms word64_less_56 [of n] by simp
  moreover have "1 \<le> (word_of_nat ?l :: u8) \<and> (word_of_nat ?l :: u8) \<le> 8"
    unfolding word_le_nat_alt u using l by simp
  ultimately show ?thesis unfolding readSize_def u by simp
qed

lemma readSize_sound:
  assumes "readSize b slen = Inr s"
  shows "56 \<le> unat s \<and> nat_bytes (unat s) = take (unat slen) b \<and> unat slen \<le> length b \<and>
    1 \<le> unat slen \<and> unat slen \<le> 8"
proof -
  from assms have len: "unat slen \<le> length b" and r: "1 \<le> slen \<and> slen \<le> 8"
    and s: "s = word_of_nat (be_nat (take (unat slen) b))" and ge: "\<not> s < 56" and hd: "hd b \<noteq> 0"
    by (auto simp: readSize_def Let_def split: if_splits)
  from r have sl: "1 \<le> unat slen" "unat slen \<le> 8" by (simp_all add: word_le_nat_alt)
  have "be_nat (take (unat slen) b) < 256 ^ unat slen" using be_nat_less [of "take (unat slen) b"] len by simp
  also have "\<dots> \<le> 256 ^ 8" using sl by (intro power_increasing) auto
  finally have u: "unat s = be_nat (take (unat slen) b)" using s by (simp add: word64_of_nat)
  have "hd (take (unat slen) b) \<noteq> 0" using hd sl by simp
  then have "nat_bytes (unat s) = take (unat slen) b" unfolding u by (simp add: nat_bytes_be_nat)
  then show ?thesis using ge len sl by (simp add: word_less_nat_alt)
qed

lemma size_check:
  assumes "t \<le> n" and "n < 2 ^ 64" and "m < 2 ^ 64"
  shows "(word_of_nat m :: u64) > word_of_nat n - word_of_nat t \<longleftrightarrow> n < t + m"
proof -
  have "unat (word_of_nat n - word_of_nat t :: u64) = n - t"
    using assms by (subst unat_sub) (simp_all add: word_le_nat_alt word64_of_nat)
  then show ?thesis using assms by (auto simp: word_less_nat_alt word64_of_nat)
qed

definition kind_tag :: "Kind \<Rightarrow> nat \<Rightarrow> nat" where
  "kind_tag k n = (if k = Byte_Kind then 0 else length (rlp_head 0 0 n))"

lemma length_rlp_head: "length (rlp_head small large n) = (if n < 56 then 1 else 1 + length (nat_bytes n))"
  by (simp add: rlp_head_def)

lemma kind_encode_tag: "length (kind_encode k c) = kind_tag k (length c) + length c"
  by (cases k) (simp_all add: kind_tag_def rlp_list_def length_rlp_head)

lemma drop_kind_encode: "drop (kind_tag k (length c)) (kind_encode k c @ r) = c @ r"
  by (cases k) (simp_all add: kind_tag_def rlp_list_def length_rlp_head)

lemma readKind_long:
  assumes "56 \<le> n" and "n < 2 ^ 63" and "n + 9 \<le> length r + 9" and "length r < 2 ^ 63"
  shows "readKind ((0xB7 + word_of_nat (length (nat_bytes n))) # nat_bytes n @ r)
      = Inr (String_Kind, word_of_nat (1 + length (nat_bytes n)), word_of_nat n)"
    and "readKind ((0xF7 + word_of_nat (length (nat_bytes n))) # nat_bytes n @ r)
      = Inr (List_Kind, word_of_nat (1 + length (nat_bytes n)), word_of_nat n)"
proof -
  let ?l = "length (nat_bytes n)"
  have l: "1 \<le> ?l" "?l \<le> 8" using assms length_nat_bytes_8 [of n] by (auto simp: Suc_le_eq)
  then have u: "unat (word_of_nat ?l :: u8) = ?l" by (intro unat_of_nat_u8) simp
  have b7: "unat (0xB7 + word_of_nat ?l :: u8) = 0xB7 + ?l" and f7: "unat (0xF7 + word_of_nat ?l :: u8) = 0xF7 + ?l"
    using l u by (simp_all add: unat_word_ariths)
  have tag: "(ucast (word_of_nat ?l :: u8) :: u64) + 1 = word_of_nat (1 + ?l)"
    using l u by (simp add: word_unat_eq_iff unat_word_ariths unat_ucast_u64 word64_of_nat del: of_nat_add of_nat_Suc)
  have big: "\<not> (word_of_nat n :: u64) > word_of_nat (Suc (?l + length r)) - word_of_nat (1 + ?l)"
    using assms l by (subst size_check) auto
  have rs: "readSize (nat_bytes n @ r) (word_of_nat ?l) = Inr (word_of_nat n)"
    using assms by (intro readSize_nat_bytes) simp_all
  show "readKind ((0xB7 + word_of_nat ?l) # nat_bytes n @ r) = Inr (String_Kind, word_of_nat (1 + ?l), word_of_nat n)"
    using b7 l rs tag big assms(1) unfolding readKind_def by (simp add: word_less_nat_alt del: of_nat_add of_nat_Suc)
  show "readKind ((0xF7 + word_of_nat ?l) # nat_bytes n @ r) = Inr (List_Kind, word_of_nat (1 + ?l), word_of_nat n)"
    using f7 l rs tag big assms(1) unfolding readKind_def by (simp add: word_less_nat_alt del: of_nat_add of_nat_Suc)
qed

lemma readKind_short:
  assumes "n < 56" and "n \<le> length r" and "length r < 2 ^ 63"
  shows "\<not> (n = 1 \<and> hd r < 0x80) \<Longrightarrow>
      readKind ((0x80 + word_of_nat n) # r) = Inr (String_Kind, 1, word_of_nat n)"
    and "readKind ((0xC0 + word_of_nat n) # r) = Inr (List_Kind, 1, word_of_nat n)"
proof -
  have u: "unat (word_of_nat n :: u8) = n" using assms by (intro unat_of_nat_u8) simp
  have s: "unat (0x80 + word_of_nat n :: u8) = 0x80 + n" and l: "unat (0xC0 + word_of_nat n :: u8) = 0xC0 + n"
    using assms u by (simp_all add: unat_word_ariths)
  have tag: "(ucast (word_of_nat n :: u8) :: u64) = word_of_nat n"
    using assms u by (simp add: word_unat_eq_iff unat_ucast_u64 word64_of_nat)
  have big: "\<not> (word_of_nat n :: u64) > word_of_nat (Suc (length r)) - 1"
    using assms size_check [of 1 "Suc (length r)" n] by simp
  have one: "(word_of_nat n :: u64) = 1 \<longleftrightarrow> n = 1"
    using assms by (simp add: word_unat_eq_iff word64_of_nat)
  show "readKind ((0xC0 + word_of_nat n) # r) = Inr (List_Kind, 1, word_of_nat n)"
    using l tag big assms unfolding readKind_def by (simp add: word_less_nat_alt)
  assume "\<not> (n = 1 \<and> hd r < 0x80)"
  then have ok: "\<not> (n = 1 \<and> unat (r ! 0) < 128)"
    using assms by (cases r) (auto simp: word_less_nat_alt)
  show "readKind ((0x80 + word_of_nat n) # r) = Inr (String_Kind, 1, word_of_nat n)"
  proof (cases "n = 1")
    case True
    with ok assms s tag big show ?thesis
      unfolding readKind_def by (simp add: word_less_nat_alt)
  next
    case False
    with one assms s tag big show ?thesis
      unfolding readKind_def by (simp add: word_less_nat_alt)
  qed
qed

lemma readKind_complete:
  assumes "kind_ok k c" and "length (kind_encode k c @ r) < 2 ^ 63"
  shows "readKind (kind_encode k c @ r) = Inr (k, word_of_nat (kind_tag k (length c)), word_of_nat (length c))"
proof (cases k)
  case Byte_Kind
  with assms(1) obtain x where c: "c = [x]" "x < 0x80" by (auto simp: length_Suc_conv)
  have "\<not> (1 :: u64) > word_of_nat (Suc (length r)) - 0"
    using assms size_check [of 0 "Suc (length r)" 1] c Byte_Kind by simp
  then show ?thesis using Byte_Kind c by (simp add: readKind_def kind_tag_def)
next
  case String_Kind
  show ?thesis
  proof (cases "length c < 56")
    case True
    then show ?thesis using String_Kind assms readKind_short(1) [of "length c" "c @ r"]
      by (cases c) (auto simp: kind_tag_def rlp_head_def)
  next
    case False
    then show ?thesis using String_Kind assms readKind_long(1) [of "length c" "c @ r"]
      by (simp add: kind_tag_def rlp_head_def)
  qed
next
  case List_Kind
  show ?thesis
  proof (cases "length c < 56")
    case True
    then show ?thesis using List_Kind assms readKind_short(2) [of "length c" "c @ r"]
      by (simp add: kind_tag_def rlp_head_def rlp_list_def)
  next
    case False
    then show ?thesis using List_Kind assms readKind_long(2) [of "length c" "c @ r"]
      by (simp add: kind_tag_def rlp_head_def rlp_list_def)
  qed
qed

lemma Split_complete:
  assumes "kind_ok k c" and "length (kind_encode k c @ r) < 2 ^ 63"
  shows "Split (kind_encode k c @ r) = Inr (k, c, r)"
proof -
  let ?t = "kind_tag k (length c)"
  have b: "?t + length c < 2 ^ 64" using assms(2) by (simp add: kind_encode_tag)
  then have u: "unat (word_of_nat ?t :: u64) = ?t"
    "unat (word_of_nat ?t + word_of_nat (length c) :: u64) = ?t + length c"
    using word64_of_nat [of "?t + length c"] word64_of_nat [of ?t] by simp_all
  have "drop (?t + length c) (kind_encode k c @ r) = r"
    by (simp add: kind_encode_tag)
  moreover have "slice (kind_encode k c @ r) ?t (?t + length c) = c"
    unfolding slice_def by (simp add: drop_kind_encode del: drop_append)
  ultimately show ?thesis using readKind_complete [OF assms] u by (simp add: Split_def del: drop_append)
qed

lemma rlp_head_short: "unat d < 56 \<Longrightarrow> rlp_head small large (unat d) = [small + d]"
  by (simp add: rlp_head_def)

lemma size_check_sound:
  fixes cs ts :: u64
  assumes "\<not> cs > word_of_nat n - ts" and "unat ts \<le> n" and "n < 2 ^ 64"
  shows "unat ts + unat cs \<le> n"
  using size_check [of "unat ts" n "unat cs"] assms unat_u64_less [of cs] by simp

lemma readKind_sound_long:
  assumes "readSize rest d = Inr s" and "\<not> s > word_of_nat (Suc (length rest)) - (ucast d + 1)"
    and "length rest < 2 ^ 62"
  shows "\<exists>c r. rest = nat_bytes (unat s) @ c @ r \<and> length c = unat s \<and> 56 \<le> unat s \<and>
    d = word_of_nat (length (nat_bytes (unat s)))"
proof -
  from readSize_sound [OF assms(1)] have s: "56 \<le> unat s" "nat_bytes (unat s) = take (unat d) rest"
    "unat d \<le> length rest" "unat d \<le> 8" by auto
  have ts: "unat (ucast d + 1 :: u64) = Suc (unat d)"
    using s(4) by (simp add: unat_word_ariths unat_ucast_u64)
  have "Suc (unat d) + unat s \<le> Suc (length rest)"
    using size_check_sound [OF assms(2)] ts s(3) assms(3) by simp
  then have "length (take (unat s) (drop (unat d) rest)) = unat s" by simp
  moreover have "rest = take (unat d) rest @ take (unat s) (drop (unat d) rest) @ drop (unat s) (drop (unat d) rest)"
    by (simp only: append_take_drop_id)
  moreover have "d = word_of_nat (length (nat_bytes (unat s)))" using s by simp
  ultimately show ?thesis using s by metis
qed

lemma readKind_sound_short:
  fixes d :: u8
  assumes "\<not> ucast d > (word_of_nat (Suc (length rest)) :: u64) - 1" and "length rest < 2 ^ 62"
  shows "\<exists>c r. rest = c @ r \<and> length c = unat d"
proof -
  have "Suc (unat d) \<le> Suc (length rest)"
    using size_check_sound [OF assms(1)] assms(2) by (simp add: unat_ucast_u64)
  then show ?thesis by (intro exI [of _ "take (unat d) rest"] exI [of _ "drop (unat d) rest"]) simp
qed

lemma readKind_sound:
  assumes "readKind b = Inr (k, ts, cs)" and "length b < 2 ^ 62"
  shows "\<exists>c r. kind_ok k c \<and> b = kind_encode k c @ r"
proof -
  from assms(1) obtain x rest where b: "b = x # rest" by (cases b) (auto simp: readKind_def)
  have len: "length rest < 2 ^ 62" using assms(2) b by simp
  note u8_less = word_less_nat_alt
  consider (byte) "x < 0x80" | (str) "\<not> x < 0x80" "x < 0xB8" | (lstr) "\<not> x < 0xB8" "x < 0xC0"
    | (lst) "\<not> x < 0xC0" "x < 0xF8" | (llst) "\<not> x < 0xF8" by blast
  then show ?thesis
  proof cases
    case byte
    then have "k = Byte_Kind" using assms(1) b by (simp add: readKind_def split: if_splits)
    then show ?thesis using byte b by (intro exI [of _ "[x]"] exI [of _ rest]) simp
  next
    case str
    then have k: "k = String_Kind" and canon: "\<not> ((ucast (x - 0x80) :: u64) = 1 \<and> rest \<noteq> [] \<and> rest ! 0 < 128)"
      and chk: "\<not> ucast (x - 0x80) > (word_of_nat (Suc (length rest)) :: u64) - 1"
      using assms(1) b by (auto simp: readKind_def Let_def split: if_splits)
    have d: "unat (x - 0x80) < 56" using str by (simp add: u8_less unat_sub word_le_nat_alt)
    obtain c r where c: "rest = c @ r" "length c = unat (x - 0x80)" using readKind_sound_short [OF chk len] by blast
    have "\<not> (length c = 1 \<and> hd c < 0x80)"
    proof
      assume a: "length c = 1 \<and> hd c < 0x80"
      then have "(ucast (x - 0x80) :: u64) = 1" using c by (simp add: word_unat_eq_iff unat_ucast_u64)
      with canon a c show False by (cases c) auto
    qed
    moreover have "rlp_head 0x80 0xB7 (length c) = [x]" unfolding c(2) rlp_head_short [OF d] by simp
    ultimately show ?thesis using b k c by (intro exI [of _ c] exI [of _ r]) simp
  next
    case lstr
    then obtain s where k: "k = String_Kind" and rs: "readSize rest (x - 0xB7) = Inr s"
      and chk: "\<not> s > word_of_nat (Suc (length rest)) - (ucast (x - 0xB7) + 1)"
      using assms(1) b by (auto simp: readKind_def Let_def u8_less split: if_splits sum.splits)
    from readKind_sound_long [OF rs chk len] obtain c r where
      c: "rest = nat_bytes (length c) @ c @ r" "56 \<le> length c" "x - 0xB7 = word_of_nat (length (nat_bytes (length c)))"
      by metis
    from c(3) have "x = 0xB7 + word_of_nat (length (nat_bytes (length c)))" by (metis add.commute diff_add_cancel)
    then show ?thesis using b k c by (intro exI [of _ c] exI [of _ r]) (simp add: rlp_head_def)
  next
    case lst
    then have k: "k = List_Kind"
      and chk: "\<not> ucast (x - 0xC0) > (word_of_nat (Suc (length rest)) :: u64) - 1"
      using assms(1) b by (auto simp: readKind_def Let_def u8_less split: if_splits)
    have d: "unat (x - 0xC0) < 56" using lst by (simp add: u8_less unat_sub word_le_nat_alt)
    obtain c r where c: "rest = c @ r" "length c = unat (x - 0xC0)" using readKind_sound_short [OF chk len] by blast
    have "rlp_head 0xC0 0xF7 (length c) = [x]" unfolding c(2) rlp_head_short [OF d] by simp
    then show ?thesis using b k c by (intro exI [of _ c] exI [of _ r]) (simp add: rlp_list_def)
  next
    case llst
    then obtain s where k: "k = List_Kind" and rs: "readSize rest (x - 0xF7) = Inr s"
      and chk: "\<not> s > word_of_nat (Suc (length rest)) - (ucast (x - 0xF7) + 1)"
      using assms(1) b by (auto simp: readKind_def Let_def u8_less split: if_splits sum.splits)
    from readKind_sound_long [OF rs chk len] obtain c r where
      c: "rest = nat_bytes (length c) @ c @ r" "56 \<le> length c" "x - 0xF7 = word_of_nat (length (nat_bytes (length c)))"
      by metis
    from c(3) have "x = 0xF7 + word_of_nat (length (nat_bytes (length c)))" by (metis add.commute diff_add_cancel)
    then show ?thesis using b k c by (intro exI [of _ c] exI [of _ r]) (simp add: rlp_head_def rlp_list_def)
  qed
qed

text \<open>
  C30. \<open>Split\<close> accepts exactly the canonical encodings: it returns a kind, a content and a rest
  if and only if the input is the canonical encoding of that content followed by that rest.
\<close>

theorem Split_canonical:
  assumes "length b < 2 ^ 62"
  shows "Split b = Inr (k, c, r) \<longleftrightarrow> kind_ok k c \<and> b = kind_encode k c @ r"
proof
  assume s: "Split b = Inr (k, c, r)"
  then obtain ts cs where "readKind b = Inr (k, ts, cs)" by (auto simp: Split_def split: sum.splits)
  from readKind_sound [OF this assms] obtain c' r' where b: "kind_ok k c'" "b = kind_encode k c' @ r'" by blast
  then have "Split b = Inr (k, c', r')" using assms Split_complete [of k c' r'] by simp
  with s b show "kind_ok k c \<and> b = kind_encode k c @ r" by simp
next
  assume "kind_ok k c \<and> b = kind_encode k c @ r"
  then show "Split b = Inr (k, c, r)" using assms Split_complete [of k c r] by simp
qed

text \<open>Round trips and injectivity.\<close>

lemma rlp_encode_kind:
  "\<exists>k c. rlp_encode x = kind_encode k c \<and> kind_ok k c \<and>
     (case x of Str b \<Rightarrow> k \<noteq> List_Kind \<and> c = b | Lst xs \<Rightarrow> k = List_Kind \<and> c = concat (map rlp_encode xs))"
proof (cases x)
  case (Str b)
  then show ?thesis
    by (cases "length b = 1 \<and> hd b < 0x80")
      (auto simp: rlp_string_def intro: exI [of _ Byte_Kind] exI [of _ String_Kind])
next
  case (Lst xs)
  then show ?thesis by (auto intro: exI [of _ List_Kind])
qed

lemma kind_encode_inj:
  assumes "kind_encode k c @ r = kind_encode k' c' @ r'" and "kind_ok k c" and "kind_ok k' c'"
    and "length (kind_encode k c @ r) < 2 ^ 63"
  shows "k = k' \<and> c = c' \<and> r = r'"
proof -
  have "Split (kind_encode k c @ r) = Inr (k, c, r)" by (rule Split_complete [OF assms(2,4)])
  moreover have "Split (kind_encode k' c' @ r') = Inr (k', c', r')"
    by (rule Split_complete [OF assms(3)]) (use assms(1,4) in simp)
  ultimately have "Inr (k, c, r) = (Inr (k', c', r') :: rlp_error + Kind \<times> bytes \<times> bytes)"
    using assms(1) by metis
  then show ?thesis by simp
qed

lemma rlp_encode_nonempty [simp]: "rlp_encode x \<noteq> []"
  by (cases x) (auto simp: rlp_string_def rlp_list_def rlp_head_def)

lemma concat_rlp_encode_inj:
  assumes "\<And>x y r r'. x \<in> set xs \<Longrightarrow> length (rlp_encode x @ r) < 2 ^ 63 \<Longrightarrow>
      rlp_encode x @ r = rlp_encode y @ r' \<Longrightarrow> x = y \<and> r = r'"
    and "concat (map rlp_encode xs) = concat (map rlp_encode ys)"
    and "length (concat (map rlp_encode xs)) < 2 ^ 63"
  shows "xs = ys"
  using assms
proof (induction xs arbitrary: ys)
  case Nil
  then show ?case by (cases ys) auto
next
  case (Cons x xs)
  from Cons.prems(2) obtain y ys' where ys: "ys = y # ys'" by (cases ys) auto
  with Cons.prems have "x = y" "concat (map rlp_encode xs) = concat (map rlp_encode ys')"
    using Cons.prems(1) [of x "concat (map rlp_encode xs)" y "concat (map rlp_encode ys')"] by simp_all
  moreover have "xs = ys'"
  proof (rule Cons.IH)
    show "concat (map rlp_encode xs) = concat (map rlp_encode ys')" by fact
    show "length (concat (map rlp_encode xs)) < 2 ^ 63" using Cons.prems(3) by simp
    show "x' = y' \<and> r = r'" if "x' \<in> set xs" "length (rlp_encode x' @ r) < 2 ^ 63"
      "rlp_encode x' @ r = rlp_encode y' @ r'" for x' y' r r'
      using that by (intro Cons.prems(1)) simp_all
  qed
  ultimately show ?case using ys by simp
qed

lemma rlp_encode_prefix_inj:
  assumes "rlp_encode x @ r = rlp_encode y @ r'" and "length (rlp_encode x @ r) < 2 ^ 63"
  shows "x = y \<and> r = r'"
  using assms
proof (induction x arbitrary: y r r')
  case (Str b)
  obtain k c where x: "rlp_encode (Str b) = kind_encode k c" "kind_ok k c" "k \<noteq> List_Kind" "c = b"
    using rlp_encode_kind [of "Str b"] by auto
  obtain k' c' where y: "rlp_encode y = kind_encode k' c'" "kind_ok k' c'"
    "case y of Str b \<Rightarrow> k' \<noteq> List_Kind \<and> c' = b | Lst xs \<Rightarrow> k' = List_Kind \<and> c' = concat (map rlp_encode xs)"
    using rlp_encode_kind [of y] by auto
  from Str x y have "k = k' \<and> c = c' \<and> r = r'" by (metis kind_encode_inj)
  with x y show ?case by (cases y) auto
next
  case (Lst xs)
  obtain k' c' where y: "rlp_encode y = kind_encode k' c'" "kind_ok k' c'"
    "case y of Str b \<Rightarrow> k' \<noteq> List_Kind \<and> c' = b | Lst xs \<Rightarrow> k' = List_Kind \<and> c' = concat (map rlp_encode xs)"
    using rlp_encode_kind [of y] by auto
  have "rlp_encode (Lst xs) = kind_encode List_Kind (concat (map rlp_encode xs))" by simp
  with Lst.prems y have eq: "List_Kind = k' \<and> concat (map rlp_encode xs) = c' \<and> r = r'"
    by (metis kind_encode_inj kind_ok.simps(3))
  then obtain ys where ys: "y = Lst ys" "concat (map rlp_encode xs) = concat (map rlp_encode ys)"
    using y by (cases y) auto
  have "length (concat (map rlp_encode xs)) < 2 ^ 63" using Lst.prems(2) by (simp add: rlp_list_def)
  then have "xs = ys" using Lst.IH ys(2) by (intro concat_rlp_encode_inj) blast+
  with ys eq show ?case by simp
qed

lemma EncodeToBytes_inj:
  assumes "EncodeToBytes x = EncodeToBytes y"
    and "length (rlp_encode x) < 2 ^ 63" and "length (rlp_encode y) < 2 ^ 63"
  shows "x = y"
proof -
  have "rlp_encode x = rlp_encode y"
    using assms makeBytes_write_item [OF assms(2)] makeBytes_write_item [OF assms(3)] by (simp add: EncodeToBytes_def)
  then show ?thesis using rlp_encode_prefix_inj [of x "[]" y "[]"] assms(2) by simp
qed

lemma AppendUint64_eq: "AppendUint64 b i = b @ rlp_string (nat_bytes (unat i))"
proof -
  have "AppendUint64 b i = b @ eb_str (writeUint64 eb_reset i)"
    by (simp add: AppendUint64_def writeUint64_def putint_def eb_write_def eb_reset_def Let_def del: be_shifts.simps)
  then show ?thesis by (simp add: writeUint64_eq eb_write_def eb_reset_def)
qed

lemma Split_rlp_string:
  assumes "length (rlp_string c @ r) < 2 ^ 63"
  shows "\<exists>k. k \<noteq> List_Kind \<and> Split (rlp_string c @ r) = Inr (k, c, r)"
proof -
  obtain k where k: "rlp_string c = kind_encode k c" "kind_ok k c" "k \<noteq> List_Kind"
    using rlp_encode_kind [of "Str c"] by auto
  with assms Split_complete [of k c r] show ?thesis by auto
qed

lemma length_rlp_string_u64: "length (rlp_string (nat_bytes (unat (i :: u64)))) \<le> 9"
proof -
  have "length (nat_bytes (unat i)) \<le> 8" using unat_u64_less [of i] by (intro length_nat_bytes_8) simp
  then show ?thesis by (simp add: rlp_string_def rlp_head_def)
qed

lemma nat_bytes_single: "length (nat_bytes n) = 1 \<Longrightarrow> unat (hd (nat_bytes n)) = n"
  using be_nat_nat_bytes [of n] be_nat_snoc [of "[]"] by (cases "nat_bytes n") auto

text \<open>
  Decoding an appended 64-bit integer gives back that integer and the bytes that follow it.
\<close>

lemma SplitUint64_AppendUint64:
  assumes "length rest < 2 ^ 62"
  shows "SplitUint64 (AppendUint64 [] i @ rest) = Inr (i, rest)"
proof -
  let ?c = "nat_bytes (unat i)"
  have "length (rlp_string ?c @ rest) < 2 ^ 63" using length_rlp_string_u64 [of i] assms by simp
  then have split: "SplitString (AppendUint64 [] i @ rest) = Inr (?c, rest)"
    using Split_rlp_string [of ?c rest] by (auto simp: SplitString_def AppendUint64_eq)
  have len: "length ?c \<le> 8" using unat_u64_less [of i] by (intro length_nat_bytes_8) simp
  consider (zero) "length ?c = 0" | (one) "length ?c = 1" | (more) "1 < length ?c" by linarith
  then show ?thesis
  proof cases
    case zero
    then show ?thesis using split by (simp add: SplitUint64_def unat_eq_zero)
  next
    case one
    then have u: "unat (hd ?c) = unat i" by (rule nat_bytes_single)
    then have "hd ?c \<noteq> 0" using one hd_nat_bytes [of "unat i"] by auto
    moreover have "(ucast (hd ?c) :: u64) = i" using u by (simp add: word_unat_eq_iff unat_ucast_u64)
    moreover have "unat i \<noteq> 0" by (metis one list.size(3) nat_bytes_0 zero_neq_one)
    ultimately show ?thesis using split one by (simp add: SplitUint64_def)
  next
    case more
    have "256 ^ (length ?c - 1) \<le> unat i"
      using be_nat_ge [of ?c] hd_nat_bytes [of "unat i"] more by (cases "unat i = 0") auto
    moreover have "(256 :: nat) ^ 1 \<le> 256 ^ (length ?c - 1)" using more by (intro power_increasing) auto
    ultimately have "56 \<le> unat i" by simp
    then have "readSize ?c (word_of_nat (length ?c)) = Inr i"
      using readSize_nat_bytes [of "unat i" "[]"] unat_u64_less [of i] by simp
    then show ?thesis using split more len by (simp add: SplitUint64_def unat_eq_zero)
  qed
qed

lemma SplitUint64_AppendUint64_example:
  "length ([7, 9] :: bytes) < 2 ^ 62 \<and> SplitUint64 (AppendUint64 [] 4660 @ [7, 9]) = Inr (4660, [7, 9])"
  using SplitUint64_AppendUint64 [of "[7, 9]" 4660] by simp

lemma readKind_progress: "readKind b = Inr (k, ts, cs) \<Longrightarrow> length b < 2 ^ 62 \<Longrightarrow> 1 \<le> unat (ts + cs)"
proof -
  assume r: "readKind b = Inr (k, ts, cs)" and len: "length b < 2 ^ 62"
  from readKind_sound [OF r len] obtain c r' where b: "kind_ok k c" "b = kind_encode k c @ r'" by blast
  have l: "length (kind_encode k c) < 2 ^ 62" using b len by simp
  have "readKind b = Inr (k, word_of_nat (kind_tag k (length c)), word_of_nat (length c))"
    using readKind_complete [OF b(1), of r'] b len by simp
  with r have "ts + cs = word_of_nat (length (kind_encode k c))" by (simp add: kind_encode_tag)
  moreover have "1 \<le> length (kind_encode k c)"
    using b(1) by (cases k) (auto simp: rlp_list_def rlp_head_def length_Suc_conv)
  ultimately show ?thesis using l by (simp add: word64_of_nat)
qed

lemma CountValues_loop_encode:
  "length (concat (map rlp_encode xs)) < 2 ^ 62 \<Longrightarrow>
   CountValues_loop (concat (map rlp_encode xs)) i = Inr (i + length xs)"
proof (induction xs arbitrary: i)
  case Nil
  then show ?case by (simp add: CountValues_loop.simps)
next
  case (Cons x xs)
  let ?r = "concat (map rlp_encode xs)"
  obtain k c where x: "rlp_encode x = kind_encode k c" "kind_ok k c" using rlp_encode_kind [of x] by blast
  have "readKind (rlp_encode x @ ?r) = Inr (k, word_of_nat (kind_tag k (length c)), word_of_nat (length c))"
    unfolding x(1) using Cons.prems x by (intro readKind_complete) simp_all
  moreover have "unat (word_of_nat (kind_tag k (length c)) + word_of_nat (length c) :: u64) = length (rlp_encode x)"
    using Cons.prems word64_of_nat [of "kind_tag k (length c) + length c"] by (simp add: x(1) kind_encode_tag)
  moreover have "1 \<le> length (rlp_encode x)" by (simp add: Suc_le_eq)
  ultimately have "CountValues_loop (rlp_encode x @ ?r) i = CountValues_loop ?r (i + 1)"
    by (subst CountValues_loop.simps) (simp add: max_def)
  then show ?case using Cons by simp
qed

text \<open>
  Counting the values of a concatenation of encodings returns their number.
\<close>

lemma CountValues_encode:
  assumes "length (concat (map rlp_encode xs)) < 2 ^ 62"
  shows "CountValues (concat (map rlp_encode xs)) = Inr (length xs)"
  using CountValues_loop_encode [OF assms, of 0] by (simp add: CountValues_def)

lemma CountValues_encode_example:
  "length (concat (map rlp_encode [Str [1, 2], Lst [Str []]])) < 2 ^ 62 \<and>
   CountValues (concat (map rlp_encode [Str [1, 2], Lst [Str []]])) = Inr 2"
proof -
  have "length (concat (map rlp_encode [Str [1, 2], Lst [Str []]])) < 2 ^ 62"
    by (simp add: rlp_string_def rlp_list_def rlp_head_def)
  with CountValues_encode [OF this] show ?thesis by simp
qed

theorem EncodeToBytes_refines_witness:
  "length (rlp_encode (Lst [Str [1, 2], Lst [Str []]])) < 2 ^ 63 \<and>
   EncodeToBytes (Lst [Str [1, 2], Lst [Str []]]) = rlp_encode (Lst [Str [1, 2], Lst [Str []]])"
proof -
  have "length (rlp_encode (Lst [Str [1, 2], Lst [Str []]])) < 2 ^ 63"
    by (simp add: rlp_string_def rlp_list_def rlp_head_def)
  with EncodeToBytes_refines [OF this] show ?thesis by simp
qed

theorem Split_canonical_witness:
  "Split [0x82, 1, 2, 9] = Inr (String_Kind, [1, 2], [9])"
proof -
  have "kind_ok String_Kind [1, 2] \<and> [0x82, 1, 2, 9] = kind_encode String_Kind [1, 2] @ [9]"
    by (simp add: rlp_head_def)
  then show ?thesis using Split_canonical [of "[0x82, 1, 2, 9]" String_Kind "[1, 2]" "[9]"] by simp
qed

end
