(* ===== verification/Block_Header.thy ===== *)
theory Block_Header
  imports Chain_Params RLP
begin

text \<open>
  Block headers (\<open>core/types/block.go\<close>, the generated encoder \<open>gen_header_rlp.go\<close>) and the
  header rules of \<open>consensus/misc\<close>: gas-limit bound, EIP-1559 base fee, fork hashes and the
  extra-data rule of the DAO fork.

  Keccak-256 and secp256k1 public-key recovery are third-party code and parameters of the
  model, collected in the record \<open>crypto\<close>. A header hash is keccak of the RLP encoding; the
  encoding is shown to determine the header, so that two headers with equal hashes are equal
  unless keccak itself collides.
\<close>

section \<open>Cryptographic parameters\<close>

record crypto =
  keccak256 :: "bytes \<Rightarrow> hash"
  Ecrecover :: "hash \<Rightarrow> bytes \<Rightarrow> bytes option"

section \<open>Headers\<close>

record Header =
  ParentHash :: hash
  UncleHash :: hash
  Coinbase :: address
  Root :: hash
  TxHash :: hash
  ReceiptHash :: hash
  Bloom :: "2048 word"
  Difficulty :: "int option"
  Number :: "int option"
  GasLimit :: u64
  GasUsed :: u64
  Time :: u64
  Extra :: bytes
  MixDigest :: hash
  Nonce :: u64
  BaseFee :: "int option"

datatype encode_error = ErrNegativeBigInt

definition bloom_bytes :: "2048 word \<Rightarrow> bytes" where
  "bloom_bytes b = be_bytes 256 (unat b)"

text \<open>The encoding of a \<open>*big.Int\<close> field: \<open>rlp.EmptyString\<close> for nil, an error when negative.\<close>

definition write_bigint_field :: "encBuffer \<Rightarrow> int option \<Rightarrow> encode_error + encBuffer" where
  "write_bigint_field w x =
    (case x of None \<Rightarrow> Inr (eb_write w [0x80])
     | Some i \<Rightarrow> if i < 0 then Inl ErrNegativeBigInt else Inr (writeBigInt w i))"

definition Header_EncodeRLP :: "Header \<Rightarrow> encode_error + bytes" where
  "Header_EncodeRLP obj =
    (let (tmp0, w) = eb_list eb_reset;
         w = writeBytes w (hash_bytes (ParentHash obj));
         w = writeBytes w (hash_bytes (UncleHash obj));
         w = writeBytes w (address_bytes (Coinbase obj));
         w = writeBytes w (hash_bytes (Root obj));
         w = writeBytes w (hash_bytes (TxHash obj));
         w = writeBytes w (hash_bytes (ReceiptHash obj));
         w = writeBytes w (bloom_bytes (Bloom obj))
     in case write_bigint_field w (Difficulty obj) of Inl e \<Rightarrow> Inl e
     | Inr w \<Rightarrow>
       (case write_bigint_field w (Number obj) of Inl e \<Rightarrow> Inl e
        | Inr w \<Rightarrow>
          (let w = writeUint64 w (GasLimit obj);
               w = writeUint64 w (GasUsed obj);
               w = writeUint64 w (Time obj);
               w = writeBytes w (Extra obj);
               w = writeBytes w (hash_bytes (MixDigest obj));
               w = writeBytes w (u64_bytes (Nonce obj))
           in case (if BaseFee obj \<noteq> None then write_bigint_field w (BaseFee obj) else Inr w) of
                Inl e \<Rightarrow> Inl e
              | Inr w \<Rightarrow> Inr (makeBytes (listEnd w tmp0)))))"

text \<open>\<open>rlpHash\<close> ignores an encoding error: nothing has been written to the hasher then.\<close>

definition rlpHash :: "crypto \<Rightarrow> encode_error + bytes \<Rightarrow> hash" where
  "rlpHash cr enc = keccak256 cr (case enc of Inl _ \<Rightarrow> [] | Inr b \<Rightarrow> b)"

definition Hash :: "crypto \<Rightarrow> Header \<Rightarrow> hash" where
  "Hash cr h = rlpHash cr (Header_EncodeRLP h)"

text \<open>\<open>rlpHash([]*Header(nil))\<close>: the hash of an empty list.\<close>

definition EmptyUncleHash :: "crypto \<Rightarrow> hash" where
  "EmptyUncleHash cr = rlpHash cr (Inr (EncodeToBytes (Lst [])))"

datatype sanity_error =
    TooLargeNumber nat | TooLargeDifficulty nat | TooLargeExtra nat | TooLargeBaseFee nat

definition IsUint64 :: "int \<Rightarrow> bool" where
  "IsUint64 i = (0 \<le> i \<and> i < 2 ^ 64)"

definition SanityCheck :: "Header \<Rightarrow> sanity_error option" where
  "SanityCheck h =
    (if Number h \<noteq> None \<and> \<not> IsUint64 (the (Number h))
       then Some (TooLargeNumber (BitLen (nat \<bar>the (Number h)\<bar>)))
     else if Difficulty h \<noteq> None \<and> 80 < BitLen (nat \<bar>the (Difficulty h)\<bar>)
       then Some (TooLargeDifficulty (BitLen (nat \<bar>the (Difficulty h)\<bar>)))
     else if 100 * 1024 < length (Extra h) then Some (TooLargeExtra (length (Extra h)))
     else if BaseFee h \<noteq> None \<and> 256 < BitLen (nat \<bar>the (BaseFee h)\<bar>)
       then Some (TooLargeBaseFee (BitLen (nat \<bar>the (BaseFee h)\<bar>)))
     else None)"

section \<open>Header rules (consensus/misc)\<close>

definition GasLimitBoundDivisor :: u64 where "GasLimitBoundDivisor = 1024"

definition MinGasLimit :: u64 where "MinGasLimit = 5000"

definition MaxGasLimit :: u64 where "MaxGasLimit = 0x7fffffffffffffff"

definition MaximumExtraDataSize :: u64 where "MaximumExtraDataSize = 32"

definition BaseFeeChangeDenominator :: u64 where "BaseFeeChangeDenominator = 8"

definition ElasticityMultiplier :: u64 where "ElasticityMultiplier = 2"

definition InitialBaseFee :: u64 where "InitialBaseFee = 1000000000"

datatype fee_error =
    InvalidGasLimit u64 u64 u64
  | GasLimitBelow5000
  | MissingBaseFee
  | InvalidBaseFee int int
  | FeePanic

definition VerifyGaslimit :: "u64 \<Rightarrow> u64 \<Rightarrow> fee_error option" where
  "VerifyGaslimit parentGasLimit headerGasLimit =
    (let diff = parentGasLimit - headerGasLimit;
         diff = (if sint diff < 0 then diff * (- 1) else diff);
         limit = parentGasLimit div GasLimitBoundDivisor
     in if limit \<le> diff then Some (InvalidGasLimit headerGasLimit parentGasLimit (limit - 1))
        else if headerGasLimit < MinGasLimit then Some GasLimitBelow5000
        else None)"

text \<open>
  \<open>CalcBaseFee\<close> panics on a nil base fee of a London parent and on a zero gas target; those
  outcomes are \<open>None\<close>. \<open>big.Int.Div\<close> is Euclidean, which is \<open>div\<close> for the positive divisors here.
\<close>

definition CalcBaseFee :: "ChainConfig \<Rightarrow> Header \<Rightarrow> int option" where
  "CalcBaseFee config parent =
    (if \<not> IsLondon config (Number parent) then Some (uint InitialBaseFee)
     else
       (let parentGasTarget = GasLimit parent div ElasticityMultiplier in
        if GasUsed parent = parentGasTarget then BaseFee parent
        else
          (case BaseFee parent of None \<Rightarrow> None
           | Some fee \<Rightarrow>
             if parentGasTarget = 0 then None
             else if parentGasTarget < GasUsed parent then
               (let num = uint (GasUsed parent - parentGasTarget) * fee;
                    num = num div uint parentGasTarget;
                    num = num div uint BaseFeeChangeDenominator;
                    baseFeeDelta = max num 1
                in Some (fee + baseFeeDelta))
             else
               (let num = uint (parentGasTarget - GasUsed parent) * fee;
                    num = num div uint parentGasTarget;
                    num = num div uint BaseFeeChangeDenominator;
                    baseFee = fee - num
                in Some (max baseFee 0)))))"

definition VerifyEip1559Header :: "ChainConfig \<Rightarrow> Header \<Rightarrow> Header \<Rightarrow> fee_error option" where
  "VerifyEip1559Header config parent header =
    (let parentGasLimit = (if \<not> IsLondon config (Number parent)
                           then GasLimit parent * ElasticityMultiplier else GasLimit parent)
     in case VerifyGaslimit parentGasLimit (GasLimit header) of Some e \<Rightarrow> Some e
        | None \<Rightarrow>
          (case BaseFee header of None \<Rightarrow> Some MissingBaseFee
           | Some have_fee \<Rightarrow>
             (case CalcBaseFee config parent of None \<Rightarrow> Some FeePanic
              | Some expectedBaseFee \<Rightarrow>
                  if have_fee \<noteq> expectedBaseFee then Some (InvalidBaseFee have_fee expectedBaseFee)
                  else None)))"

definition VerifyForkHashes :: "crypto \<Rightarrow> ChainConfig \<Rightarrow> Header \<Rightarrow> bool \<Rightarrow> (hash \<times> hash) option" where
  "VerifyForkHashes cr config header uncle =
    (if uncle then None
     else if EIP150Block config \<noteq> None \<and> EIP150Block config = Number header \<and>
             EIP150Hash config \<noteq> 0 \<and> EIP150Hash config \<noteq> Hash cr header
       then Some (Hash cr header, EIP150Hash config)
     else None)"

definition DAOForkBlockExtra :: bytes where
  "DAOForkBlockExtra = [0x64, 0x61, 0x6f, 0x2d, 0x68, 0x61, 0x72, 0x64, 0x2d, 0x66, 0x6f, 0x72, 0x6b]"

definition DAOForkExtraRange :: int where "DAOForkExtraRange = 10"

datatype dao_error = ErrBadProDAOExtra | ErrBadNoDAOExtra

definition VerifyDAOHeaderExtraData :: "ChainConfig \<Rightarrow> Header \<Rightarrow> dao_error option" where
  "VerifyDAOHeaderExtraData config header =
    (case DAOForkBlock config of None \<Rightarrow> None
     | Some dao \<Rightarrow>
       (let limit = dao + DAOForkExtraRange in
        if the (Number header) < dao \<or> limit \<le> the (Number header) then None
        else if DAOForkSupport config then
          (if Extra header \<noteq> DAOForkBlockExtra then Some ErrBadProDAOExtra else None)
        else
          (if Extra header = DAOForkBlockExtra then Some ErrBadNoDAOExtra else None)))"

text \<open>What a consensus engine reads of the chain (\<open>consensus.ChainHeaderReader\<close>).\<close>

record ChainReader =
  GetHeader :: "hash \<Rightarrow> u64 \<Rightarrow> Header option"
  GetHeaderByNumber :: "u64 \<Rightarrow> Header option"
  GetHeaderByHash :: "hash \<Rightarrow> Header option"
  CurrentHeader :: Header
  chainConfig :: ChainConfig

section \<open>The header encoding\<close>

definition bigint_item :: "int option \<Rightarrow> rlp_item" where
  "bigint_item x = Str (case x of None \<Rightarrow> [] | Some i \<Rightarrow> nat_bytes (nat \<bar>i\<bar>))"

definition u64_item :: "u64 \<Rightarrow> rlp_item" where
  "u64_item n = Str (nat_bytes (unat n))"

definition header_items :: "Header \<Rightarrow> rlp_item list" where
  "header_items h =
    [Str (hash_bytes (ParentHash h)), Str (hash_bytes (UncleHash h)), Str (address_bytes (Coinbase h)),
     Str (hash_bytes (Root h)), Str (hash_bytes (TxHash h)), Str (hash_bytes (ReceiptHash h)),
     Str (bloom_bytes (Bloom h)), bigint_item (Difficulty h), bigint_item (Number h),
     u64_item (GasLimit h), u64_item (GasUsed h), u64_item (Time h), Str (Extra h),
     Str (hash_bytes (MixDigest h)), Str (u64_bytes (Nonce h))] @
    (if BaseFee h \<noteq> None then [bigint_item (BaseFee h)] else [])"

definition opt_nonneg :: "int option \<Rightarrow> bool" where
  "opt_nonneg x = (case x of None \<Rightarrow> True | Some i \<Rightarrow> 0 \<le> i)"

definition encodable :: "Header \<Rightarrow> bool" where
  "encodable h \<longleftrightarrow> opt_nonneg (Difficulty h) \<and> opt_nonneg (Number h) \<and> opt_nonneg (BaseFee h) \<and>
     length (rlp_encode (Lst (header_items h))) < 2 ^ 60"

lemma length_bloom_bytes [simp]: "length (bloom_bytes b) = 256"
  by (simp add: bloom_bytes_def)

lemma bloom_bytes_inj [simp]: "bloom_bytes a = bloom_bytes b \<longleftrightarrow> a = b"
proof
  assume "bloom_bytes a = bloom_bytes b"
  then have "unat a mod 256 ^ 256 = unat b mod 256 ^ 256"
    by (metis bloom_bytes_def be_nat_be_bytes)
  moreover have "unat x < 256 ^ 256" for x :: "2048 word"
  proof -
    have "(2 :: nat) ^ (8 * 256) = (2 ^ 8) ^ 256" by (rule power_mult)
    then show ?thesis using unsigned_less [of x, where 'a = nat] by simp
  qed
  ultimately show "a = b" by (simp add: word_unat_eq_iff)
qed simp

lemma length_rlp_encode_item: "x \<in> set xs \<Longrightarrow> length (rlp_encode x) \<le> length (rlp_encode (Lst xs))"
proof -
  assume "x \<in> set xs"
  then have "length (rlp_encode x) \<le> length (concat (map rlp_encode xs))"
    by (induction xs) auto
  then show ?thesis by (simp add: rlp_list_def)
qed

lemma write_item_Str: "length b < 2 ^ 64 \<Longrightarrow> write_item w (Str b) = eb_write w (rlp_string b)"
  by (simp add: writeBytes_eq)

lemma writeUint64_item: "writeUint64 w n = write_item w (u64_item n)"
proof -
  have "length (nat_bytes (unat n)) < 2 ^ 64"
    using length_rlp_string_u64 [of n] length_rlp_string_ge [of "nat_bytes (unat n)"] by simp
  then show ?thesis by (simp only: writeUint64_eq u64_item_def write_item_Str)
qed

lemma BitLen_nat_bytes: "BitLen n \<le> 8 * length (nat_bytes n)"
  unfolding BitLen_le_iff using be_nat_less [of "nat_bytes n"] by (simp add: power_mult)

lemma write_bigint_field_item:
  assumes "opt_nonneg x" and "length (rlp_encode (bigint_item x)) < 2 ^ 60"
  shows "write_bigint_field w x = Inr (write_item w (bigint_item x))"
proof (cases x)
  case None
  then show ?thesis
    by (simp add: write_bigint_field_def bigint_item_def writeBytes_def encodeStringHeader_def eb_write_def)
next
  case (Some i)
  let ?b = "nat_bytes (nat \<bar>i\<bar>)"
  have len: "length ?b < 2 ^ 60" using assms(2) Some length_rlp_string_ge [of ?b] by (simp add: bigint_item_def)
  then have "BitLen (nat \<bar>i\<bar>) < 2 ^ 63" using BitLen_nat_bytes [of "nat \<bar>i\<bar>"] by simp
  then have "writeBigInt w i = eb_write w (rlp_string ?b)" by (rule writeBigInt_eq)
  moreover have "write_item w (Str ?b) = eb_write w (rlp_string ?b)" using len by (intro write_item_Str) simp
  ultimately show ?thesis using assms(1) Some
    by (simp add: write_bigint_field_def bigint_item_def opt_nonneg_def)
qed

lemma Header_EncodeRLP_items:
  assumes "encodable h"
  shows "Header_EncodeRLP h = Inr (rlp_encode (Lst (header_items h)))"
proof -
  let ?xs = "header_items h"
  have len: "length (rlp_encode x) < 2 ^ 60" if "x \<in> set ?xs" for x
    using length_rlp_encode_item [OF that] assms unfolding encodable_def by linarith
  have fields: "write_bigint_field w (Difficulty h) = Inr (write_item w (bigint_item (Difficulty h)))"
    "write_bigint_field w (Number h) = Inr (write_item w (bigint_item (Number h)))"
    "BaseFee h \<noteq> None \<Longrightarrow> write_bigint_field w (BaseFee h) = Inr (write_item w (bigint_item (BaseFee h)))" for w
    using assms by (auto simp: encodable_def header_items_def intro!: write_bigint_field_item len)
  have str: "writeBytes w b = write_item w (Str b)" for w b by simp
  obtain y ys where items: "?xs = y # ys" by (simp add: header_items_def)
  have "Header_EncodeRLP h = Inr (makeBytes (listEnd (write_items (snd (eb_list eb_reset)) ?xs) (fst (eb_list eb_reset))))"
    unfolding Header_EncodeRLP_def Let_def split_beta str writeUint64_item fields
    by (simp add: header_items_def fields)
  also have "\<dots> = Inr (makeBytes (write_item eb_reset (Lst ?xs)))"
    unfolding items by (simp add: split_beta)
  also have "\<dots> = Inr (rlp_encode (Lst ?xs))"
    using assms unfolding encodable_def by (subst makeBytes_write_item) auto
  finally show ?thesis .
qed

lemma header_items_inj:
  assumes "header_items h = header_items h'"
    and "Difficulty h \<noteq> None" "Number h \<noteq> None" "Difficulty h' \<noteq> None" "Number h' \<noteq> None"
    and "opt_nonneg (Difficulty h)" "opt_nonneg (Number h)" "opt_nonneg (BaseFee h)"
    and "opt_nonneg (Difficulty h')" "opt_nonneg (Number h')" "opt_nonneg (BaseFee h')"
  shows "h = h'"
  using assms
  by (cases h; cases h')
    (auto simp: header_items_def bigint_item_def u64_item_def opt_nonneg_def word_unat_eq_iff [symmetric]
      split: if_splits option.splits)

lemma length_rlp_head_le: "n < 2 ^ 64 \<Longrightarrow> length (rlp_head small large n) \<le> 9"
  using length_nat_bytes_8 [of n] by (simp add: rlp_head_def)

lemma length_rlp_string_le: "length b < 2 ^ 64 \<Longrightarrow> length (rlp_string b) \<le> 9 + length b"
  using length_rlp_head_le [of "length b" "0x80" "0xB7"] by (simp add: rlp_string_def)

lemma length_nat_bytes_of_BitLen: "BitLen n \<le> 8 * k \<Longrightarrow> length (nat_bytes n) \<le> k"
  unfolding BitLen_le_iff by (intro length_nat_bytes_le) (simp add: power_mult)

lemma SanityCheck_None_iff:
  "SanityCheck h = None \<longleftrightarrow>
    (\<forall>n. Number h = Some n \<longrightarrow> IsUint64 n) \<and>
    (\<forall>d. Difficulty h = Some d \<longrightarrow> BitLen (nat \<bar>d\<bar>) \<le> 80) \<and>
    length (Extra h) \<le> 102400 \<and>
    (\<forall>b. BaseFee h = Some b \<longrightarrow> BitLen (nat \<bar>b\<bar>) \<le> 256)"
  by (cases "Number h"; cases "Difficulty h"; cases "BaseFee h") (simp_all add: SanityCheck_def not_less)

text \<open>Headers that pass \<open>SanityCheck\<close> are within the bounds of the encoder.\<close>

lemma sane_encodable:
  assumes "SanityCheck h = None" and "opt_nonneg (Difficulty h)" and "opt_nonneg (BaseFee h)"
  shows "encodable h"
proof -
  have num: "opt_nonneg (Number h)"
    using assms(1) by (auto simp: SanityCheck_def IsUint64_def opt_nonneg_def split: if_splits option.splits)
  have str: "length (rlp_encode (Str b)) \<le> 102500" if "length b \<le> 102400" for b
    using length_rlp_string_le [of b] that by simp
  have big: "length (rlp_encode (bigint_item x)) \<le> 102500" if "x \<noteq> None \<Longrightarrow> BitLen (nat \<bar>the x\<bar>) \<le> 256" for x
    unfolding bigint_item_def using that length_nat_bytes_of_BitLen [of "nat \<bar>the x\<bar>" 32]
    by (intro str) (auto split: option.splits)
  have u64: "length (rlp_encode (u64_item n)) \<le> 102500" for n
    using length_rlp_string_u64 [of n] by (simp add: u64_item_def)
  have "BitLen (nat \<bar>the (Number h)\<bar>) \<le> 256" if "Number h \<noteq> None"
  proof -
    have "the (Number h) < 2 ^ 64" "0 \<le> the (Number h)"
      using that assms(1) by (auto simp: SanityCheck_def IsUint64_def split: if_splits)
    then have "BitLen (nat \<bar>the (Number h)\<bar>) \<le> 64" unfolding BitLen_le_iff by (simp add: nat_less_iff)
    then show ?thesis by simp
  qed
  then have "\<forall>x \<in> set (header_items h). length (rlp_encode x) \<le> 102500"
    using assms(1) unfolding header_items_def
    by (auto simp: SanityCheck_def simp del: rlp_encode.simps intro!: str big u64 split: if_splits)
  then have "length (concat (map rlp_encode (header_items h))) \<le> length (header_items h) * 102500"
    by (rule length_concat_bound)
  moreover have "length (header_items h) \<le> 16" by (simp add: header_items_def)
  ultimately have c: "length (concat (map rlp_encode (header_items h))) \<le> 2000000" by linarith
  then have "length (rlp_encode (Lst (header_items h))) \<le> 2000009"
    using length_rlp_head_le [of "length (concat (map rlp_encode (header_items h)))" "0xC0" "0xF7"]
    by (simp add: rlp_list_def)
  then show ?thesis using num assms unfolding encodable_def by simp
qed

text \<open>
  C31. The header hash commits to the whole header: if two sane headers, with a number and
  non-negative difficulty and base fee, have the same hash, then either they are equal or the hash
  function collides on their two encodings.
\<close>

theorem Hash_binds_header:
  assumes "SanityCheck h = None" and "SanityCheck h' = None"
    and "Difficulty h = Some d" "0 \<le> d" "Number h = Some n" "opt_nonneg (BaseFee h)"
    and "Difficulty h' = Some d'" "0 \<le> d'" "Number h' = Some n'" "opt_nonneg (BaseFee h')"
    and "Hash cr h = Hash cr h'"
  shows "h = h' \<or> (\<exists>a b. a \<noteq> b \<and> keccak256 cr a = keccak256 cr b \<and>
    Header_EncodeRLP h = Inr a \<and> Header_EncodeRLP h' = Inr b)"
proof -
  have e: "encodable h" "encodable h'"
    using assms by (auto intro!: sane_encodable simp: opt_nonneg_def)
  show ?thesis
  proof (cases "rlp_encode (Lst (header_items h)) = rlp_encode (Lst (header_items h'))")
    case True
    then have "Lst (header_items h) = Lst (header_items h')"
      using rlp_encode_prefix_inj [of "Lst (header_items h)" "[]" "Lst (header_items h')" "[]"] e(1)
      by (simp add: encodable_def)
    then show ?thesis using assms e header_items_inj [of h h'] by (simp add: encodable_def)
  next
    case False
    then show ?thesis using assms(11) Header_EncodeRLP_items [OF e(1)] Header_EncodeRLP_items [OF e(2)]
      by (auto simp: Hash_def rlpHash_def)
  qed
qed

text \<open>A header and a toy instance of the cryptographic parameters, for the concrete instances below.\<close>

definition sample_crypto :: crypto where
  "sample_crypto = \<lparr>keccak256 = (\<lambda>b. word_of_nat (be_nat b)), Ecrecover = (\<lambda>h sig. Some (4 # sig))\<rparr>"

definition sample_header :: "int \<Rightarrow> Header" where
  "sample_header n =
    \<lparr>ParentHash = 1, UncleHash = 2, Coinbase = 3, Root = 4, TxHash = 5, ReceiptHash = 6, Bloom = 0,
     Difficulty = Some 2, Number = Some n, GasLimit = 30000000, GasUsed = 20000000, Time = 1000,
     Extra = replicate 97 0, MixDigest = 0, Nonce = 0, BaseFee = Some 1000\<rparr>"

theorem Hash_binds_header_witness:
  "\<exists>a b. a \<noteq> b \<and> Header_EncodeRLP (sample_header 160001) = Inr a \<and> Header_EncodeRLP (sample_header 160002) = Inr b"
proof -
  let ?cr = "\<lparr>keccak256 = (\<lambda>_. 0), Ecrecover = (\<lambda>_ _. None)\<rparr>"
  have bl: "BitLen 2 \<le> 80" "BitLen 1000 \<le> 256" unfolding BitLen_le_iff by simp_all
  have "SanityCheck (sample_header n) = None" if "n = 160001 \<or> n = 160002" for n
    using that bl by (auto simp: SanityCheck_def sample_header_def IsUint64_def)
  then show ?thesis
    using Hash_binds_header [of "sample_header 160001" "sample_header 160002" 2 160001 2 160002 ?cr]
    by (auto simp: sample_header_def Hash_def rlpHash_def opt_nonneg_def)
qed

section \<open>Gas limit and base fee\<close>

lemma unat_div_u64: "unat ((a :: u64) div b) = unat a div unat b"
  by (rule unat_div_distrib)

text \<open>For gas limits below \<open>2 ^ 63\<close> the gas-limit rule accepts exactly the limits of at least
  5000 that differ from the parent's by less than a 1024th of it: the signed arithmetic of the
  code does not overflow there.
\<close>

lemma VerifyGaslimit_iff:
  assumes "unat p < 2 ^ 63" and "unat h < 2 ^ 63"
  shows "VerifyGaslimit p h = None \<longleftrightarrow> \<bar>uint p - uint h\<bar> < uint p div 1024 \<and> 5000 \<le> uint h"
proof -
  define a b where ab: "a = unat p" "b = unat h"
  have i: "uint p = int a" "uint h = int b" by (simp_all add: ab)
  let ?d = "p - h" and ?abs = "if sint (p - h) < 0 then (p - h) * (- 1) else p - h"
  have "unat ?abs = nat \<bar>int a - int b\<bar>"
  proof (cases "b \<le> a")
    case True
    then have u: "unat ?d = a - b" by (simp add: ab unat_sub word_le_nat_alt)
    then have "\<not> sint ?d < 0" using assms by (simp add: ab sint_u64_neg)
    with u True show ?thesis by (simp add: nat_diff_distrib)
  next
    case False
    then have u: "unat (h - p) = b - a" by (simp add: ab unat_sub word_le_nat_alt)
    have "unat ?d = 2 ^ 64 - (b - a)" using False by (simp add: ab unat_sub_if_size word_le_nat_alt word_size)
    then have "sint ?d < 0" using assms False by (simp add: ab sint_u64_neg)
    with u False show ?thesis by (simp add: nat_diff_distrib)
  qed
  then show ?thesis
    unfolding i VerifyGaslimit_def Let_def GasLimitBoundDivisor_def MinGasLimit_def word_le_nat_alt
      word_less_nat_alt unat_div_u64
    by (simp add: ab [symmetric] nat_less_iff zdiv_int) linarith
qed

lemma VerifyGaslimit_iff_example:
  "VerifyGaslimit 30000000 29970705 = None \<and> VerifyGaslimit 30000000 29970704 \<noteq> None"
  using VerifyGaslimit_iff [of 30000000 29970705] VerifyGaslimit_iff [of 30000000 29970704] by simp

lemma fee_step_bound:
  fixes d t b :: int
  assumes "0 \<le> d" and "d \<le> t" and "0 < t" and "0 \<le> b"
  shows "0 \<le> d * b div t div 8" and "d * b div t div 8 \<le> b div 8"
proof -
  have "d * b div t \<le> t * b div t" using assms by (intro zdiv_mono1 mult_right_mono) auto
  then have "d * b div t \<le> b" using assms by simp
  then show "d * b div t div 8 \<le> b div 8" by (rule zdiv_mono1) simp
  show "0 \<le> d * b div t div 8" using assms by (simp add: pos_imp_zdiv_nonneg_iff)
qed

lemma uint_diff_u64: "(a :: u64) \<le> b \<Longrightarrow> uint (b - a) = uint b - uint a"
  by (simp add: uint_sub_lem [THEN iffD1] word_le_def)

lemma CalcBaseFee_cases:
  assumes "IsLondon config (Number parent)" and "BaseFee parent = Some b"
    and "0 < GasLimit parent div 2"
  shows "CalcBaseFee config parent =
    Some (let t = uint (GasLimit parent div 2); u = uint (GasUsed parent) in
      if u = t then b
      else if t < u then b + max ((u - t) * b div t div 8) 1
      else max (b - (t - u) * b div t div 8) 0)"
proof -
  define t u where tu: "t = GasLimit parent div 2" "u = GasUsed parent"
  have eq: "uint u = uint t \<longleftrightarrow> u = t" by (simp add: word_uint_eq_iff)
  have lt: "uint t < uint u \<longleftrightarrow> t < u" by (simp add: word_less_alt)
  have nz: "t \<noteq> 0" using assms(3) tu by auto
  have d: "t < u \<Longrightarrow> uint (u - t) = uint u - uint t" "\<not> t < u \<Longrightarrow> uint (t - u) = uint t - uint u"
    by (simp_all add: uint_diff_u64)
  have "CalcBaseFee config parent =
      (if u = t then Some b
       else if t < u then Some (b + max (uint (u - t) * b div uint t div 8) 1)
       else Some (max (b - uint (t - u) * b div uint t div 8) 0))"
    using assms nz
    unfolding CalcBaseFee_def ElasticityMultiplier_def BaseFeeChangeDenominator_def Let_def tu [symmetric]
    by simp
  then show ?thesis unfolding Let_def tu [symmetric] eq lt using d by (cases "t < u") simp_all
qed

text \<open>
  After London, the base fee rises above the parent's exactly when the parent used more gas
  than its target, and it never moves by more than an eighth of the parent's fee (by at least
  one wei when it rises) as long as the parent used at most twice its target.
\<close>

lemma CalcBaseFee_bounds:
  assumes "IsLondon config (Number parent)" and "BaseFee parent = Some b" and "0 \<le> b"
    and "2 \<le> GasLimit parent" and "uint (GasUsed parent) \<le> 2 * uint (GasLimit parent div 2)"
  shows "\<exists>f. CalcBaseFee config parent = Some f \<and> 0 \<le> f \<and>
    b - b div 8 \<le> f \<and> f \<le> b + max 1 (b div 8) \<and>
    (b < f \<longleftrightarrow> GasLimit parent div 2 < GasUsed parent)"
proof -
  define t u where tu: "t = uint (GasLimit parent div 2)" "u = uint (GasUsed parent)"
  have "unat (GasLimit parent div 2) = unat (GasLimit parent) div 2" by (simp add: unat_div_u64)
  moreover have "2 \<le> unat (GasLimit parent)" using assms(4) by (simp add: word_le_nat_alt)
  ultimately have pos: "0 < GasLimit parent div 2" by (simp add: word_less_nat_alt)
  then have t: "0 < t" by (simp add: tu word_less_alt)
  have u: "0 \<le> u" "u \<le> 2 * t" using assms(5) by (simp_all add: tu)
  have lt: "GasLimit parent div 2 < GasUsed parent \<longleftrightarrow> t < u" by (simp add: tu word_less_alt)
  have f: "CalcBaseFee config parent = Some (if u = t then b
      else if t < u then b + max ((u - t) * b div t div 8) 1 else max (b - (t - u) * b div t div 8) 0)"
    using CalcBaseFee_cases [OF assms(1,2) pos] by (simp only: Let_def tu)
  have b8: "0 \<le> b div 8" "8 * (b div 8) \<le> b" using assms(3) by auto
  consider (eq) "u = t" | (gt) "t < u" | (lt) "u < t" by linarith
  then show ?thesis
  proof cases
    case eq
    with f b8 assms(3) show ?thesis unfolding lt by simp
  next
    case gt
    with fee_step_bound [of "u - t" t b] u t assms(3)
    have "0 \<le> (u - t) * b div t div 8" "(u - t) * b div t div 8 \<le> b div 8" by simp_all
    with f gt b8 assms(3) show ?thesis unfolding lt by (simp add: max_def)
  next
    case lt
    with fee_step_bound [of "t - u" t b] u t assms(3)
    have "0 \<le> (t - u) * b div t div 8" "(t - u) * b div t div 8 \<le> b div 8" by simp_all
    moreover from this have "b - (t - u) * b div t div 8 = max (b - (t - u) * b div t div 8) 0"
      using b8 by linarith
    ultimately show ?thesis
      unfolding \<open>GasLimit parent div 2 < GasUsed parent \<longleftrightarrow> t < u\<close> using f lt b8 assms(3) by simp
  qed
qed

lemma CalcBaseFee_bounds_example:
  "\<exists>f. CalcBaseFee FerminuxChainConfig (sample_header 160001) = Some f \<and> 1000 < f \<and> f \<le> 1125"
  using CalcBaseFee_bounds [of FerminuxChainConfig "sample_header 160001" 1000]
  by (auto simp: sample_header_def FerminuxChainConfig_def IsLondon_def isForked_def)

end
