(* ===== verification/Clique_Seal.thy ===== *)
theory Clique_Seal
  imports Block_Header
begin

text \<open>
  The seal of an authority header (\<open>consensus/clique/clique.go\<close>): protocol constants, the errors of
  the package, the hash that is signed and the recovery of the signer, with and without the
  signature cache.

  The signed bytes are the header without the last 65 bytes of its extra-data; they are shown
  to determine everything else in the header. The cache is transparent: while the headers in
  play have distinct hashes, the cached recovery returns what the direct one returns.
\<close>

section \<open>Constants and errors\<close>

definition checkpointInterval :: u64 where "checkpointInterval = 1024"

definition extraVanity :: nat where "extraVanity = 32"

definition extraSeal :: nat where "extraSeal = 65"

definition nonceAuthVote :: u64 where "nonceAuthVote = 0xffffffffffffffff"

definition nonceDropVote :: u64 where "nonceDropVote = 0"

definition diffInTurn :: int where "diffInTurn = 2"

definition diffNoTurn :: int where "diffNoTurn = 1"

datatype clique_error =
    errUnknownBlock | errInvalidCheckpointBeneficiary | errInvalidVote | errInvalidCheckpointVote
  | errMissingVanity | errMissingSignature | errExtraSigners | errInvalidCheckpointSigners
  | errMismatchingCheckpointSigners | errInvalidMixDigest | errInvalidUncleHash
  | errInvalidDifficulty | errWrongDifficulty | errInvalidTimestamp | errInvalidVotingChain
  | errUnauthorizedSigner | errRecentlySigned
  | errBelowBootstrap | errBreakGlassDisabled | errBreakGlassMalformed | errBreakGlassSignerList
  | errBreakGlassBadSignature | errBreakGlassThreshold | errBreakGlassNumber | errBreakGlassVote
  | errBreakGlassUnauthorizedSealer
  | ErrUnknownAncestor | ErrFutureBlock
  | errEcrecover | errInvalidGasLimit u64 u64 | errInvalidGasUsed u64 u64
  | errInvalidBaseFee int | errFee fee_error | errForkHash hash hash | errSnapshotDb | errUncles
  | errBootstrapNoSigner | errBootstrapZeroSigner | errBreakGlassNoChainID
  | errBreakGlassBadThreshold int nat | errSealNoTransactions | errSignFn | errPanic

section \<open>The seal\<close>

text \<open>
  \<open>encodeSigHeader\<close> panics when the extra-data is shorter than a signature and when a big
  integer is negative; both are \<open>None\<close>.
\<close>

definition encodeSigHeader :: "Header \<Rightarrow> bytes option" where
  "encodeSigHeader header =
    (if length (Extra header) < extraSeal \<or> \<not> opt_nonneg (Difficulty header) \<or>
        \<not> opt_nonneg (Number header) \<or> \<not> opt_nonneg (BaseFee header) then None
     else Some (EncodeToBytes (Lst (
       [Str (hash_bytes (ParentHash header)), Str (hash_bytes (UncleHash header)),
        Str (address_bytes (Coinbase header)), Str (hash_bytes (Root header)),
        Str (hash_bytes (TxHash header)), Str (hash_bytes (ReceiptHash header)),
        Str (bloom_bytes (Bloom header)), bigint_item (Difficulty header),
        bigint_item (Number header), u64_item (GasLimit header), u64_item (GasUsed header),
        u64_item (Time header), Str (take (length (Extra header) - extraSeal) (Extra header)),
        Str (hash_bytes (MixDigest header)), Str (u64_bytes (Nonce header))] @
       (if BaseFee header \<noteq> None then [bigint_item (BaseFee header)] else [])))))"

definition SealHash :: "crypto \<Rightarrow> Header \<Rightarrow> hash option" where
  "SealHash cr header = map_option (keccak256 cr) (encodeSigHeader header)"

text \<open>\<open>Keccak256(pubkey[1:])[12:]\<close>, as an address.\<close>

definition pubkey_address :: "crypto \<Rightarrow> bytes \<Rightarrow> address" where
  "pubkey_address cr pub = bytes_address (drop 12 (hash_bytes (keccak256 cr (drop 1 pub))))"

definition ecrecover :: "crypto \<Rightarrow> Header \<Rightarrow> clique_error + address" where
  "ecrecover cr header =
    (if length (Extra header) < extraSeal then Inl errMissingSignature
     else (let signature = drop (length (Extra header) - extraSeal) (Extra header) in
           case SealHash cr header of None \<Rightarrow> Inl errPanic
           | Some h \<Rightarrow>
               (case Ecrecover cr h signature of None \<Rightarrow> Inl errEcrecover
                | Some pubkey \<Rightarrow> Inr (pubkey_address cr pubkey))))"

text \<open>
  With the signature cache, a map from header hashes; \<open>evict\<close> is what the cache drops when an
  entry is added.
\<close>

definition ecrecover_cached ::
  "crypto \<Rightarrow> (hash \<Rightarrow> bool) \<Rightarrow> (hash \<rightharpoonup> address) \<Rightarrow> Header \<Rightarrow> (clique_error + address) \<times> (hash \<rightharpoonup> address)" where
  "ecrecover_cached cr evict sigcache header =
    (let hash = Hash cr header in
     case sigcache hash of Some address \<Rightarrow> (Inr address, sigcache)
     | None \<Rightarrow>
         (case ecrecover cr header of Inl e \<Rightarrow> (Inl e, sigcache)
          | Inr signer \<Rightarrow>
              (Inr signer, (\<lambda>h. if evict h then None else sigcache h)(hash \<mapsto> signer))))"

text \<open>Every cached address is the signer of one of the headers \<open>S\<close> seen so far.\<close>

definition cache_ok :: "crypto \<Rightarrow> Header set \<Rightarrow> (hash \<rightharpoonup> address) \<Rightarrow> bool" where
  "cache_ok cr S sigcache \<longleftrightarrow>
    (\<forall>k a. sigcache k = Some a \<longrightarrow> (\<exists>h \<in> S. Hash cr h = k \<and> ecrecover cr h = Inr a))"

lemma ecrecover_cached_ok:
  assumes "inj_on (Hash cr) S" and "header \<in> S" and "cache_ok cr S c"
    and "ecrecover_cached cr evict c header = (r, c')"
  shows "r = ecrecover cr header \<and> cache_ok cr S c'"
proof (cases "c (Hash cr header)")
  case (Some a)
  then obtain h where "h \<in> S" "Hash cr h = Hash cr header" "ecrecover cr h = Inr a"
    using assms(3) unfolding cache_ok_def by blast
  moreover from this have "h = header" using assms(1,2) by (auto dest: inj_onD)
  ultimately show ?thesis using assms(3,4) Some by (auto simp: ecrecover_cached_def)
next
  case None
  then show ?thesis using assms(2-4)
    by (fastforce simp: ecrecover_cached_def cache_ok_def Let_def split: sum.splits if_splits)
qed

fun ecrecover_run ::
  "crypto \<Rightarrow> (hash \<rightharpoonup> address) \<Rightarrow> ((hash \<Rightarrow> bool) \<times> Header) list \<Rightarrow> (clique_error + address) list" where
  "ecrecover_run cr c [] = []"
| "ecrecover_run cr c ((evict, h) # hs) =
     (let (r, c') = ecrecover_cached cr evict c h in r # ecrecover_run cr c' hs)"

lemma ecrecover_run_ok:
  assumes "inj_on (Hash cr) S" and "snd ` set hs \<subseteq> S" and "cache_ok cr S c"
  shows "ecrecover_run cr c hs = map (\<lambda>(_, h). ecrecover cr h) hs"
  using assms(2,3)
proof (induction hs arbitrary: c)
  case (Cons x hs)
  obtain e h where x: "x = (e, h)" by fastforce
  obtain r c' where r: "ecrecover_cached cr e c h = (r, c')" by fastforce
  have "r = ecrecover cr h \<and> cache_ok cr S c'"
    using ecrecover_cached_ok [OF assms(1) _ _ r] Cons.prems x by auto
  with Cons x r show ?case by simp
qed simp

text \<open>
  Over any sequence of lookups of headers with pairwise distinct hashes, from an empty
  signature cache and under any eviction, every cached recovery returns the signer that direct
  recovery returns.
\<close>

lemma ecrecover_cache_transparent:
  assumes "inj_on (Hash cr) (snd ` set hs)"
  shows "ecrecover_run cr Map.empty hs = map (\<lambda>(_, h). ecrecover cr h) hs"
  using assms by (intro ecrecover_run_ok) (auto simp: cache_ok_def)

lemma ecrecover_cache_transparent_example:
  "ecrecover_run sample_crypto Map.empty [(\<lambda>_. True, sample_header 7), (\<lambda>_. False, sample_header 7)]
     = [ecrecover sample_crypto (sample_header 7), ecrecover sample_crypto (sample_header 7)]"
  using ecrecover_cache_transparent
    [of sample_crypto "[(\<lambda>_. True, sample_header 7), (\<lambda>_. False, sample_header 7)]"] by simp

section \<open>What the seal commits to\<close>

definition unsealed :: "Header \<Rightarrow> Header" where
  "unsealed h = h\<lparr>Extra := take (length (Extra h) - extraSeal) (Extra h)\<rparr>"

lemma encodeSigHeader_items:
  "encodeSigHeader h =
    (if length (Extra h) < extraSeal \<or> \<not> opt_nonneg (Difficulty h) \<or>
        \<not> opt_nonneg (Number h) \<or> \<not> opt_nonneg (BaseFee h) then None
     else Some (EncodeToBytes (Lst (header_items (unsealed h)))))"
  by (simp add: encodeSigHeader_def header_items_def unsealed_def)

lemma unsealed_encodable:
  assumes "SanityCheck h = None" and "opt_nonneg (Difficulty h)" and "opt_nonneg (BaseFee h)"
  shows "encodable (unsealed h)"
proof (rule sane_encodable)
  show "SanityCheck (unsealed h) = None"
    using assms(1) by (auto simp: SanityCheck_None_iff unsealed_def)
qed (use assms in \<open>simp_all add: unsealed_def\<close>)

text \<open>
  The hash a signer seals commits to the header: two sane headers with the same seal hash
  agree on every field except the 65 signature bytes, unless the hash function collides.
\<close>

lemma SealHash_binds_header:
  assumes "SanityCheck h = None" and "SanityCheck h' = None"
    and "Difficulty h = Some d" and "Number h = Some n"
    and "Difficulty h' = Some d'" and "Number h' = Some n'"
    and "SealHash cr h = Some x" and "SealHash cr h' = Some x"
  shows "unsealed h = unsealed h' \<or>
    (\<exists>a b. a \<noteq> b \<and> keccak256 cr a = x \<and> keccak256 cr b = x \<and>
      encodeSigHeader h = Some a \<and> encodeSigHeader h' = Some b)"
proof -
  have e: "opt_nonneg (Difficulty h)" "opt_nonneg (Number h)" "opt_nonneg (BaseFee h)"
    "opt_nonneg (Difficulty h')" "opt_nonneg (Number h')" "opt_nonneg (BaseFee h')"
    using assms(7,8) by (auto simp: SealHash_def encodeSigHeader_def split: if_splits)
  let ?a = "EncodeToBytes (Lst (header_items (unsealed h)))" and ?b = "EncodeToBytes (Lst (header_items (unsealed h')))"
  have enc: "encodeSigHeader h = Some ?a" "encodeSigHeader h' = Some ?b"
    using assms(7,8) by (auto simp: SealHash_def encodeSigHeader_items split: if_splits)
  show ?thesis
  proof (cases "?a = ?b")
    case True
    have "encodable (unsealed h)" "encodable (unsealed h')" using assms e by (auto intro: unsealed_encodable)
    then have "Lst (header_items (unsealed h)) = Lst (header_items (unsealed h'))"
      using True by (intro EncodeToBytes_inj) (auto simp: encodable_def)
    then have "unsealed h = unsealed h'" using assms e by (intro header_items_inj) (simp_all add: unsealed_def)
    then show ?thesis ..
  next
    case False
    then show ?thesis using assms(7,8) enc by (auto simp: SealHash_def)
  qed
qed

lemma SealHash_binds_header_example:
  "unsealed (sample_header 7) = unsealed ((sample_header 7)\<lparr>Extra := replicate 32 0 @ replicate 65 1\<rparr>)"
proof -
  let ?cr = "\<lparr>keccak256 = (\<lambda>_. 0), Ecrecover = (\<lambda>_ _. None)\<rparr>"
  let ?h = "sample_header 7" and ?h' = "(sample_header 7)\<lparr>Extra := replicate 32 0 @ replicate 65 1\<rparr>"
  have bl: "BitLen 2 \<le> 80" "BitLen 1000 \<le> 256" unfolding BitLen_le_iff by simp_all
  have "SanityCheck ?h = None" "SanityCheck ?h' = None"
    using bl by (auto simp: SanityCheck_def sample_header_def IsUint64_def)
  moreover have "SealHash ?cr ?h = Some 0" "SealHash ?cr ?h' = Some 0"
    by (simp_all add: SealHash_def encodeSigHeader_items sample_header_def extraSeal_def opt_nonneg_def)
  moreover have "encodeSigHeader ?h = encodeSigHeader ?h'"
    by (simp add: encodeSigHeader_items sample_header_def extraSeal_def unsealed_def)
  ultimately show ?thesis
    using SealHash_binds_header [of ?h ?h' 2 7 2 7 ?cr 0] by (auto simp: sample_header_def)
qed

end
