(* ===== verification/Break_Glass.thy ===== *)
theory Break_Glass
  imports Clique_Seal
begin

text \<open>
  Signer-set overrides (\<open>consensus/clique/ferminux.go\<close>): the payload an override block carries in
  its extra-data, the message the multisig owners sign, the verification of their signatures
  and of the seal.

  The payload codec is shown to be a bijection between signer lists with signatures and
  payload bytes that can never be mistaken for a plain checkpoint list; an accepted override is
  shown to carry valid signatures of at least \<open>Threshold\<close> distinct owners over exactly this
  chain, block number, parent and list.
\<close>

section \<open>Constants and configuration\<close>

definition breakGlassMagicLen :: nat where "breakGlassMagicLen = 8"

definition breakGlassCountLen :: nat where "breakGlassCountLen = 1"

definition breakGlassTrailerLen :: nat where
  "breakGlassTrailerLen = breakGlassCountLen + breakGlassMagicLen"

definition breakGlassMinPayload :: nat where
  "breakGlassMinPayload = 20 + breakGlassTrailerLen"

text \<open>\<open>FMX-BGL2\<close> and \<open>FERMINUX-BREAK-GLASS-V2\<close>.\<close>

definition breakGlassMagic :: bytes where
  "breakGlassMagic = [0x46, 0x4D, 0x58, 0x2D, 0x42, 0x47, 0x4C, 0x32]"

definition breakGlassPrefix :: bytes where
  "breakGlassPrefix =
    [0x46, 0x45, 0x52, 0x4D, 0x49, 0x4E, 0x55, 0x58, 0x2D, 0x42, 0x52, 0x45, 0x41, 0x4B, 0x2D,
     0x47, 0x4C, 0x41, 0x53, 0x53, 0x2D, 0x56, 0x32]"

record BreakGlassConfig =
  bgChainID :: int
  Owners :: "address list"
  Threshold :: int

record BreakGlassOverride =
  ovNumber :: u64
  ovParentHash :: hash
  ovSigners :: "address list"
  ovSignatures :: "bytes list"

definition isOwner :: "BreakGlassConfig \<Rightarrow> address \<Rightarrow> bool" where
  "isOwner bg addr = list_ex (\<lambda>owner. owner = addr) (Owners bg)"

section \<open>Payload\<close>

definition encodeBreakGlassPayload :: "address list \<Rightarrow> bytes list \<Rightarrow> bytes" where
  "encodeBreakGlassPayload signers signatures =
    concat (map address_bytes signers) @ concat signatures @
    [word_of_nat (length signatures)] @ breakGlassMagic"

text \<open>\<open>copy\<close> into a 32-byte buffer pads or truncates the vanity.\<close>

definition BreakGlassExtra :: "bytes \<Rightarrow> address list \<Rightarrow> bytes list \<Rightarrow> bytes" where
  "BreakGlassExtra vanity signers signatures =
    (take extraVanity vanity @ replicate (extraVanity - length vanity) 0) @
    encodeBreakGlassPayload signers signatures @ replicate extraSeal 0"

definition isBreakGlassExtra :: "bytes \<Rightarrow> bool" where
  "isBreakGlassExtra extra =
    (if length extra < extraVanity + extraSeal + breakGlassMinPayload then False
     else (let payload = slice extra extraVanity (length extra - extraSeal) in
           length payload mod 20 \<noteq> 0 \<and>
           drop (length payload - breakGlassMagicLen) payload = breakGlassMagic))"

definition parseCheckpointExtra :: "bytes \<Rightarrow> clique_error + (address list \<times> bytes list \<times> bool)" where
  "parseCheckpointExtra extra =
    (if length extra < extraVanity + extraSeal then Inl errMissingSignature
     else
       (let payload = slice extra extraVanity (length extra - extraSeal) in
        if length payload mod 20 = 0 then
          Inr (map (\<lambda>i. bytes_address (take 20 (drop (i * 20) payload))) [0..<length payload div 20], [], False)
        else if length payload < breakGlassTrailerLen \<or>
                drop (length payload - breakGlassMagicLen) payload \<noteq> breakGlassMagic then
          Inl errInvalidCheckpointSigners
        else
          (let count = unat (payload ! (length payload - breakGlassTrailerLen)) in
           if count = 0 then Inl errBreakGlassMalformed
           else
             (let sigBytes = count * 65;
                  signersBytes = int (length payload) - int breakGlassTrailerLen - int sigBytes
              in if signersBytes < 20 \<or> signersBytes mod 20 \<noteq> 0 then Inl errBreakGlassMalformed
                 else
                   (let n = nat signersBytes;
                        signers = map (\<lambda>i. bytes_address (take 20 (drop (i * 20) payload))) [0..<n div 20];
                        sigs = map (\<lambda>i. slice payload (n + i * 65) (n + i * 65 + 65)) [0..<count]
                    in Inr (signers, sigs, True))))))"

section \<open>The signed message\<close>

text \<open>\<open>%d\<close>: ASCII decimal digits.\<close>

fun decimal :: "nat \<Rightarrow> bytes" where
  "decimal n = (if n < 10 then [word_of_nat (48 + n)] else decimal (n div 10) @ [word_of_nat (48 + n mod 10)])"

declare decimal.simps [simp del]

text \<open>The EIP-191 prefix \<open>\x19Ethereum Signed Message:\n\<close>.\<close>

definition eip191_prefix :: bytes where
  "eip191_prefix =
    [0x19, 0x45, 0x74, 0x68, 0x65, 0x72, 0x65, 0x75, 0x6D, 0x20, 0x53, 0x69, 0x67, 0x6E, 0x65, 0x64,
     0x20, 0x4D, 0x65, 0x73, 0x73, 0x61, 0x67, 0x65, 0x3A, 0x0A]"

definition TextAndHash :: "crypto \<Rightarrow> bytes \<Rightarrow> hash \<times> bytes" where
  "TextAndHash cr data =
    (let msg = eip191_prefix @ decimal (length data) @ data in (keccak256 cr msg, msg))"

definition TextHash :: "crypto \<Rightarrow> bytes \<Rightarrow> hash" where
  "TextHash cr data = fst (TextAndHash cr data)"

definition breakGlassMessage :: "int \<Rightarrow> u64 \<Rightarrow> hash \<Rightarrow> address list \<Rightarrow> bytes" where
  "breakGlassMessage chainID number parentHash signers =
    breakGlassPrefix @ LeftPadBytes (nat_bytes (nat \<bar>chainID\<bar>)) 32 @ u64_bytes number @
    hash_bytes parentHash @ concat (map address_bytes signers)"

definition breakGlassDigest :: "crypto \<Rightarrow> int \<Rightarrow> u64 \<Rightarrow> hash \<Rightarrow> address list \<Rightarrow> hash" where
  "breakGlassDigest cr chainID number parentHash signers =
    TextHash cr (breakGlassMessage chainID number parentHash signers)"

section \<open>Verification\<close>

definition sortedUniqueSigners :: "address list \<Rightarrow> clique_error + address list" where
  "sortedUniqueSigners signers =
    (if length signers = 0 then Inl errBreakGlassSignerList
     else (let sorted_list = sort signers in
           if list_ex (\<lambda>i. sorted_list ! i = 0 \<or> 0 < i \<and> sorted_list ! (i - 1) = sorted_list ! i)
                [0..<length sorted_list]
           then Inl errBreakGlassSignerList else Inr sorted_list))"

text \<open>One signature: its length, its recovery id moved from 27/28 to 0/1, the recovered owner.\<close>

definition recover_owner :: "crypto \<Rightarrow> hash \<Rightarrow> bytes \<Rightarrow> address option" where
  "recover_owner cr digest sig =
    (if length sig \<noteq> 65 then None
     else (let norm = (if 27 \<le> sig ! 64 then sig[64 := sig ! 64 - 27] else sig) in
           map_option (pubkey_address cr) (Ecrecover cr digest norm)))"

definition check_owner_sig ::
  "crypto \<Rightarrow> BreakGlassConfig \<Rightarrow> hash \<Rightarrow> address list \<Rightarrow> bytes \<Rightarrow> clique_error + address list" where
  "check_owner_sig cr bg digest seen sig =
    (case recover_owner cr digest sig of None \<Rightarrow> Inl errBreakGlassBadSignature
     | Some owner \<Rightarrow>
         if \<not> isOwner bg owner then Inl errBreakGlassBadSignature
         else if owner \<in> set seen then Inl errBreakGlassBadSignature
         else Inr (owner # seen))"

definition verifyBreakGlass ::
  "crypto \<Rightarrow> BreakGlassConfig option \<Rightarrow> u64 \<Rightarrow> hash \<Rightarrow> address list \<Rightarrow> bytes list \<Rightarrow> clique_error option" where
  "verifyBreakGlass cr bgo number parentHash signers signatures =
    (case bgo of None \<Rightarrow> Some errBreakGlassDisabled
     | Some bg \<Rightarrow>
       if length (Owners bg) = 0 \<or> Threshold bg \<le> 0 then Some errBreakGlassDisabled
       else if length signers = 0 then Some errBreakGlassSignerList
       else if list_ex (\<lambda>i. signers ! i = 0 \<or>
                 0 < i \<and> \<not> bytes_less (address_bytes (signers ! (i - 1))) (address_bytes (signers ! i)))
                 [0..<length signers]
         then Some errBreakGlassSignerList
       else if length signatures = 0 \<or> length (Owners bg) < length signatures
         then Some errBreakGlassBadSignature
       else
         (let digest = breakGlassDigest cr (bgChainID bg) number parentHash signers in
          case run_res (check_owner_sig cr bg digest) [] signatures of
            Inl e \<Rightarrow> Some e
          | Inr seen \<Rightarrow>
              if int (length seen) < Threshold bg then Some errBreakGlassThreshold else None))"

text \<open>\<open>Inr None\<close>: no override; \<open>Inr (Some l)\<close>: a verified override list.\<close>

definition breakGlassOverrideOf ::
  "crypto \<Rightarrow> BreakGlassConfig option \<Rightarrow> Header \<Rightarrow> clique_error + address list option" where
  "breakGlassOverrideOf cr bg header =
    (if \<not> isBreakGlassExtra (Extra header) then Inr None
     else (case parseCheckpointExtra (Extra header) of Inl e \<Rightarrow> Inl e
           | Inr (signers, sigs, _) \<Rightarrow>
               (case verifyBreakGlass cr bg (word_of_int (the (Number header))) (ParentHash header) signers sigs of
                  Some e \<Rightarrow> Inl e
                | None \<Rightarrow> Inr (Some signers))))"

definition containsAddress :: "address list \<Rightarrow> address \<Rightarrow> bool" where
  "containsAddress l addr = list_ex (\<lambda>a. a = addr) l"

text \<open>The loop counts the entries before the first occurrence of the signer.\<close>

definition inturnAmong :: "address list \<Rightarrow> u64 \<Rightarrow> address \<Rightarrow> bool" where
  "inturnAmong signers number signer =
    (let offset = length (takeWhile (\<lambda>a. a \<noteq> signer) signers) in
     number mod word_of_nat (length signers) = word_of_nat offset)"

definition calcDifficultyAmong :: "address list \<Rightarrow> u64 \<Rightarrow> address \<Rightarrow> int" where
  "calcDifficultyAmong signers number signer =
    (if inturnAmong signers number signer then diffInTurn else diffNoTurn)"

definition verifyBreakGlassSeal :: "crypto \<Rightarrow> bool \<Rightarrow> Header \<Rightarrow> address list \<Rightarrow> clique_error option" where
  "verifyBreakGlassSeal cr fakeDiff header override =
    (case ecrecover cr header of Inl e \<Rightarrow> Some e
     | Inr signer \<Rightarrow>
       if \<not> containsAddress override signer then Some errBreakGlassUnauthorizedSealer
       else if \<not> fakeDiff then
         (let inturn = inturnAmong override (word_of_int (the (Number header))) signer in
          if inturn \<and> the (Difficulty header) \<noteq> diffInTurn then Some errWrongDifficulty
          else if \<not> inturn \<and> the (Difficulty header) \<noteq> diffNoTurn then Some errWrongDifficulty
          else None)
       else None)"

section \<open>Payload codec\<close>

lemma payload_lengths [simp]:
  "length breakGlassMagic = 8" "breakGlassTrailerLen = 9" "breakGlassMinPayload = 29"
  "breakGlassMagicLen = 8"
  by (simp_all add: breakGlassMagic_def breakGlassTrailerLen_def breakGlassMinPayload_def
      breakGlassCountLen_def breakGlassMagicLen_def)

lemma length_signatures: "\<forall>s \<in> set sigs. length s = 65 \<Longrightarrow> length (concat sigs) = length sigs * 65"
  for sigs :: "bytes list"
  using sig65.length_concat [of sigs] by simp

lemma length_payload:
  assumes "\<forall>s \<in> set sigs. length s = 65"
  shows "length (encodeBreakGlassPayload ss sigs) = 20 * length ss + 65 * length sigs + 9"
  using addr.length_concat [of ss] length_signatures [OF assms] by (simp add: encodeBreakGlassPayload_def)

lemma payload_not_addresses: "(20 * k + 65 * m + 9) mod 20 \<noteq> (0 :: nat)"
  by presburger

lemma slice_extra:
  assumes "length v = extraVanity" and "length seal = extraSeal"
  shows "slice (v @ p @ seal) extraVanity (length (v @ p @ seal) - extraSeal) = p"
  using assms by (intro slice_append_mid) simp_all

lemma break_glass_payload_roundtrip:
  assumes "length v = extraVanity" and "length seal = extraSeal"
    and "ss \<noteq> []" and "\<forall>s \<in> set sigs. length s = 65" and "1 \<le> length sigs" and "length sigs \<le> 255"
  shows "parseCheckpointExtra (v @ encodeBreakGlassPayload ss sigs @ seal) = Inr (ss, sigs, True) \<and>
    isBreakGlassExtra (v @ encodeBreakGlassPayload ss sigs @ seal)"
proof -
  let ?p = "encodeBreakGlassPayload ss sigs" and ?k = "length ss" and ?m = "length sigs"
  let ?a = "concat (map address_bytes ss)" and ?t = "word_of_nat ?m # breakGlassMagic"
  have p: "?p = ?a @ concat sigs @ ?t" by (simp add: encodeBreakGlassPayload_def)
  have la: "length ?a = ?k * 20" using addr.length_concat [of ss] by simp
  have ls: "length (concat sigs) = ?m * 65" using assms(4) by (rule length_signatures)
  have lp: "length ?p = 20 * ?k + 65 * ?m + 9" by (rule length_payload [OF assms(4)])
  have nd: "length ?p mod 20 \<noteq> 0" unfolding lp by (rule payload_not_addresses)
  have k: "1 \<le> ?k" using assms(3) by (cases ss) auto
  have magic: "drop (length ?p - 8) ?p = breakGlassMagic" unfolding p using la ls by simp
  have cnt: "unat (?p ! (length ?p - 9)) = ?m"
  proof -
    have "?p ! (length ?p - 9) = word_of_nat ?m" unfolding p using la ls by (simp add: nth_append)
    then show ?thesis using assms(6) by (simp add: unat_of_nat)
  qed
  have sb: "int (length ?p) - 9 - int (?m * 65) = int (20 * ?k)" unfolding lp by simp
  have signers: "map (\<lambda>i. bytes_address (take 20 (drop (i * 20) ?p))) [0..<?k] = ss"
    unfolding p by (rule addr.read_all) simp
  have sigs: "map (\<lambda>i. slice ?p (20 * ?k + i * 65) (20 * ?k + i * 65 + 65)) [0..<?m] = sigs"
  proof -
    have "drop (20 * ?k + i * 65) ?p = drop (i * 65) (concat sigs @ ?t)" for i
      unfolding p using la by (simp add: add.commute drop_drop [symmetric] mult.commute del: drop_drop)
    then show ?thesis using sig65.read_all [of sigs ?t] assms(4) by (simp add: slice_def)
  qed
  note sl = slice_extra [OF assms(1,2), of ?p]
  have len: "length (v @ ?p @ seal) = 97 + length ?p"
    using assms(1,2) by (simp add: extraVanity_def extraSeal_def)
  have ge: "29 \<le> length ?p" unfolding lp using k by simp
  have "parseCheckpointExtra (v @ ?p @ seal) = Inr (ss, sigs, True)"
    unfolding parseCheckpointExtra_def sl Let_def payload_lengths magic cnt
    using nd ge sb k assms(3,5) len signers sigs by (auto simp: extraVanity_def extraSeal_def nat_mult_distrib)
  moreover have "isBreakGlassExtra (v @ ?p @ seal)"
    unfolding isBreakGlassExtra_def sl Let_def payload_lengths magic
    using nd ge len by (simp add: extraVanity_def extraSeal_def)
  ultimately show ?thesis ..
qed

text \<open>
  C33. An override block round-trips: parsing extra-data built from a non-empty signer list and
  1 to 255 signatures of 65 bytes returns exactly that list and those signatures, and the
  block is recognised as an override.
\<close>

theorem parse_break_glass_payload:
  assumes "length v = extraVanity" and "length seal = extraSeal"
    and "ss \<noteq> []" and "\<forall>s \<in> set sigs. length s = 65" and "1 \<le> length sigs" and "length sigs \<le> 255"
  shows "parseCheckpointExtra (v @ encodeBreakGlassPayload ss sigs @ seal) = Inr (ss, sigs, True) \<and>
    isBreakGlassExtra (v @ encodeBreakGlassPayload ss sigs @ seal)"
  using assms by (rule break_glass_payload_roundtrip)

theorem parse_break_glass_payload_witness:
  "parseCheckpointExtra (replicate 32 0 @ encodeBreakGlassPayload [1, 2] [replicate 65 3] @ replicate 65 0)
     = Inr ([1, 2], [replicate 65 3], True)"
  using parse_break_glass_payload [of "replicate 32 0" "replicate 65 0" "[1, 2]" "[replicate 65 3]"]
  by (simp add: extraVanity_def extraSeal_def)

text \<open>
  The decoding is canonical: whatever extra-data parses as an override is the encoding of
  the parsed signer list and signatures between its 32-byte vanity and 65-byte seal; so an
  override payload cannot be altered without changing what it says.
\<close>

lemma parse_break_glass_canonical:
  assumes "parseCheckpointExtra extra = Inr (ss, sigs, True)"
  shows "slice extra extraVanity (length extra - extraSeal) = encodeBreakGlassPayload ss sigs \<and>
    ss \<noteq> [] \<and> (\<forall>s \<in> set sigs. length s = 65) \<and> 1 \<le> length sigs \<and> length sigs \<le> 255"
proof -
  define p where "p = slice extra extraVanity (length extra - extraSeal)"
  define c where "c = unat (p ! (length p - 9))"
  define n where "n = nat (int (length p) - 9 - int (c * 65))"
  have ge: "9 \<le> length p" and magic: "drop (length p - 8) p = breakGlassMagic" and c0: "c \<noteq> 0"
    and n20: "20 \<le> int (length p) - 9 - int (c * 65)" and nm: "(int (length p) - 9 - int (c * 65)) mod 20 = 0"
    and ss: "ss = map (\<lambda>i. bytes_address (take 20 (drop (i * 20) p))) [0..<n div 20]"
    and sigs: "sigs = map (\<lambda>i. slice p (n + i * 65) (n + i * 65 + 65)) [0..<c]"
    using assms unfolding parseCheckpointExtra_def Let_def payload_lengths p_def [symmetric] c_def [symmetric] n_def
    by (auto split: if_splits)
  have nint: "int n = int (length p) - 9 - int (c * 65)" using n20 by (simp add: n_def)
  then have lp: "length p = n + c * 65 + 9" by linarith
  have "int n mod 20 = 0" using nm by (simp only: nint)
  then have n: "n div 20 * 20 = n" by (metis dvd_div_mult_self dvd_eq_mod_eq_0 int_dvd_int_iff of_nat_numeral)
  have n1: "1 \<le> n div 20" using n20 nint by linarith
  have c255: "c \<le> 255" using unat_u8_less [of "p ! (length p - 9)"] by (simp add: c_def)
  have slen: "\<forall>s \<in> set sigs. length s = 65" unfolding sigs using lp by (auto simp: slice_def)
  have a: "concat (map address_bytes ss) = take n p"
  proof -
    have "map address_bytes ss = map (\<lambda>i. take 20 (drop (i * 20) p)) [0..<n div 20]"
      unfolding ss map_map comp_def
    proof (rule map_cong)
      fix i assume "i \<in> set [0..<n div 20]"
      then have "i * 20 + 20 \<le> n" using n by auto
      then show "address_bytes (bytes_address (take 20 (drop (i * 20) p))) = take 20 (drop (i * 20) p)"
        using lp by (intro address_bytes_bytes) simp
    qed simp
    then show ?thesis using take_chunks [of "n div 20" 20 p] n lp by simp
  qed
  have b: "concat sigs = take (c * 65) (drop n p)"
  proof -
    have "sigs = map (\<lambda>i. take 65 (drop (i * 65) (drop n p))) [0..<c]"
      unfolding sigs by (simp add: slice_def add.commute [of n])
    then show ?thesis using take_chunks [of c 65 "drop n p"] lp by simp
  qed
  have t: "drop (n + c * 65) p = word_of_nat (length sigs) # breakGlassMagic"
  proof -
    have "drop (n + c * 65) p = p ! (n + c * 65) # drop (Suc (n + c * 65)) p"
      using lp by (intro Cons_nth_drop_Suc [symmetric]) simp
    moreover have "word_of_nat (length sigs) = p ! (n + c * 65)"
    proof -
      have "word_of_nat c = p ! (length p - 9)" by (simp add: c_def)
      moreover have "length p - 9 = n + c * 65" using lp by simp
      ultimately show ?thesis by (simp add: sigs)
    qed
    moreover have "Suc (n + c * 65) = length p - 8" using lp by simp
    ultimately show ?thesis using magic by simp
  qed
  have "p = take n p @ take (c * 65) (drop n p) @ drop (n + c * 65) p"
    by (metis add.commute append_take_drop_id drop_drop)
  then have "p = encodeBreakGlassPayload ss sigs" unfolding a [symmetric] b [symmetric] t encodeBreakGlassPayload_def by simp
  moreover have "ss \<noteq> []" using n1 by (simp add: ss)
  ultimately show ?thesis using slen c0 c255 by (simp add: p_def [symmetric] sigs)
qed

lemma parse_break_glass_canonical_example:
  "length (slice (replicate 32 0 @ encodeBreakGlassPayload [1, 2] [replicate 65 3] @ replicate 65 0) 32
     (length (replicate 32 (0 :: u8) @ encodeBreakGlassPayload [1, 2] [replicate 65 3] @ replicate 65 0) - 65)) = 114"
proof -
  let ?e = "replicate 32 0 @ encodeBreakGlassPayload [1, 2] [replicate 65 3] @ replicate 65 0"
  have "parseCheckpointExtra ?e = Inr ([1, 2], [replicate 65 3], True)"
    using break_glass_payload_roundtrip [of "replicate 32 0" "replicate 65 0" "[1, 2]" "[replicate 65 3]"]
    by (simp add: extraVanity_def extraSeal_def)
  from parse_break_glass_canonical [OF this] show ?thesis
    by (simp add: extraVanity_def extraSeal_def encodeBreakGlassPayload_def)
qed

text \<open>Plain checkpoints: the signer list round-trips and is never taken for an override.\<close>

lemma parse_plain_checkpoint:
  assumes "length v = extraVanity" and "length seal = extraSeal"
  shows "parseCheckpointExtra (v @ concat (map address_bytes ss) @ seal) = Inr (ss, [], False) \<and>
    \<not> isBreakGlassExtra (v @ concat (map address_bytes ss) @ seal)"
proof -
  let ?p = "concat (map address_bytes ss)"
  have lp: "length ?p = length ss * 20" using addr.length_concat [of ss] by simp
  have signers: "map (\<lambda>i. bytes_address (take 20 (drop (i * 20) ?p))) [0..<length ss] = ss"
    using addr.read_all [of ss "[]"] by simp
  note sl = slice_extra [OF assms, of ?p]
  have "length (v @ ?p @ seal) = 97 + length ?p" using assms by (simp add: extraVanity_def extraSeal_def)
  then show ?thesis
    unfolding parseCheckpointExtra_def isBreakGlassExtra_def sl Let_def
    using lp signers by (simp add: extraVanity_def extraSeal_def)
qed

section \<open>Owner signatures\<close>

lemma check_owner_sigs:
  "distinct seen0 \<Longrightarrow> run_res (check_owner_sig cr bg d) seen0 sigs = Inr seen \<longleftrightarrow>
   (\<exists>os. map (recover_owner cr d) sigs = map Some os \<and> set os \<subseteq> set (Owners bg) \<and>
     seen = rev os @ seen0 \<and> distinct seen)"
proof (induction sigs arbitrary: seen0)
  case Nil
  then show ?case by auto
next
  case (Cons s sigs)
  show ?case
  proof (cases "recover_owner cr d s")
    case None
    then show ?thesis by (simp add: check_owner_sig_def) (metis list.map(2) list.distinct(1) list.inject option.distinct(1) map_eq_Cons_conv)
  next
    case (Some w)
    show ?thesis
    proof (cases "isOwner bg w \<and> w \<notin> set seen0")
      case True
      then have ow: "w \<in> set (Owners bg)" by (auto simp: isOwner_def list_ex_iff)
      have "run_res (check_owner_sig cr bg d) seen0 (s # sigs) = run_res (check_owner_sig cr bg d) (w # seen0) sigs"
        using Some True by (simp add: check_owner_sig_def)
      also have "\<dots> = Inr seen \<longleftrightarrow> (\<exists>os. map (recover_owner cr d) sigs = map Some os \<and> set os \<subseteq> set (Owners bg) \<and>
          seen = rev os @ w # seen0 \<and> distinct seen)"
        using Cons True by (subst Cons.IH) auto
      also have "\<dots> \<longleftrightarrow> (\<exists>os. map (recover_owner cr d) (s # sigs) = map Some os \<and> set os \<subseteq> set (Owners bg) \<and>
          seen = rev os @ seen0 \<and> distinct seen)" (is "?L \<longleftrightarrow> ?R")
      proof
        assume ?L
        then obtain os where "map (recover_owner cr d) sigs = map Some os" "set os \<subseteq> set (Owners bg)"
          "seen = rev os @ w # seen0" "distinct seen" by blast
        then show ?R using Some ow by (intro exI [of _ "w # os"]) simp
      next
        assume ?R
        then obtain os where os: "map (recover_owner cr d) (s # sigs) = map Some os" "set os \<subseteq> set (Owners bg)"
          "seen = rev os @ seen0" "distinct seen" by blast
        then obtain os' where "os = w # os'" using Some by (cases os) auto
        then show ?L using os by (intro exI [of _ os']) simp
      qed
      finally show ?thesis .
    next
      case False
      then have "run_res (check_owner_sig cr bg d) seen0 (s # sigs) = Inl errBreakGlassBadSignature"
        using Some by (auto simp: check_owner_sig_def)
      moreover have "\<not> (\<exists>os. map (recover_owner cr d) (s # sigs) = map Some os \<and> set os \<subseteq> set (Owners bg) \<and>
          seen = rev os @ seen0 \<and> distinct seen)"
      proof
        assume "\<exists>os. map (recover_owner cr d) (s # sigs) = map Some os \<and> set os \<subseteq> set (Owners bg) \<and>
          seen = rev os @ seen0 \<and> distinct seen"
        then obtain os where os: "map (recover_owner cr d) (s # sigs) = map Some os" "set os \<subseteq> set (Owners bg)"
          "seen = rev os @ seen0" "distinct seen" by blast
        then obtain os' where "os = w # os'" using Some by (cases os) auto
        with os False show False by (auto simp: isOwner_def list_ex_iff)
      qed
      ultimately show ?thesis by simp
    qed
  qed
qed

lemma strictly_ascending_iff:
  "\<not> list_ex (\<lambda>i. ss ! i = 0 \<or> 0 < i \<and> \<not> bytes_less (address_bytes (ss ! (i - 1))) (address_bytes (ss ! i)))
      [0..<length ss] \<longleftrightarrow> 0 \<notin> set ss \<and> sorted_wrt (<) ss"
proof -
  have "(\<forall>i<length ss. ss ! i \<noteq> 0) \<longleftrightarrow> 0 \<notin> set ss" by (auto simp: in_set_conv_nth)
  then show ?thesis unfolding list_ex_iff bytes_less_address sorted_wrt_less_nth
    by (simp add: Ball_def) blast
qed

text \<open>
  C16. An override is accepted exactly when its signer list is non-empty, strictly ascending and
  free of the zero address, and its signatures recover, over the digest of this chain id, block
  number, parent hash and list, to pairwise distinct owners of the multisig, at least
  \<open>Threshold\<close> of them.
\<close>

theorem verifyBreakGlass_iff:
  "verifyBreakGlass cr (Some bg) number parentHash ss sigs = None \<longleftrightarrow>
    0 < Threshold bg \<and> ss \<noteq> [] \<and> 0 \<notin> set ss \<and> sorted_wrt (<) ss \<and>
    (\<exists>os. map (recover_owner cr (breakGlassDigest cr (bgChainID bg) number parentHash ss)) sigs = map Some os \<and>
      distinct os \<and> set os \<subseteq> set (Owners bg) \<and> Threshold bg \<le> int (length os))"
  (is "?L \<longleftrightarrow> ?R")
proof -
  let ?d = "breakGlassDigest cr (bgChainID bg) number parentHash ss"
  define bad where "bad = list_ex (\<lambda>i. ss ! i = 0 \<or>
    0 < i \<and> \<not> bytes_less (address_bytes (ss ! (i - 1))) (address_bytes (ss ! i))) [0..<length ss]"
  have bad: "\<not> bad \<longleftrightarrow> 0 \<notin> set ss \<and> sorted_wrt (<) ss"
    unfolding bad_def by (rule strictly_ascending_iff)
  have card: "length sigs \<le> length (Owners bg)"
    if "map (recover_owner cr ?d) sigs = map Some os" "distinct os" "set os \<subseteq> set (Owners bg)" for os
  proof -
    have "length os = card (set os)" using that(2) by (simp add: distinct_card)
    also have "\<dots> \<le> card (set (Owners bg))" using that(3) by (intro card_mono) auto
    also have "\<dots> \<le> length (Owners bg)" by (rule card_length)
    finally show ?thesis using map_eq_imp_length_eq [OF that(1)] by simp
  qed
  have "?L \<longleftrightarrow> Owners bg \<noteq> [] \<and> 0 < Threshold bg \<and> ss \<noteq> [] \<and> 0 \<notin> set ss \<and> sorted_wrt (<) ss \<and>
      sigs \<noteq> [] \<and> length sigs \<le> length (Owners bg) \<and>
      (\<exists>seen. run_res (check_owner_sig cr bg ?d) [] sigs = Inr seen \<and> Threshold bg \<le> int (length seen))"
    using bad unfolding verifyBreakGlass_def Let_def option.case bad_def [symmetric]
    by (auto split: sum.splits simp: not_less not_le)
  also have "\<dots> \<longleftrightarrow> ?R"
    unfolding check_owner_sigs [OF distinct.simps(1) [THEN iffD2, OF TrueI]]
    using card by (fastforce dest: map_eq_imp_length_eq)
  finally show ?thesis .
qed

section \<open>What the owners sign\<close>

lemma decimal_digits: "\<forall>b \<in> set (decimal n). unat b < 58"
proof (induction n rule: decimal.induct)
  case (1 n)
  have "unat (word_of_nat (48 + n mod 10) :: u8) < 58" by (simp add: unat_of_nat del: of_nat_add)
  moreover have "n < 10 \<Longrightarrow> unat (word_of_nat (48 + n) :: u8) < 58" by (simp add: unat_of_nat del: of_nat_add)
  ultimately show ?case using 1 by (subst decimal.simps) (auto simp del: of_nat_add)
qed

lemma breakGlassMessage_inj:
  assumes "breakGlassMessage c n p ss = breakGlassMessage c' n' p' ss'"
    and "0 \<le> c" "c < 2 ^ 256" "0 \<le> c'" "c' < 2 ^ 256"
  shows "c = c' \<and> n = n' \<and> p = p' \<and> ss = ss'"
proof -
  have pad: "length (LeftPadBytes (nat_bytes (nat \<bar>x\<bar>)) 32) = 32" if "0 \<le> x" "x < 2 ^ 256" for x :: int
  proof -
    have "nat x < 256 ^ 32" using that by (simp add: nat_less_iff)
    then have "length (nat_bytes (nat \<bar>x\<bar>)) \<le> 32" using that by (intro length_nat_bytes_le) simp
    then show ?thesis by (simp add: length_LeftPadBytes)
  qed
  from assms(1) have eq: "LeftPadBytes (nat_bytes (nat \<bar>c\<bar>)) 32 @ u64_bytes n @ hash_bytes p @ concat (map address_bytes ss)
      = LeftPadBytes (nat_bytes (nat \<bar>c'\<bar>)) 32 @ u64_bytes n' @ hash_bytes p' @ concat (map address_bytes ss')"
    by (simp add: breakGlassMessage_def)
  then have "LeftPadBytes (nat_bytes (nat \<bar>c\<bar>)) 32 = LeftPadBytes (nat_bytes (nat \<bar>c'\<bar>)) 32"
    and rest: "u64_bytes n @ hash_bytes p @ concat (map address_bytes ss)
      = u64_bytes n' @ hash_bytes p' @ concat (map address_bytes ss')"
    using pad assms by (simp_all add: append_eq_append_conv)
  then have "nat \<bar>c\<bar> = nat \<bar>c'\<bar>" by (metis be_nat_LeftPadBytes be_nat_nat_bytes)
  then have "c = c'" using assms by simp
  moreover from rest have "n = n'" and rest2: "hash_bytes p @ concat (map address_bytes ss)
      = hash_bytes p' @ concat (map address_bytes ss')" by (simp_all add: append_eq_append_conv)
  moreover from rest2 have "p = p'" and l: "concat (map address_bytes ss) = concat (map address_bytes ss')"
    by (simp_all add: append_eq_append_conv)
  moreover have "ss = ss'"
  proof -
    have "length ss = length ss'" using addr.length_concat [of ss] addr.length_concat [of ss'] l by simp
    then show ?thesis using addr.read_all [of ss "[]"] addr.read_all [of ss' "[]"] l by simp
  qed
  ultimately show ?thesis by simp
qed

lemma message_digits_stop:
  "takeWhile (\<lambda>b. unat b < 58) (decimal k @ breakGlassMessage c n p ss) = decimal k"
  using decimal_digits [of k]
  by (intro takeWhile_stop; simp add: breakGlassMessage_def breakGlassPrefix_def)

lemma keccak_TextAndHash: "fst (TextAndHash cr m) = keccak256 cr (snd (TextAndHash cr m))"
  by (simp add: TextAndHash_def Let_def)

text \<open>
  C25. The digest the owners sign binds the exact slot: equal digests mean the same chain id, the
  same block number, the same parent hash and the same signer list, unless the hash function
  collides.
\<close>

theorem breakGlassDigest_binds:
  assumes "breakGlassDigest cr c n p ss = breakGlassDigest cr c' n' p' ss'"
    and "0 \<le> c" "c < 2 ^ 256" "0 \<le> c'" "c' < 2 ^ 256"
  shows "(c = c' \<and> n = n' \<and> p = p' \<and> ss = ss') \<or>
    (\<exists>a b. a = snd (TextAndHash cr (breakGlassMessage c n p ss)) \<and>
      b = snd (TextAndHash cr (breakGlassMessage c' n' p' ss')) \<and> a \<noteq> b \<and> keccak256 cr a = keccak256 cr b)"
proof -
  define m m' where m: "m = breakGlassMessage c n p ss" "m' = breakGlassMessage c' n' p' ss'"
  have k: "keccak256 cr (snd (TextAndHash cr m)) = keccak256 cr (snd (TextAndHash cr m'))"
    using assms(1) by (simp only: breakGlassDigest_def TextHash_def keccak_TextAndHash m)
  show ?thesis
  proof (cases "snd (TextAndHash cr m) = snd (TextAndHash cr m')")
    case True
    then have eq: "decimal (length m) @ m = decimal (length m') @ m'" by (simp add: TextAndHash_def Let_def)
    have "decimal (length m) = decimal (length m')"
      using arg_cong [OF eq, of "takeWhile (\<lambda>b. unat b < 58)"] unfolding m message_digits_stop .
    then have "m = m'" using eq by simp
    then show ?thesis unfolding m by (intro disjI1 breakGlassMessage_inj [OF _ assms(2-5)])
  next
    case False
    with k show ?thesis unfolding m by simp
  qed
qed

theorem breakGlassDigest_binds_witness:
  "snd (TextAndHash \<lparr>keccak256 = (\<lambda>_. 0), Ecrecover = (\<lambda>_ _. None)\<rparr> (breakGlassMessage 3961 1 0 [5])) \<noteq>
   snd (TextAndHash \<lparr>keccak256 = (\<lambda>_. 0), Ecrecover = (\<lambda>_ _. None)\<rparr> (breakGlassMessage 3961 2 0 [5]))"
  using breakGlassDigest_binds [of "\<lparr>keccak256 = (\<lambda>_. 0), Ecrecover = (\<lambda>_ _. None)\<rparr>" 3961 1 0 "[5]" 3961 2 0 "[5]"]
  by (auto simp: breakGlassDigest_def TextHash_def TextAndHash_def Let_def)

section \<open>Turns\<close>

lemma takeWhile_index:
  assumes "distinct xs" and "i < length xs"
  shows "length (takeWhile (\<lambda>a. a \<noteq> xs ! i) xs) = i"
  using assms
proof (induction xs arbitrary: i)
  case (Cons x xs)
  then show ?case by (cases i) auto
qed simp

lemma inturnAmong_nth:
  assumes "distinct ss" and "i < length ss" and "length ss < 2 ^ 64"
  shows "inturnAmong ss number (ss ! i) \<longleftrightarrow> unat number mod length ss = i"
proof -
  have "inturnAmong ss number (ss ! i) \<longleftrightarrow> number mod word_of_nat (length ss) = word_of_nat i"
    using takeWhile_index [OF assms(1,2)] by (simp add: inturnAmong_def)
  also have "\<dots> \<longleftrightarrow> unat (number mod word_of_nat (length ss)) = unat (word_of_nat i :: u64)"
    by (rule word_unat_eq_iff)
  also have "\<dots> \<longleftrightarrow> unat number mod length ss = i"
    using assms by (simp add: unat_mod_distrib word64_of_nat)
  finally show ?thesis .
qed

lemma inturnAmong_unique:
  assumes "distinct ss" and "ss \<noteq> []" and "length ss < 2 ^ 64"
  shows "\<exists>!a. a \<in> set ss \<and> inturnAmong ss number a"
proof
  let ?i = "unat number mod length ss"
  have i: "?i < length ss" using assms by simp
  then show "ss ! ?i \<in> set ss \<and> inturnAmong ss number (ss ! ?i)"
    using inturnAmong_nth [OF assms(1) i assms(3)] by simp
  fix a assume a: "a \<in> set ss \<and> inturnAmong ss number a"
  then obtain j where "j < length ss" "a = ss ! j" by (auto simp: in_set_conv_nth)
  with a inturnAmong_nth [OF assms(1) this(1) assms(3), of number] show "a = ss ! ?i" by simp
qed

end
