(* ===== verification/Clique_Snapshot.thy ===== *)
theory Clique_Snapshot
  imports Break_Glass
begin

text \<open>
  Signer voting (\<open>consensus/clique/snapshot.go\<close>): the snapshot of signers, recent sealers, votes
  and tallies, and its evolution over a sequence of headers.

  Maps of the source are association lists with distinct keys; the signer set is a set. The
  snapshot invariant says that the tallies are the vote counts, that every vote is cast by a
  current signer and asks for a change, and that no signer votes twice on an account. From it
  follow the two guarantees of the protocol: the signer set changes only by a strict majority
  of its members (or by a verified override), and a signer does not seal two blocks closer
  than half the signer set apart.
\<close>

section \<open>Data\<close>

record Vote =
  vSigner :: address
  vBlock :: u64
  vAddress :: address
  vAuthorize :: bool

record Tally =
  tAuthorize :: bool
  tVotes :: nat

record Snapshot =
  sConfig :: CliqueConfig
  sBreakGlass :: "BreakGlassConfig option"
  sNumber :: u64
  sHash :: hash
  Signers :: "address set"
  Recents :: "(u64 \<times> address) list"
  Votes :: "Vote list"
  Tallies :: "(address \<times> Tally) list"

definition newSnapshot ::
  "CliqueConfig \<Rightarrow> BreakGlassConfig option \<Rightarrow> u64 \<Rightarrow> hash \<Rightarrow> address list \<Rightarrow> Snapshot" where
  "newSnapshot config breakGlass number hash signers =
    \<lparr>sConfig = config, sBreakGlass = breakGlass, sNumber = number, sHash = hash,
     Signers = set signers, Recents = [], Votes = [], Tallies = []\<rparr>"

section \<open>Voting\<close>

definition validVote :: "Snapshot \<Rightarrow> address \<Rightarrow> bool \<Rightarrow> bool" where
  "validVote s address authorize =
    (let signer = (address \<in> Signers s) in (signer \<and> \<not> authorize) \<or> (\<not> signer \<and> authorize))"

definition cast_vote :: "Snapshot \<Rightarrow> address \<Rightarrow> bool \<Rightarrow> bool \<times> Snapshot" where
  "cast_vote s address authorize =
    (if \<not> validVote s address authorize then (False, s)
     else (case map_of (Tallies s) address of
             Some old \<Rightarrow> (True, s\<lparr>Tallies := map_put address (old\<lparr>tVotes := tVotes old + 1\<rparr>) (Tallies s)\<rparr>)
           | None \<Rightarrow> (True, s\<lparr>Tallies := map_put address \<lparr>tAuthorize = authorize, tVotes = 1\<rparr> (Tallies s)\<rparr>)))"

definition uncast :: "Snapshot \<Rightarrow> address \<Rightarrow> bool \<Rightarrow> bool \<times> Snapshot" where
  "uncast s address authorize =
    (case map_of (Tallies s) address of None \<Rightarrow> (False, s)
     | Some tally \<Rightarrow>
         if tAuthorize tally \<noteq> authorize then (False, s)
         else if 1 < tVotes tally
           then (True, s\<lparr>Tallies := map_put address (tally\<lparr>tVotes := tVotes tally - 1\<rparr>) (Tallies s)\<rparr>)
         else (True, s\<lparr>Tallies := map_del address (Tallies s)\<rparr>))"

definition recent_limit :: "address set \<Rightarrow> u64" where
  "recent_limit signers = word_of_nat (card signers div 2 + 1)"

definition applyBreakGlass :: "Snapshot \<Rightarrow> address list \<Rightarrow> u64 \<Rightarrow> Snapshot" where
  "applyBreakGlass s signers number =
    (let s = s\<lparr>Signers := set signers\<rparr>;
         s = s\<lparr>Votes := [], Tallies := []\<rparr>;
         limit = recent_limit (Signers s)
     in s\<lparr>Recents := filter (\<lambda>(seen, _). \<not> seen + limit \<le> number) (Recents s)\<rparr>)"

definition signers_list :: "Snapshot \<Rightarrow> address list" where
  "signers_list s = sorted_list_of_set (Signers s)"

definition inturn :: "Snapshot \<Rightarrow> u64 \<Rightarrow> address \<Rightarrow> bool" where
  "inturn s number signer =
    (let signers = signers_list s;
         offset = length (takeWhile (\<lambda>a. a \<noteq> signer) signers)
     in number mod word_of_nat (length signers) = word_of_nat offset)"

section \<open>One header\<close>

text \<open>\<open>header.Number.Uint64()\<close>.\<close>

definition number_of :: "Header \<Rightarrow> u64" where
  "number_of h = word_of_int (the (Number h))"

text \<open>Delete the oldest recent sealer so that it may sign again.\<close>

definition prune_recents :: "Snapshot \<Rightarrow> u64 \<Rightarrow> Snapshot" where
  "prune_recents s number =
    (let limit = recent_limit (Signers s) in
     if limit \<le> number then s\<lparr>Recents := map_del (number - limit) (Recents s)\<rparr> else s)"

text \<open>Discard the previous vote of the signer on the account.\<close>

definition discard_previous :: "Snapshot \<Rightarrow> address \<Rightarrow> address \<Rightarrow> Snapshot" where
  "discard_previous s signer coinbase =
    (case find (\<lambda>v. vSigner v = signer \<and> vAddress v = coinbase) (Votes s) of None \<Rightarrow> s
     | Some vote \<Rightarrow>
         (snd (uncast s (vAddress vote) (vAuthorize vote)))
           \<lparr>Votes := remove_first (\<lambda>v. vSigner v = signer \<and> vAddress v = coinbase) (Votes s)\<rparr>)"

text \<open>Discard every vote the deauthorized signer cast.\<close>

definition discard_votes_of :: "Snapshot \<Rightarrow> address \<Rightarrow> Snapshot" where
  "discard_votes_of s a =
    (foldl (\<lambda>s v. snd (uncast s (vAddress v) (vAuthorize v))) s (filter (\<lambda>v. vSigner v = a) (Votes s)))
      \<lparr>Votes := filter (\<lambda>v. vSigner v \<noteq> a) (Votes s)\<rparr>"

definition vote_passed :: "Snapshot \<Rightarrow> address \<Rightarrow> bool" where
  "vote_passed s coinbase =
    (case map_of (Tallies s) coinbase of None \<Rightarrow> False
     | Some tally \<Rightarrow> card (Signers s) div 2 < tVotes tally)"

definition settle_vote :: "Snapshot \<Rightarrow> address \<Rightarrow> u64 \<Rightarrow> Snapshot" where
  "settle_vote s coinbase number =
    (if vote_passed s coinbase then
       (let s = (if tAuthorize (the (map_of (Tallies s) coinbase))
                 then s\<lparr>Signers := insert coinbase (Signers s)\<rparr>
                 else (let s = s\<lparr>Signers := Signers s - {coinbase}\<rparr>;
                           s = prune_recents s number
                       in discard_votes_of s coinbase));
            s = s\<lparr>Votes := filter (\<lambda>v. vAddress v \<noteq> coinbase) (Votes s)\<rparr>
        in s\<lparr>Tallies := map_del coinbase (Tallies s)\<rparr>)
     else s)"

definition vote_of_nonce :: "u64 \<Rightarrow> bool option" where
  "vote_of_nonce nonce =
    (if nonce = nonceAuthVote then Some True else if nonce = nonceDropVote then Some False else None)"

definition apply_header :: "crypto \<Rightarrow> Snapshot \<Rightarrow> Header \<Rightarrow> clique_error + Snapshot" where
  "apply_header cr snap header =
    (let number = number_of header;
         snap = (if number mod Epoch (sConfig snap) = 0 then snap\<lparr>Votes := [], Tallies := []\<rparr> else snap)
     in case breakGlassOverrideOf cr (sBreakGlass snap) header of Inl e \<Rightarrow> Inl e
     | Inr override \<Rightarrow>
       (let snap = (case override of None \<Rightarrow> snap | Some l \<Rightarrow> applyBreakGlass snap l number);
            snap = prune_recents snap number
        in case ecrecover cr header of Inl e \<Rightarrow> Inl e
        | Inr signer \<Rightarrow>
          if signer \<notin> Signers snap then Inl errUnauthorizedSigner
          else if override = None \<and> signer \<in> snd ` set (Recents snap) then Inl errRecentlySigned
          else
            (let snap = snap\<lparr>Recents := map_put number signer (Recents snap)\<rparr>;
                 snap = discard_previous snap signer (Coinbase header)
             in case vote_of_nonce (Nonce header) of None \<Rightarrow> Inl errInvalidVote
             | Some authorize \<Rightarrow>
               (let (counted, snap) = cast_vote snap (Coinbase header) authorize;
                    snap = (if counted
                            then snap\<lparr>Votes := Votes snap @
                                   [\<lparr>vSigner = signer, vBlock = number, vAddress = Coinbase header,
                                     vAuthorize = authorize\<rparr>]\<rparr>
                            else snap)
                in Inr (settle_vote snap (Coinbase header) number)))))"

section \<open>A sequence of headers\<close>

definition contiguous :: "Header list \<Rightarrow> bool" where
  "contiguous headers =
    list_all (\<lambda>i. number_of (headers ! (i + 1)) = number_of (headers ! i) + 1) [0..<length headers - 1]"

definition apply_headers :: "crypto \<Rightarrow> Snapshot \<Rightarrow> Header list \<Rightarrow> clique_error + Snapshot" where
  "apply_headers cr s headers =
    (if headers = [] then Inr s
     else if \<not> contiguous headers then Inl errInvalidVotingChain
     else if number_of (headers ! 0) \<noteq> sNumber s + 1 then Inl errInvalidVotingChain
     else (case run_res (apply_header cr) s headers of Inl e \<Rightarrow> Inl e
           | Inr snap \<Rightarrow>
               Inr (snap\<lparr>sNumber := sNumber snap + word_of_nat (length headers),
                         sHash := Hash cr (last headers)\<rparr>)))"

section \<open>The snapshot invariant\<close>

definition cnt :: "Vote list \<Rightarrow> address \<Rightarrow> nat" where
  "cnt vs a = length (filter (\<lambda>v. vAddress v = a) vs)"

text \<open>\<open>tally_is S c T\<close>: the tallies \<open>T\<close> are the counts \<open>c\<close> of votes against the signer set \<open>S\<close>.\<close>

definition tally_is :: "address set \<Rightarrow> (address \<Rightarrow> nat) \<Rightarrow> (address \<times> Tally) list \<Rightarrow> bool" where
  "tally_is S c T \<longleftrightarrow>
    (\<forall>a. map_of T a = (if c a = 0 then None else Some \<lparr>tAuthorize = (a \<notin> S), tVotes = c a\<rparr>))"

definition votes_ok :: "address set \<Rightarrow> Vote list \<Rightarrow> bool" where
  "votes_ok S vs \<longleftrightarrow> (\<forall>v \<in> set vs. vSigner v \<in> S \<and> vAuthorize v = (vAddress v \<notin> S)) \<and>
     distinct (map (\<lambda>v. (vSigner v, vAddress v)) vs)"

definition snap_ok :: "Snapshot \<Rightarrow> bool" where
  "snap_ok s \<longleftrightarrow> votes_ok (Signers s) (Votes s) \<and> tally_is (Signers s) (cnt (Votes s)) (Tallies s) \<and>
     distinct (map fst (Recents s))"

lemma cnt_simps [simp]:
  "cnt [] a = 0" "cnt (v # vs) a = (if vAddress v = a then 1 else 0) + cnt vs a"
  "cnt (us @ vs) a = cnt us a + cnt vs a"
  by (simp_all add: cnt_def)

lemma cnt_filter_split: "cnt (filter P vs) a + cnt (filter (\<lambda>v. \<not> P v) vs) a = cnt vs a"
  by (induction vs) auto

lemma votes_ok_filter: "votes_ok S vs \<Longrightarrow> votes_ok S (filter P vs)"
  by (auto simp: votes_ok_def distinct_map inj_on_def)

lemma uncast_unchanged [simp]:
  "Signers (snd (uncast s a b)) = Signers s" "Recents (snd (uncast s a b)) = Recents s"
  "Votes (snd (uncast s a b)) = Votes s" "sConfig (snd (uncast s a b)) = sConfig s"
  "sBreakGlass (snd (uncast s a b)) = sBreakGlass s" "sNumber (snd (uncast s a b)) = sNumber s"
  "sHash (snd (uncast s a b)) = sHash s"
  by (simp_all add: uncast_def split: option.splits)

lemma uncast_tally:
  assumes "tally_is S c (Tallies s)" and "0 < c a"
  shows "tally_is S (c(a := c a - 1)) (Tallies (snd (uncast s a (a \<notin> S))))"
proof -
  have m: "map_of (Tallies s) a = Some \<lparr>tAuthorize = (a \<notin> S), tVotes = c a\<rparr>"
    using assms by (simp add: tally_is_def)
  show ?thesis using assms by (auto simp: uncast_def m tally_is_def)
qed

lemma fold_uncast_unchanged [simp]:
  "Signers (foldl (\<lambda>s v. snd (uncast s (f v) (g v))) s vs) = Signers s"
  "Recents (foldl (\<lambda>s v. snd (uncast s (f v) (g v))) s vs) = Recents s"
  "Votes (foldl (\<lambda>s v. snd (uncast s (f v) (g v))) s vs) = Votes s"
  "sConfig (foldl (\<lambda>s v. snd (uncast s (f v) (g v))) s vs) = sConfig s"
  "sBreakGlass (foldl (\<lambda>s v. snd (uncast s (f v) (g v))) s vs) = sBreakGlass s"
  "sNumber (foldl (\<lambda>s v. snd (uncast s (f v) (g v))) s vs) = sNumber s"
  by (induction vs arbitrary: s) simp_all

lemma fold_uncast_tally:
  assumes "tally_is S c (Tallies s)" and "\<forall>v \<in> set vs. vAuthorize v = (vAddress v \<notin> S)" and "\<forall>a. cnt vs a \<le> c a"
  shows "tally_is S (\<lambda>a. c a - cnt vs a) (Tallies (foldl (\<lambda>s v. snd (uncast s (vAddress v) (vAuthorize v))) s vs))"
  using assms
proof (induction vs arbitrary: s c)
  case (Cons v vs)
  let ?a = "vAddress v"
  have "0 < c ?a" using Cons.prems(3) by (auto dest: spec [of _ ?a])
  then have t: "tally_is S (c(?a := c ?a - 1)) (Tallies (snd (uncast s ?a (vAuthorize v))))"
    using uncast_tally [OF Cons.prems(1)] Cons.prems(2) by simp
  have le: "\<forall>a. cnt vs a \<le> (c(?a := c ?a - 1)) a"
  proof
    fix a
    show "cnt vs a \<le> (c(?a := c ?a - 1)) a" using spec [OF Cons.prems(3), of a] by (auto split: if_splits)
  qed
  have "(\<lambda>a. (c(?a := c ?a - 1)) a - cnt vs a) = (\<lambda>a. c a - cnt (v # vs) a)" by auto
  with Cons.IH [OF t _ le] Cons.prems(2) show ?case by simp
qed simp

lemma newSnapshot_ok: "snap_ok (newSnapshot cfg bg n h ss)"
  by (simp add: snap_ok_def newSnapshot_def votes_ok_def tally_is_def)

lemma reset_ok: "snap_ok s \<Longrightarrow> snap_ok (s\<lparr>Votes := [], Tallies := []\<rparr>)"
  by (simp add: snap_ok_def votes_ok_def tally_is_def)

lemma applyBreakGlass_ok: "snap_ok s \<Longrightarrow> snap_ok (applyBreakGlass s l n)"
  by (simp add: snap_ok_def applyBreakGlass_def votes_ok_def tally_is_def Let_def distinct_fst_filter)

lemma prune_recents_simps [simp]:
  "Signers (prune_recents s n) = Signers s" "Votes (prune_recents s n) = Votes s"
  "Tallies (prune_recents s n) = Tallies s" "sConfig (prune_recents s n) = sConfig s"
  "sBreakGlass (prune_recents s n) = sBreakGlass s" "sNumber (prune_recents s n) = sNumber s"
  by (simp_all add: prune_recents_def Let_def)

lemma prune_recents_ok: "snap_ok s \<Longrightarrow> snap_ok (prune_recents s n)"
  by (simp add: snap_ok_def) (simp add: prune_recents_def Let_def)

lemma seal_ok: "snap_ok s \<Longrightarrow> snap_ok (s\<lparr>Recents := map_put n a (Recents s)\<rparr>)"
  by (simp add: snap_ok_def)

lemma discard_previous_simps [simp]:
  "Signers (discard_previous s a c) = Signers s" "Recents (discard_previous s a c) = Recents s"
  "sConfig (discard_previous s a c) = sConfig s" "sBreakGlass (discard_previous s a c) = sBreakGlass s"
  "sNumber (discard_previous s a c) = sNumber s"
  by (simp_all add: discard_previous_def split: option.splits)

lemma discard_previous_votes: "set (Votes (discard_previous s a c)) \<subseteq> set (Votes s)"
  using set_remove_first by (fastforce simp: discard_previous_def split: option.splits)

lemma discard_previous_ok:
  assumes "snap_ok s"
  shows "snap_ok (discard_previous s a c) \<and> (a, c) \<notin> (\<lambda>v. (vSigner v, vAddress v)) ` set (Votes (discard_previous s a c))"
proof (cases "find (\<lambda>v. vSigner v = a \<and> vAddress v = c) (Votes s)")
  case None
  then have "discard_previous s a c = s" by (simp add: discard_previous_def)
  moreover have "\<forall>v \<in> set (Votes s). \<not> (vSigner v = a \<and> vAddress v = c)" using None by (auto simp: find_None_iff)
  ultimately show ?thesis using assms by auto
next
  case (Some v)
  then obtain ys zs where v: "Votes s = ys @ v # zs" "vSigner v = a" "vAddress v = c"
    "remove_first (\<lambda>v. vSigner v = a \<and> vAddress v = c) (Votes s) = ys @ zs"
    using find_Some_split [OF Some] by blast
  have ok: "votes_ok (Signers s) (ys @ v # zs)" "tally_is (Signers s) (cnt (ys @ v # zs)) (Tallies s)"
    using assms v by (simp_all add: snap_ok_def)
  then have auth: "vAuthorize v = (c \<notin> Signers s)" using v by (simp add: votes_ok_def)
  have "tally_is (Signers s) ((cnt (ys @ v # zs))(c := cnt (ys @ v # zs) c - 1)) (Tallies (snd (uncast s c (vAuthorize v))))"
    unfolding auth using ok v by (intro uncast_tally) simp_all
  moreover have "(cnt (ys @ v # zs))(c := cnt (ys @ v # zs) c - 1) = cnt (ys @ zs)" using v by auto
  moreover have "votes_ok (Signers s) (ys @ zs)" using ok by (auto simp: votes_ok_def)
  ultimately have "snap_ok (discard_previous s a c)"
    using assms Some v by (simp add: discard_previous_def snap_ok_def)
  moreover have "(a, c) \<notin> (\<lambda>v. (vSigner v, vAddress v)) ` set (ys @ zs)"
    using ok v by (force simp: votes_ok_def)
  ultimately show ?thesis using Some v by (simp add: discard_previous_def)
qed

lemma cast_vote_simps [simp]:
  "Signers (snd (cast_vote s c b)) = Signers s" "Recents (snd (cast_vote s c b)) = Recents s"
  "Votes (snd (cast_vote s c b)) = Votes s" "sConfig (snd (cast_vote s c b)) = sConfig s"
  "sBreakGlass (snd (cast_vote s c b)) = sBreakGlass s" "sNumber (snd (cast_vote s c b)) = sNumber s"
  by (simp_all add: cast_vote_def split: option.splits)

lemma cast_vote_fst: "fst (cast_vote s c b) \<longleftrightarrow> b = (c \<notin> Signers s)"
  by (auto simp: cast_vote_def validVote_def Let_def split: option.splits)

definition count_vote :: "Snapshot \<Rightarrow> address \<Rightarrow> address \<Rightarrow> bool \<Rightarrow> u64 \<Rightarrow> Snapshot" where
  "count_vote s signer c b n =
    (let (counted, s) = cast_vote s c b in
     if counted then s\<lparr>Votes := Votes s @ [\<lparr>vSigner = signer, vBlock = n, vAddress = c, vAuthorize = b\<rparr>]\<rparr> else s)"

lemma count_vote_simps [simp]:
  "Signers (count_vote s a c b n) = Signers s" "Recents (count_vote s a c b n) = Recents s"
  "sConfig (count_vote s a c b n) = sConfig s" "sBreakGlass (count_vote s a c b n) = sBreakGlass s"
  "sNumber (count_vote s a c b n) = sNumber s"
  by (simp_all add: count_vote_def split_beta Let_def)

lemma count_vote_ok:
  assumes "snap_ok s" and "a \<in> Signers s" and "(a, c) \<notin> (\<lambda>v. (vSigner v, vAddress v)) ` set (Votes s)"
  shows "snap_ok (count_vote s a c b n)"
proof (cases "b = (c \<notin> Signers s)")
  case True
  have "tally_is (Signers s) ((cnt (Votes s))(c := cnt (Votes s) c + 1)) (Tallies (snd (cast_vote s c b)))"
    using assms(1) True by (auto simp: snap_ok_def cast_vote_def validVote_def tally_is_def Let_def)
  moreover have "(cnt (Votes s))(c := cnt (Votes s) c + 1)
      = cnt (Votes s @ [\<lparr>vSigner = a, vBlock = n, vAddress = c, vAuthorize = b\<rparr>])" by auto
  ultimately show ?thesis
    using assms True cast_vote_fst [of s c b] by (auto simp: count_vote_def snap_ok_def votes_ok_def split_beta Let_def)
next
  case False
  then have "cast_vote s c b = (False, s)" by (auto simp: cast_vote_def validVote_def Let_def)
  then show ?thesis using assms(1) by (simp add: count_vote_def)
qed

lemma tally_passed:
  assumes "snap_ok s" and "vote_passed s c"
  shows "map_of (Tallies s) c = Some \<lparr>tAuthorize = (c \<notin> Signers s), tVotes = cnt (Votes s) c\<rparr>"
    and "card (Signers s) div 2 < cnt (Votes s) c"
  using assms by (auto simp: snap_ok_def tally_is_def vote_passed_def split: if_splits option.splits)

lemma discard_votes_of_simps [simp]:
  "Signers (discard_votes_of s a) = Signers s" "Recents (discard_votes_of s a) = Recents s"
  "Votes (discard_votes_of s a) = filter (\<lambda>v. vSigner v \<noteq> a) (Votes s)"
  "sConfig (discard_votes_of s a) = sConfig s" "sBreakGlass (discard_votes_of s a) = sBreakGlass s"
  "sNumber (discard_votes_of s a) = sNumber s"
  by (simp_all add: discard_votes_of_def)

lemma discard_votes_of_tally:
  assumes "tally_is S (cnt (Votes s)) (Tallies s)" and "\<forall>v \<in> set (Votes s). vAuthorize v = (vAddress v \<notin> S)"
  shows "tally_is S (cnt (filter (\<lambda>v. vSigner v \<noteq> a) (Votes s))) (Tallies (discard_votes_of s a))"
proof -
  let ?mine = "filter (\<lambda>v. vSigner v = a) (Votes s)"
  have split: "cnt ?mine x + cnt (filter (\<lambda>v. vSigner v \<noteq> a) (Votes s)) x = cnt (Votes s) x" for x
    by (rule cnt_filter_split)
  have le: "cnt ?mine x \<le> cnt (Votes s) x" for x using split [of x] by linarith
  have "tally_is S (\<lambda>x. cnt (Votes s) x - cnt ?mine x)
      (Tallies (foldl (\<lambda>s v. snd (uncast s (vAddress v) (vAuthorize v))) s ?mine))"
    by (rule fold_uncast_tally [OF assms(1)]) (use assms(2) le in simp_all)
  moreover have "(\<lambda>x. cnt (Votes s) x - cnt ?mine x) = cnt (filter (\<lambda>v. vSigner v \<noteq> a) (Votes s))"
  proof
    fix x
    show "cnt (Votes s) x - cnt ?mine x = cnt (filter (\<lambda>v. vSigner v \<noteq> a) (Votes s)) x" using split [of x] by linarith
  qed
  ultimately show ?thesis by (simp add: discard_votes_of_def)
qed

lemma cnt_filter_address: "cnt (filter (\<lambda>v. vAddress v \<noteq> c) vs) a = (if a = c then 0 else cnt vs a)"
  by (induction vs) auto

lemma drop_account_ok:
  assumes "tally_is S (cnt vs) T" and "votes_ok S vs" and "\<forall>v \<in> set vs. vSigner v \<in> S'"
    and "\<forall>a. a \<noteq> c \<longrightarrow> (a \<in> S' \<longleftrightarrow> a \<in> S)"
  shows "tally_is S' (cnt (filter (\<lambda>v. vAddress v \<noteq> c) vs)) (map_del c T) \<and>
    votes_ok S' (filter (\<lambda>v. vAddress v \<noteq> c) vs)"
proof -
  have "votes_ok S (filter (\<lambda>v. vAddress v \<noteq> c) vs)" using assms(2) by (rule votes_ok_filter)
  then show ?thesis using assms by (auto simp: tally_is_def votes_ok_def cnt_filter_address)
qed

lemma settle_vote_signers:
  "Signers (settle_vote s c n) =
    (if vote_passed s c
     then (if tAuthorize (the (map_of (Tallies s) c)) then insert c (Signers s) else Signers s - {c})
     else Signers s)"
  by (simp add: settle_vote_def Let_def)

lemma settle_vote_ok:
  assumes "snap_ok s"
  shows "snap_ok (settle_vote s c n)"
proof (cases "vote_passed s c")
  case True
  have v: "votes_ok (Signers s) (Votes s)" "tally_is (Signers s) (cnt (Votes s)) (Tallies s)" "distinct (map fst (Recents s))"
    using assms by (simp_all add: snap_ok_def)
  show ?thesis
  proof (cases "c \<in> Signers s")
    case False
    then have "settle_vote s c n = s\<lparr>Signers := insert c (Signers s),
        Votes := filter (\<lambda>v. vAddress v \<noteq> c) (Votes s), Tallies := map_del c (Tallies s)\<rparr>"
      using True tally_passed(1) [OF assms True] by (simp add: settle_vote_def Let_def)
    then show ?thesis
      using drop_account_ok [OF v(2,1), of "insert c (Signers s)" c] v by (auto simp: snap_ok_def votes_ok_def)
  next
    case c: True
    let ?s1 = "prune_recents (s\<lparr>Signers := Signers s - {c}\<rparr>) n"
    let ?vs = "filter (\<lambda>v. vSigner v \<noteq> c) (Votes s)"
    have t: "tally_is (Signers s) (cnt ?vs) (Tallies (discard_votes_of ?s1 c))"
      using discard_votes_of_tally [of "Signers s" ?s1 c] v by (auto simp: votes_ok_def)
    have vs: "votes_ok (Signers s) ?vs" by (rule votes_ok_filter [OF v(1)])
    then have vs2: "\<forall>v \<in> set ?vs. vSigner v \<in> Signers s - {c}" by (auto simp: votes_ok_def)
    have "settle_vote s c n = (discard_votes_of ?s1 c)\<lparr>Votes := filter (\<lambda>v. vAddress v \<noteq> c) ?vs,
        Tallies := map_del c (Tallies (discard_votes_of ?s1 c))\<rparr>"
      using True c tally_passed(1) [OF assms True] by (simp add: settle_vote_def Let_def)
    moreover have "distinct (map fst (Recents ?s1))"
      using v(3) by (simp add: prune_recents_def Let_def)
    ultimately show ?thesis
      using drop_account_ok [OF t vs vs2, of c] by (simp add: snap_ok_def)
  qed
qed (use assms in \<open>simp add: settle_vote_def\<close>)

text \<open>\<open>apply_header\<close> by stages: what it does to the snapshot before and after the seal check.\<close>

definition before_seal :: "Snapshot \<Rightarrow> address list option \<Rightarrow> Header \<Rightarrow> Snapshot" where
  "before_seal snap override header =
    (let number = number_of header;
         snap = (if number mod Epoch (sConfig snap) = 0 then snap\<lparr>Votes := [], Tallies := []\<rparr> else snap);
         snap = (case override of None \<Rightarrow> snap | Some l \<Rightarrow> applyBreakGlass snap l number)
     in prune_recents snap number)"

definition after_seal :: "Snapshot \<Rightarrow> address \<Rightarrow> bool \<Rightarrow> Header \<Rightarrow> Snapshot" where
  "after_seal snap signer authorize header =
    (let number = number_of header;
         snap = snap\<lparr>Recents := map_put number signer (Recents snap)\<rparr>;
         snap = discard_previous snap signer (Coinbase header);
         snap = count_vote snap signer (Coinbase header) authorize number
     in settle_vote snap (Coinbase header) number)"

lemma apply_header_stages:
  "apply_header cr snap header = Inr snap' \<longleftrightarrow>
    (\<exists>override signer authorize.
      breakGlassOverrideOf cr (sBreakGlass snap) header = Inr override \<and>
      ecrecover cr header = Inr signer \<and>
      signer \<in> Signers (before_seal snap override header) \<and>
      (override = None \<longrightarrow> signer \<notin> snd ` set (Recents (before_seal snap override header))) \<and>
      vote_of_nonce (Nonce header) = Some authorize \<and>
      snap' = after_seal (before_seal snap override header) signer authorize header)"
  unfolding apply_header_def before_seal_def after_seal_def count_vote_def Let_def split_beta
  by (auto split: sum.splits if_splits option.splits)

lemma before_seal_ok: "snap_ok s \<Longrightarrow> snap_ok (before_seal s ov h)"
  by (auto simp: before_seal_def Let_def intro!: prune_recents_ok applyBreakGlass_ok reset_ok split: option.splits)

lemma after_seal_ok:
  assumes "snap_ok s" and "a \<in> Signers s"
  shows "snap_ok (after_seal s a b h)"
proof -
  let ?s1 = "s\<lparr>Recents := map_put (number_of h) a (Recents s)\<rparr>"
  have "snap_ok ?s1" using assms(1) by (rule seal_ok)
  from discard_previous_ok [OF this, of a "Coinbase h"] show ?thesis
    unfolding after_seal_def Let_def using assms(2) by (intro settle_vote_ok count_vote_ok) auto
qed

lemma apply_header_ok: "snap_ok s \<Longrightarrow> apply_header cr s h = Inr s' \<Longrightarrow> snap_ok s'"
  by (auto simp: apply_header_stages intro: after_seal_ok before_seal_ok)

interpretation snapshot_steps: checked_steps "apply_header cr" snap_ok for cr
  by unfold_locales (rule apply_header_ok)

text \<open>
  C18. The voting bookkeeping stays consistent: starting from a consistent snapshot (a fresh one
  is), applying any accepted sequence of headers leaves tallies equal to vote counts, votes
  cast only by current signers and only for changes, and at most one vote per signer and
  account.
\<close>

theorem apply_headers_consistent:
  assumes "snap_ok s" and "apply_headers cr s hs = Inr s'"
  shows "snap_ok s'"
proof -
  have "snap_ok (t\<lparr>sNumber := n, sHash := x\<rparr>) \<longleftrightarrow> snap_ok t" for t n x by (simp add: snap_ok_def)
  with assms snapshot_steps.run_inv [OF assms(1)] show ?thesis
    by (auto simp: apply_headers_def split: if_splits sum.splits)
qed

section \<open>Majority\<close>

lemma card_voters:
  assumes "votes_ok S vs"
  shows "card (vSigner ` {v \<in> set vs. vAddress v = c}) = cnt vs c"
proof -
  have "distinct (map vSigner (filter (\<lambda>v. vAddress v = c) vs))"
    using assms unfolding votes_ok_def by (auto simp: distinct_map inj_on_def)
  then have "card (set (map vSigner (filter (\<lambda>v. vAddress v = c) vs))) = cnt vs c"
    by (simp only: distinct_card cnt_def length_map)
  then show ?thesis by simp
qed

lemma before_seal_none [simp]: "Signers (before_seal s None h) = Signers s"
  by (simp add: before_seal_def Let_def)

lemma before_seal_votes: "set (Votes (before_seal s None h)) \<subseteq> set (Votes s)"
  by (simp add: before_seal_def Let_def)

lemma count_vote_votes: "v \<in> set (Votes (count_vote s a c b n)) \<Longrightarrow> v \<in> set (Votes s) \<or> vSigner v = a"
  by (auto simp: count_vote_def split_beta Let_def split: if_splits)

text \<open>
  C6. Signer changes need a strict majority: when a header without an override changes the
  signer set, the change is the addition or removal of the one account in the header's
  coinbase, and more than half of the current signers have voted for it, the sealer in this
  header and the others in standing votes.
\<close>

theorem signer_change_majority:
  assumes "snap_ok s" and "apply_header cr s h = Inr s'"
    and "breakGlassOverrideOf cr (sBreakGlass s) h = Inr None" and "Signers s' \<noteq> Signers s"
  shows "\<exists>a W. ecrecover cr h = Inr a \<and> W \<subseteq> Signers s \<and> card (Signers s) div 2 < card W \<and>
    (\<forall>w \<in> W. w = a \<or> (\<exists>v \<in> set (Votes s). vSigner v = w \<and> vAddress v = Coinbase h \<and>
       vAuthorize v = (Coinbase h \<notin> Signers s))) \<and>
    Signers s' = (if Coinbase h \<in> Signers s then Signers s - {Coinbase h} else insert (Coinbase h) (Signers s))"
proof -
  let ?c = "Coinbase h" and ?b = "before_seal s None h"
  obtain a b where a: "ecrecover cr h = Inr a" "a \<in> Signers ?b" "s' = after_seal ?b a b h"
    using assms(2,3) by (auto simp: apply_header_stages)
  let ?s1 = "?b\<lparr>Recents := map_put (number_of h) a (Recents ?b)\<rparr>"
  let ?s2 = "discard_previous ?s1 a ?c"
  define t where "t = count_vote ?s2 a ?c b (number_of h)"
  have ok1: "snap_ok ?s1" using assms(1) by (intro seal_ok before_seal_ok)
  have ok: "snap_ok t" unfolding t_def
    using discard_previous_ok [OF ok1, of a ?c] a(2) by (intro count_vote_ok) simp_all
  have sub: "set (Votes ?s2) \<subseteq> set (Votes s)"
    using discard_previous_votes [of ?s1 a ?c] before_seal_votes [of s h] by (simp add: subset_trans)
  have s': "s' = settle_vote t ?c (number_of h)" using a(3) by (simp add: after_seal_def Let_def t_def)
  have St: "Signers t = Signers s" by (simp add: t_def)
  have passed: "vote_passed t ?c" using assms(4) St by (simp add: s' settle_vote_signers split: if_splits)
  note tally = tally_passed [OF ok passed]
  let ?W = "vSigner ` {v \<in> set (Votes t). vAddress v = ?c}"
  have vs: "votes_ok (Signers s) (Votes t)" using ok St by (simp add: snap_ok_def)
  have "card (Signers s) div 2 < card ?W" using tally(2) card_voters [OF vs] St by simp
  moreover have "?W \<subseteq> Signers s" using vs by (auto simp: votes_ok_def)
  moreover have "w = a \<or> (\<exists>v \<in> set (Votes s). vSigner v = w \<and> vAddress v = ?c \<and> vAuthorize v = (?c \<notin> Signers s))"
    if "w \<in> ?W" for w
  proof -
    obtain v where v: "v \<in> set (Votes t)" "vSigner v = w" "vAddress v = ?c" using \<open>w \<in> ?W\<close> by auto
    have "vAuthorize v = (?c \<notin> Signers s)" using v vs by (auto simp: votes_ok_def)
    moreover have "v \<in> set (Votes s) \<or> w = a"
      using count_vote_votes [of v ?s2 a ?c b "number_of h"] v sub by (auto simp: t_def)
    ultimately show ?thesis using v by auto
  qed
  moreover have "Signers s' = (if ?c \<in> Signers s then Signers s - {?c} else insert ?c (Signers s))"
    using passed tally(1) St by (simp add: s' settle_vote_signers)
  ultimately show ?thesis using a(1) by (intro exI [of _ a] exI [of _ ?W]) simp
qed

section \<open>The recently-signed window\<close>

fun signer_sets :: "crypto \<Rightarrow> Snapshot \<Rightarrow> Header list \<Rightarrow> address set list" where
  "signer_sets cr s [] = []"
| "signer_sets cr s (h # hs) =
    (case breakGlassOverrideOf cr (sBreakGlass s) h of Inl _ \<Rightarrow> []
     | Inr ov \<Rightarrow>
       (case apply_header cr s h of Inl _ \<Rightarrow> []
        | Inr s' \<Rightarrow> Signers (before_seal s ov h) # Signers s' # signer_sets cr s' hs))"

lemma unat_recent_limit: "card S < 2 ^ 62 \<Longrightarrow> unat (recent_limit S) = card S div 2 + 1"
  unfolding recent_limit_def by (rule word64_of_nat) simp

lemma prune_keeps:
  assumes "(k, a) \<in> set (Recents s)" and "unat n < unat k + (N div 2 + 1)"
    and "N \<le> card (Signers s)" and "card (Signers s) < 2 ^ 62"
  shows "(k, a) \<in> set (Recents (prune_recents s n))"
proof -
  let ?l = "recent_limit (Signers s)"
  have "k \<noteq> n - ?l" if "?l \<le> n"
  proof
    assume "k = n - ?l"
    then have "unat k = unat n - unat ?l" using that by (simp add: unat_sub)
    then show False using assms(2,3) unat_recent_limit [OF assms(4)] that by (simp add: word_le_nat_alt)
  qed
  then show ?thesis using assms(1) by (auto simp: prune_recents_def Let_def)
qed

lemma override_keeps:
  assumes "(k, a) \<in> set (Recents s)" and "unat n < unat k + (N div 2 + 1)" and "unat k < 2 ^ 62"
    and "N \<le> card (set l)" and "card (set l) < 2 ^ 62"
  shows "(k, a) \<in> set (Recents (applyBreakGlass s l n))"
proof -
  let ?l = "recent_limit (set l)"
  have "unat (k + ?l) = unat k + unat ?l"
    using assms(3,5) unat_recent_limit [OF assms(5)] by (simp add: unat_word_ariths)
  then have "\<not> k + ?l \<le> n" using assms(2,4) unat_recent_limit [OF assms(5)] by (simp add: word_le_nat_alt)
  then show ?thesis using assms(1) by (auto simp: applyBreakGlass_def Let_def)
qed

lemma before_seal_keeps:
  assumes "(k, a) \<in> set (Recents s)" and "unat (number_of h) < unat k + (N div 2 + 1)" and "unat k < 2 ^ 62"
    and "N \<le> card (Signers (before_seal s ov h))" and "card (Signers (before_seal s ov h)) < 2 ^ 62"
  shows "(k, a) \<in> set (Recents (before_seal s ov h))"
proof (cases ov)
  case None
  with assms show ?thesis unfolding before_seal_def Let_def
    by (intro prune_keeps [where N = N]) (simp_all add: before_seal_def Let_def)
next
  case (Some l)
  define s0 where "s0 = (if number_of h mod Epoch (sConfig s) = 0 then s\<lparr>Votes := [], Tallies := []\<rparr> else s)"
  define s1 where "s1 = applyBreakGlass s0 l (number_of h)"
  have b: "before_seal s ov h = prune_recents s1 (number_of h)"
    using Some by (simp add: before_seal_def Let_def s0_def s1_def)
  have S: "Signers s1 = set l" by (simp add: s1_def applyBreakGlass_def Let_def)
  have "(k, a) \<in> set (Recents s0)" using assms(1) by (simp add: s0_def)
  then have "(k, a) \<in> set (Recents s1)"
    unfolding s1_def using assms b S by (intro override_keeps [where N = N]) simp_all
  then show ?thesis unfolding b using assms b by (intro prune_keeps [where N = N]) simp_all
qed

lemma settle_recents:
  "Recents (settle_vote s c n) =
    (if vote_passed s c \<and> \<not> tAuthorize (the (map_of (Tallies s) c))
     then Recents (prune_recents (s\<lparr>Signers := Signers s - {c}\<rparr>) n) else Recents s)"
  by (simp add: settle_vote_def Let_def)

lemma after_seal_keeps:
  assumes "(k, a) \<in> set (Recents s)" and "unat (number_of h) < unat k + (N div 2 + 1)" and "k \<noteq> number_of h"
    and "N \<le> card (Signers (after_seal s x b h))" and "card (Signers (after_seal s x b h)) < 2 ^ 62"
  shows "(k, a) \<in> set (Recents (after_seal s x b h))"
proof -
  let ?n = "number_of h" and ?c = "Coinbase h"
  define t where "t = count_vote (discard_previous (s\<lparr>Recents := map_put ?n x (Recents s)\<rparr>) x ?c) x ?c b ?n"
  have s': "after_seal s x b h = settle_vote t ?c ?n" by (simp add: after_seal_def Let_def t_def)
  have "(k, a) \<in> set (Recents t)" using assms(1,3) by (simp add: t_def)
  then show ?thesis using assms(2,4,5) unfolding s' settle_recents
    by (auto simp: settle_vote_signers intro!: prune_keeps [where N = N] split: if_splits)
qed

lemma apply_header_keeps:
  assumes "apply_header cr s h = Inr s'" and "breakGlassOverrideOf cr (sBreakGlass s) h = Inr ov"
    and "(k, a) \<in> set (Recents s)" and "unat k < unat (number_of h)"
    and "unat (number_of h) < unat k + (N div 2 + 1)" and "unat k < 2 ^ 62"
    and "\<forall>X \<in> {Signers (before_seal s ov h), Signers s'}. N \<le> card X \<and> card X < 2 ^ 62"
  shows "(k, a) \<in> set (Recents s')"
proof -
  obtain x b where s': "s' = after_seal (before_seal s ov h) x b h"
    using assms(1,2) by (auto simp: apply_header_stages)
  have "(k, a) \<in> set (Recents (before_seal s ov h))" using assms by (intro before_seal_keeps [where N = N]) auto
  moreover have "k \<noteq> number_of h" using assms(4) by auto
  ultimately show ?thesis using assms(5,7) unfolding s' by (intro after_seal_keeps [where N = N]) auto
qed

lemma apply_header_seals:
  assumes "apply_header cr s h = Inr s'" and "ecrecover cr h = Inr a"
    and "card (Signers s') < 2 ^ 62"
  shows "(number_of h, a) \<in> set (Recents s')"
proof -
  obtain ov b where s': "s' = after_seal (before_seal s ov h) a b h"
    using assms(1,2) by (auto simp: apply_header_stages)
  let ?n = "number_of h" and ?c = "Coinbase h" and ?u = "before_seal s ov h"
  define t where "t = count_vote (discard_previous (?u\<lparr>Recents := map_put ?n a (Recents ?u)\<rparr>) a ?c) a ?c b ?n"
  have st: "s' = settle_vote t ?c ?n" unfolding s' by (simp add: after_seal_def Let_def t_def)
  have "(?n, a) \<in> set (Recents t)" by (simp add: t_def)
  then show ?thesis using assms(3) unfolding st settle_recents
    by (auto simp: settle_vote_signers intro!: prune_keeps [where N = 0] split: if_splits)
qed

lemma applyBreakGlass_fields [simp]:
  "sBreakGlass (applyBreakGlass s l n) = sBreakGlass s" "sConfig (applyBreakGlass s l n) = sConfig s"
  "sNumber (applyBreakGlass s l n) = sNumber s"
  by (simp_all add: applyBreakGlass_def Let_def)

lemma before_seal_fields [simp]:
  "sBreakGlass (before_seal s ov h) = sBreakGlass s" "sConfig (before_seal s ov h) = sConfig s"
  "sNumber (before_seal s ov h) = sNumber s"
  by (simp_all add: before_seal_def Let_def split: option.splits)

lemma settle_vote_fields [simp]:
  "sBreakGlass (settle_vote s c n) = sBreakGlass s" "sConfig (settle_vote s c n) = sConfig s"
  "sNumber (settle_vote s c n) = sNumber s"
  by (simp_all add: settle_vote_def Let_def)

lemma apply_header_fields:
  assumes "apply_header cr s h = Inr s'"
  shows "sBreakGlass s' = sBreakGlass s" and "sConfig s' = sConfig s" and "sNumber s' = sNumber s"
proof -
  obtain ov x b where "s' = after_seal (before_seal s ov h) x b h"
    using assms by (auto simp: apply_header_stages)
  then show "sBreakGlass s' = sBreakGlass s" and "sConfig s' = sConfig s" and "sNumber s' = sNumber s"
    by (simp_all add: after_seal_def Let_def)
qed

lemma contiguous_iff:
  "contiguous hs \<longleftrightarrow> (\<forall>i<length hs - 1. number_of (hs ! Suc i) = number_of (hs ! i) + 1)"
  by (auto simp: contiguous_def list_all_iff)

lemma contiguous_Cons: "contiguous (h # h' # hs) \<longleftrightarrow> number_of h' = number_of h + 1 \<and> contiguous (h' # hs)"
  by (simp add: contiguous_iff all_less_Suc_split)

lemma window_blocks:
  assumes "run_res (apply_header cr) s (hs @ [h2]) = Inr t" and "contiguous (hs @ [h2])"
    and "number_of (hd (hs @ [h2])) = word_of_nat m" and "unat k < m" and "m + length hs < 2 ^ 62"
    and "\<forall>X \<in> set (signer_sets cr s (hs @ [h2])). N \<le> card X \<and> card X < 2 ^ 62"
    and "(k, a) \<in> set (Recents s)" and "ecrecover cr h2 = Inr a"
    and "breakGlassOverrideOf cr (sBreakGlass s) h2 = Inr None"
  shows "unat k + (N div 2 + 1) \<le> m + length hs"
  using assms
proof (induction hs arbitrary: s m)
  case Nil
  show ?case
  proof (rule ccontr)
    assume far: "\<not> unat k + (N div 2 + 1) \<le> m + length ([] :: Header list)"
    have n: "unat (number_of h2) = m" using Nil.prems(3,5) by (simp add: word64_of_nat)
    obtain s' where s': "apply_header cr s h2 = Inr s'" using Nil.prems(1) by (auto split: sum.splits)
    have "(k, a) \<in> set (Recents (before_seal s None h2))"
      using Nil.prems far n s' by (intro before_seal_keeps [where N = N]) auto
    then have "a \<in> snd ` set (Recents (before_seal s None h2))" by force
    then show False using s' Nil.prems(8,9) by (auto simp: apply_header_stages)
  qed
next
  case (Cons h hs)
  have n: "unat (number_of h) = m" using Cons.prems(3,5) by (simp add: word64_of_nat)
  obtain s' where s': "apply_header cr s h = Inr s'" and run: "run_res (apply_header cr) s' (hs @ [h2]) = Inr t"
    using Cons.prems(1) by (auto split: sum.splits)
  obtain ov where ov: "breakGlassOverrideOf cr (sBreakGlass s) h = Inr ov"
    using s' by (auto simp: apply_header_stages)
  obtain h' hs' where hs': "hs @ [h2] = h' # hs'" by (cases "hs @ [h2]") auto
  have c: "number_of h' = number_of h + 1" "contiguous (hs @ [h2])"
    using Cons.prems(2) contiguous_Cons [of h h' hs'] by (simp_all add: hs')
  show ?case
  proof (cases "unat k + (N div 2 + 1) \<le> m")
    case False
    have "(k, a) \<in> set (Recents s')"
      using Cons.prems(4,5,6,7) ov s' n False by (intro apply_header_keeps [OF s' ov, where N = N]) auto
    moreover have "number_of (hd (hs @ [h2])) = word_of_nat (Suc m)"
      using c Cons.prems(3) by (simp add: hs')
    moreover have "sBreakGlass s' = sBreakGlass s" by (rule apply_header_fields(1) [OF s'])
    ultimately have "unat k + (N div 2 + 1) \<le> Suc m + length hs"
      using Cons.prems(4-9) run c(2) ov s' by (intro Cons.IH [of s']) auto
    then show ?thesis by simp
  qed simp
qed

text \<open>
  C1. No signer seals twice within half the signer set: if two blocks of an accepted chain have
  the same sealer and the later one is not an override block, and every signer set in force
  from the first to the second has at least \<open>N\<close> members, then the blocks are at least
  \<open>N div 2 + 1\<close> heights apart.
\<close>

theorem no_double_seal:
  assumes "run_res (apply_header cr) s (h1 # mid @ [h2]) = Inr t" and "contiguous (h1 # mid @ [h2])"
    and "unat (number_of h1) + length mid < 2 ^ 61"
    and "\<forall>X \<in> set (signer_sets cr s (h1 # mid @ [h2])). N \<le> card X \<and> card X < 2 ^ 62"
    and "ecrecover cr h1 = Inr a" and "ecrecover cr h2 = Inr a"
    and "breakGlassOverrideOf cr (sBreakGlass s) h2 = Inr None"
  shows "N div 2 + 1 \<le> length (mid @ [h2])"
proof -
  let ?n = "unat (number_of h1)"
  obtain s' where s': "apply_header cr s h1 = Inr s'" and run: "run_res (apply_header cr) s' (mid @ [h2]) = Inr t"
    using assms(1) by (auto split: sum.splits)
  obtain ov where ov: "breakGlassOverrideOf cr (sBreakGlass s) h1 = Inr ov"
    using s' by (auto simp: apply_header_stages)
  obtain h' hs' where hs': "mid @ [h2] = h' # hs'" by (cases "mid @ [h2]") auto
  have c: "number_of h' = number_of h1 + 1" "contiguous (mid @ [h2])"
    using assms(2) contiguous_Cons [of h1 h' hs'] by (simp_all add: hs')
  have sets: "\<forall>X \<in> set (Signers s' # signer_sets cr s' (mid @ [h2])). N \<le> card X \<and> card X < 2 ^ 62"
    using assms(4) ov s' by simp
  have "(number_of h1, a) \<in> set (Recents s')" using s' assms(5) sets by (intro apply_header_seals) auto
  moreover have "sBreakGlass s' = sBreakGlass s" by (rule apply_header_fields(1) [OF s'])
  moreover have "number_of (hd (mid @ [h2])) = word_of_nat (Suc ?n)" using c by (simp add: hs')
  ultimately have "?n + (N div 2 + 1) \<le> Suc ?n + length mid"
    using run c(2) sets assms(3,6,7) by (intro window_blocks [of cr s' mid h2 t "Suc ?n"]) auto
  then show ?thesis by simp
qed

section \<open>Concrete chains\<close>

text \<open>
  Under \<open>sample_crypto\<close> the signer of a header is the address in the last twenty bytes of its
  seal.
\<close>

definition signed_header :: "int \<Rightarrow> address \<Rightarrow> address \<Rightarrow> u64 \<Rightarrow> Header" where
  "signed_header n a c nonce =
    (sample_header n)\<lparr>Extra := replicate 77 0 @ address_bytes a, Coinbase := c, Nonce := nonce\<rparr>"

lemma be_nat_zeros_append [simp]: "be_nat (replicate k 0 @ xs) = be_nat xs"
  by (simp add: be_nat_append)

lemma signed_header_fields [simp]:
  "Number (signed_header n a c x) = Some n" "Coinbase (signed_header n a c x) = c" "Nonce (signed_header n a c x) = x"
  "length (Extra (signed_header n a c x)) = 97" "Difficulty (signed_header n a c x) = Some 2"
  "BaseFee (signed_header n a c x) = Some 1000"
  by (simp_all add: signed_header_def sample_header_def)

lemma drop_be_bytes: "k \<le> n \<Longrightarrow> drop k (be_bytes n m) = be_bytes (n - k) m"
proof (induction k arbitrary: n)
  case (Suc k)
  then obtain n' where "n = Suc n'" by (cases n) auto
  then show ?case using Suc be_bytes_Cons [of n' m] by simp
qed simp

lemma signed_header_signer: "0 \<le> n \<Longrightarrow> ecrecover sample_crypto (signed_header n a c x) = Inr a"
proof -
  assume n: "0 \<le> n"
  have lt: "unat a < 2 ^ 160" using unsigned_less [of a, where 'a = nat] by simp
  then have "unat (ucast a :: hash) = unat a"
    by (simp add: unsigned_ucast_eq unsigned_take_bit_eq take_bit_eq_mod)
  then have "bytes_address (drop 12 (hash_bytes (ucast a))) = a"
    using lt by (simp add: hash_bytes_def drop_be_bytes bytes_address_def be_nat_be_bytes)
  moreover have "drop 32 (Extra (signed_header n a c x)) = replicate 45 0 @ address_bytes a"
    by (simp add: signed_header_def)
  ultimately show ?thesis using n
    by (simp add: ecrecover_def extraSeal_def SealHash_def encodeSigHeader_items opt_nonneg_def
        sample_crypto_def pubkey_address_def)
qed

lemma signed_header_override [simp]: "breakGlassOverrideOf cr bg (signed_header n a c x) = Inr None"
  by (simp add: breakGlassOverrideOf_def isBreakGlassExtra_def extraVanity_def extraSeal_def)

lemma apply_signed_header:
  assumes "0 \<le> n" and "a \<in> Signers (before_seal s None (signed_header n a c x))"
    and "a \<notin> snd ` set (Recents (before_seal s None (signed_header n a c x)))"
    and "vote_of_nonce x = Some b"
  shows "apply_header sample_crypto s (signed_header n a c x)
    = Inr (after_seal (before_seal s None (signed_header n a c x)) a b (signed_header n a c x))"
  using assms by (intro apply_header_stages [THEN iffD2]) (auto simp: signed_header_signer)

lemma no_vote_after_seal:
  assumes "c \<notin> Signers s" and "Votes s = []" and "Tallies s = []"
  shows "after_seal s a False (signed_header n a c x) = s\<lparr>Recents := map_put (word_of_int n) a (Recents s)\<rparr>"
  using assms by (simp add: after_seal_def Let_def discard_previous_def count_vote_def cast_vote_def
      validVote_def settle_vote_def vote_passed_def number_of_def)

definition two_signers :: Snapshot where
  "two_signers = newSnapshot \<lparr>Period = 7, Epoch = 30000\<rparr> None 100 0 [1, 2]"

abbreviation plain_block :: "int \<Rightarrow> address \<Rightarrow> Header" where
  "plain_block n a \<equiv> signed_header n a 0 0"

lemma two_signers_run:
  "apply_header sample_crypto two_signers (plain_block 101 1) = Inr (two_signers\<lparr>Recents := [(101, 1)]\<rparr>)"
  "apply_header sample_crypto (two_signers\<lparr>Recents := [(101, 1)]\<rparr>) (plain_block 102 2)
     = Inr (two_signers\<lparr>Recents := [(102, 2), (101, 1)]\<rparr>)"
  "apply_header sample_crypto (two_signers\<lparr>Recents := [(102, 2), (101, 1)]\<rparr>) (plain_block 103 1)
     = Inr (two_signers\<lparr>Recents := [(103, 1), (102, 2)]\<rparr>)"
  by (subst apply_signed_header [where b = False];
      simp add: vote_of_nonce_def nonceAuthVote_def nonceDropVote_def before_seal_def prune_recents_def
        recent_limit_def two_signers_def newSnapshot_def number_of_def map_del_def map_put_def no_vote_after_seal)+

theorem no_double_seal_witness:
  "2 div 2 + 1 \<le> length ([plain_block 102 2] @ [plain_block 103 1])"
proof (rule no_double_seal [where cr = sample_crypto and s = two_signers and ?h1.0 = "plain_block 101 1"
      and a = 1 and t = "two_signers\<lparr>Recents := [(103, 1), (102, 2)]\<rparr>"])
  show "run_res (apply_header sample_crypto) two_signers (plain_block 101 1 # [plain_block 102 2] @ [plain_block 103 1])
      = Inr (two_signers\<lparr>Recents := [(103, 1), (102, 2)]\<rparr>)"
    by (simp add: two_signers_run)
  show "\<forall>X \<in> set (signer_sets sample_crypto two_signers (plain_block 101 1 # [plain_block 102 2] @ [plain_block 103 1])).
      2 \<le> card X \<and> card X < 2 ^ 62"
    by (simp add: two_signers_run) (simp add: two_signers_def newSnapshot_def)
qed (simp_all add: signed_header_signer contiguous_iff all_less_Suc_split number_of_def)

definition one_signer :: Snapshot where
  "one_signer = newSnapshot \<lparr>Period = 7, Epoch = 30000\<rparr> None 100 0 [1]"

lemma one_signer_vote:
  "\<exists>s'. apply_header sample_crypto one_signer (signed_header 101 1 5 nonceAuthVote) = Inr s' \<and> Signers s' = {1, 5}"
proof -
  let ?h = "signed_header 101 1 5 nonceAuthVote"
  have b: "before_seal one_signer None ?h = one_signer"
    by (simp add: before_seal_def prune_recents_def recent_limit_def one_signer_def newSnapshot_def number_of_def map_del_def)
  have "apply_header sample_crypto one_signer ?h = Inr (after_seal one_signer 1 True ?h)"
    using apply_signed_header [of 101 1 one_signer 5 nonceAuthVote True] b
    by (simp add: vote_of_nonce_def one_signer_def newSnapshot_def)
  moreover have "Signers (after_seal one_signer 1 True ?h) = {1, 5}"
    by (simp add: after_seal_def Let_def settle_vote_signers discard_previous_def count_vote_def cast_vote_def
        validVote_def vote_passed_def one_signer_def newSnapshot_def insert_commute)
  ultimately show ?thesis by blast
qed

theorem signer_change_majority_witness:
  "\<exists>W. W \<subseteq> Signers one_signer \<and> card (Signers one_signer) div 2 < card W"
proof -
  obtain s' where s': "apply_header sample_crypto one_signer (signed_header 101 1 5 nonceAuthVote) = Inr s'"
    "Signers s' = {1, 5}" using one_signer_vote by blast
  have "Signers s' \<noteq> Signers one_signer" unfolding s'(2) by (simp add: one_signer_def newSnapshot_def)
  with signer_change_majority [OF _ s'(1)] show ?thesis
    using newSnapshot_ok by (fastforce simp: one_signer_def)
qed

section \<open>Snapshots compose\<close>

definition restamp :: "u64 \<Rightarrow> hash \<Rightarrow> Snapshot \<Rightarrow> Snapshot" where
  "restamp n x s = s\<lparr>sNumber := n, sHash := x\<rparr>"

lemma restamp_fields [simp]:
  "Signers (restamp n x s) = Signers s" "Recents (restamp n x s) = Recents s" "Votes (restamp n x s) = Votes s"
  "Tallies (restamp n x s) = Tallies s" "sConfig (restamp n x s) = sConfig s"
  "sBreakGlass (restamp n x s) = sBreakGlass s" "sNumber (restamp n x s) = n" "sHash (restamp n x s) = x"
  "restamp n x (restamp m y s) = restamp n x s"
  by (simp_all add: restamp_def)

lemma restamp_updates:
  "(restamp n x s)\<lparr>Signers := S\<rparr> = restamp n x (s\<lparr>Signers := S\<rparr>)"
  "(restamp n x s)\<lparr>Recents := R\<rparr> = restamp n x (s\<lparr>Recents := R\<rparr>)"
  "(restamp n x s)\<lparr>Votes := V\<rparr> = restamp n x (s\<lparr>Votes := V\<rparr>)"
  "(restamp n x s)\<lparr>Tallies := T\<rparr> = restamp n x (s\<lparr>Tallies := T\<rparr>)"
  by (simp_all add: restamp_def)

lemma uncast_restamp: "snd (uncast (restamp n x s) a b) = restamp n x (snd (uncast s a b))"
  by (simp add: uncast_def restamp_updates split: option.splits)

lemma fold_uncast_restamp:
  "foldl (\<lambda>s v. snd (uncast s (f v) (g v))) (restamp n x s) vs
     = restamp n x (foldl (\<lambda>s v. snd (uncast s (f v) (g v))) s vs)"
  by (induction vs arbitrary: s) (simp_all add: uncast_restamp)

lemma stages_restamp:
  "prune_recents (restamp n x s) k = restamp n x (prune_recents s k)"
  "applyBreakGlass (restamp n x s) l k = restamp n x (applyBreakGlass s l k)"
  "discard_previous (restamp n x s) a c = restamp n x (discard_previous s a c)"
  "discard_votes_of (restamp n x s) a = restamp n x (discard_votes_of s a)"
  "count_vote (restamp n x s) a c b k = restamp n x (count_vote s a c b k)"
  "vote_passed (restamp n x s) c = vote_passed s c"
  by (auto simp: prune_recents_def applyBreakGlass_def discard_previous_def discard_votes_of_def count_vote_def
      cast_vote_def validVote_def vote_passed_def Let_def restamp_updates uncast_restamp fold_uncast_restamp
      split: option.splits)

lemma settle_vote_restamp: "settle_vote (restamp n x s) c k = restamp n x (settle_vote s c k)"
  by (simp add: settle_vote_def Let_def restamp_updates stages_restamp)

lemma before_seal_restamp: "before_seal (restamp n x s) ov h = restamp n x (before_seal s ov h)"
  by (cases ov) (simp_all add: before_seal_def Let_def restamp_updates stages_restamp)

lemma after_seal_restamp: "after_seal (restamp n x s) a b h = restamp n x (after_seal s a b h)"
  by (simp add: after_seal_def Let_def restamp_updates stages_restamp settle_vote_restamp)

lemma apply_header_restamp:
  "apply_header cr (restamp n x s) h = Inr t \<longleftrightarrow> (\<exists>u. apply_header cr s h = Inr u \<and> t = restamp n x u)"
  unfolding apply_header_stages before_seal_restamp after_seal_restamp by auto

lemma run_restamp:
  "run_res (apply_header cr) (restamp n x s) hs = Inr t \<longleftrightarrow>
    (\<exists>u. run_res (apply_header cr) s hs = Inr u \<and> t = restamp n x u)"
proof (induction hs arbitrary: s)
  case (Cons h hs)
  have "run_res (apply_header cr) (restamp n x s) (h # hs) = Inr t \<longleftrightarrow>
      (\<exists>v. apply_header cr (restamp n x s) h = Inr v \<and> run_res (apply_header cr) v hs = Inr t)"
    by (auto split: sum.splits)
  also have "\<dots> \<longleftrightarrow> (\<exists>u. apply_header cr s h = Inr u \<and> run_res (apply_header cr) (restamp n x u) hs = Inr t)"
    by (auto simp: apply_header_restamp)
  also have "\<dots> \<longleftrightarrow> (\<exists>u. run_res (apply_header cr) s (h # hs) = Inr u \<and> t = restamp n x u)"
    by (auto simp: Cons.IH split: sum.splits)
  finally show ?case .
qed auto

lemma run_fields: "run_res (apply_header cr) s hs = Inr t \<Longrightarrow> sNumber t = sNumber s"
  by (induction hs arbitrary: s) (auto split: sum.splits dest: apply_header_fields(3))

lemma contiguous_single [simp]: "contiguous [x]"
  by (simp add: contiguous_iff)

lemma contiguous_append:
  "xs \<noteq> [] \<Longrightarrow> ys \<noteq> [] \<Longrightarrow>
   contiguous (xs @ ys) \<longleftrightarrow> contiguous xs \<and> contiguous ys \<and> number_of (hd ys) = number_of (last xs) + 1"
proof (induction xs)
  case (Cons x xs)
  show ?case
  proof (cases xs)
    case Nil
    with Cons.prems show ?thesis by (cases ys) (auto simp: contiguous_Cons)
  next
    case (Cons x' xs')
    with Cons.IH Cons.prems show ?thesis by (simp add: contiguous_Cons)
  qed
qed simp

lemma contiguous_last: "xs \<noteq> [] \<Longrightarrow> contiguous xs \<Longrightarrow> number_of (last xs) = number_of (hd xs) + word_of_nat (length xs - 1)"
proof (induction xs)
  case (Cons x xs)
  then show ?case by (cases xs) (simp_all add: contiguous_Cons)
qed simp

lemma apply_headers_iff:
  "apply_headers cr s hs = Inr t \<longleftrightarrow>
    (if hs = [] then t = s
     else contiguous hs \<and> number_of (hd hs) = sNumber s + 1 \<and>
       (\<exists>u. run_res (apply_header cr) s hs = Inr u \<and>
         t = restamp (sNumber s + word_of_nat (length hs)) (Hash cr (last hs)) u))"
  by (auto simp: apply_headers_def restamp_def hd_conv_nth run_fields split: sum.splits)

text \<open>
  Snapshots compose: once a first batch of headers has been applied, applying a second batch
  to the result is the same as applying both batches at once. This is what makes a stored or
  cached snapshot interchangeable with replaying the chain from an earlier one.
\<close>

lemma apply_headers_compose:
  assumes "apply_headers cr s xs = Inr t"
  shows "apply_headers cr s (xs @ ys) = Inr u \<longleftrightarrow> apply_headers cr t ys = Inr u"
proof (cases "xs = [] \<or> ys = []")
  case True
  then show ?thesis using assms by (auto simp: apply_headers_iff split: if_splits)
next
  case False
  then have ne: "xs \<noteq> []" "ys \<noteq> []" by auto
  from assms ne obtain v where v: "contiguous xs" "number_of (hd xs) = sNumber s + 1"
    "run_res (apply_header cr) s xs = Inr v" and t: "t = restamp (sNumber s + word_of_nat (length xs)) (Hash cr (last xs)) v"
    by (auto simp: apply_headers_iff)
  have last: "number_of (last xs) = sNumber s + word_of_nat (length xs)"
    using contiguous_last [OF ne(1) v(1)] v(2) ne(1) by (cases xs) simp_all
  have run: "run_res (apply_header cr) s (xs @ ys) = run_res (apply_header cr) v ys"
    by (simp add: run_res_append v(3))
  show ?thesis
    unfolding apply_headers_iff [of cr s "xs @ ys"] apply_headers_iff [of cr t ys] contiguous_append [OF ne] run
    using ne v last by (auto simp: t run_restamp add.assoc)
qed

definition two_signers_next :: Snapshot where
  "two_signers_next =
    (two_signers\<lparr>Recents := [(101, 1)]\<rparr>)\<lparr>sNumber := 101, sHash := Hash sample_crypto (plain_block 101 1)\<rparr>"

lemma two_signers_apply: "apply_headers sample_crypto two_signers [plain_block 101 1] = Inr two_signers_next"
  by (simp add: apply_headers_def two_signers_run number_of_def)
    (simp add: two_signers_def newSnapshot_def two_signers_next_def)

theorem apply_headers_consistent_witness: "snap_ok two_signers_next"
  using apply_headers_consistent [OF _ two_signers_apply] newSnapshot_ok by (simp add: two_signers_def)

lemma apply_headers_compose_example:
  "\<forall>u. apply_headers sample_crypto two_signers ([plain_block 101 1] @ [plain_block 102 2]) = Inr u \<longleftrightarrow>
     apply_headers sample_crypto two_signers_next [plain_block 102 2] = Inr u"
  using apply_headers_compose [OF two_signers_apply] by blast

end
