(* ===== verification/Clique_Engine.thy ===== *)
theory Clique_Engine
  imports Clique_Snapshot
begin

text \<open>
  The authority engine (\<open>consensus/clique/clique.go\<close>, the engine methods of \<open>ferminux.go\<close> and the
  calls of \<open>api.go\<close> that change it): snapshot retrieval through the in-memory cache and the
  database, header verification, header preparation and sealing, proposals and break-glass
  arming.

  The chain the engine reads and the environment (clock, database writes, cache eviction,
  random choice) are parameters. \<open>snapshot\<close> walks back from a block until it finds a snapshot;
  the walk is a recursion with fuel two more than the block number, which is always enough for
  an engine bootstrapped at an anchor (\<open>snapshot_returns\<close>); \<open>None\<close> means that the fuel ran out.
\<close>

section \<open>State and environment\<close>

record Bootstrap =
  Anchor :: u64
  bsSigners :: "address list"

record Clique =
  cConfig :: CliqueConfig
  cDb :: "hash \<rightharpoonup> Snapshot"
  cRecents :: "hash \<rightharpoonup> Snapshot"
  proposals :: "(address \<times> bool) list"
  cSigner :: address
  cSignFn :: "address \<Rightarrow> bytes \<Rightarrow> bytes option"
  cBootstrap :: "Bootstrap option"
  cBreakGlass :: "BreakGlassConfig option"
  bgPending :: "BreakGlassOverride option"
  fakeDiff :: bool

record env =
  now :: u64
  now_ns :: int
  db_ok :: bool
  evict :: "hash \<Rightarrow> bool"
  rnd :: "nat \<Rightarrow> nat"

definition epochLength :: u64 where "epochLength = 30000"

definition FullImmutabilityThreshold :: nat where "FullImmutabilityThreshold = 90000"

text \<open>\<open>New\<close>; the signing function of a fresh engine is nil, which always fails here.\<close>

definition Clique_New :: "CliqueConfig \<Rightarrow> Clique" where
  "Clique_New config =
    (let conf = (if Epoch config = 0 then config\<lparr>Epoch := epochLength\<rparr> else config) in
     \<lparr>cConfig = conf, cDb = Map.empty, cRecents = Map.empty, proposals = [], cSigner = 0,
      cSignFn = (\<lambda>_ _. None), cBootstrap = None, cBreakGlass = None, bgPending = None, fakeDiff = False\<rparr>)"

definition Author :: "crypto \<Rightarrow> Header \<Rightarrow> clique_error + address" where
  "Author cr header = ecrecover cr header"

section \<open>Configuration and arming\<close>

fun bootstrap_uniq :: "address list \<Rightarrow> address list \<Rightarrow> clique_error + address list" where
  "bootstrap_uniq uniq [] = Inr uniq"
| "bootstrap_uniq uniq (s # ss) =
    (if s = 0 then Inl errBootstrapZeroSigner
     else if s \<in> set uniq then bootstrap_uniq uniq ss
     else bootstrap_uniq (uniq @ [s]) ss)"

definition SetBootstrap :: "Clique \<Rightarrow> u64 \<Rightarrow> address list \<Rightarrow> clique_error + Clique" where
  "SetBootstrap c anchor signers =
    (if length signers = 0 then Inl errBootstrapNoSigner
     else (case bootstrap_uniq [] signers of Inl e \<Rightarrow> Inl e
           | Inr uniq \<Rightarrow> Inr (c\<lparr>cBootstrap := Some \<lparr>Anchor = anchor, bsSigners = sort uniq\<rparr>\<rparr>)))"

text \<open>The chain id of the argument may be nil, hence a separate optional argument.\<close>

definition SetBreakGlass :: "Clique \<Rightarrow> (int option \<times> address list \<times> int) option \<Rightarrow> clique_error + Clique" where
  "SetBreakGlass c bg =
    (case bg of None \<Rightarrow> Inr (c\<lparr>cBreakGlass := None\<rparr>)
     | Some (chainID, owners, threshold) \<Rightarrow>
       (case chainID of None \<Rightarrow> Inl errBreakGlassNoChainID
        | Some cid \<Rightarrow>
          if threshold \<le> 0 \<or> int (length owners) < threshold
          then Inl (errBreakGlassBadThreshold threshold (length owners))
          else Inr (c\<lparr>cBreakGlass := Some \<lparr>bgChainID = cid, Owners = owners, Threshold = threshold\<rparr>\<rparr>)))"

definition ArmBreakGlass ::
  "crypto \<Rightarrow> Clique \<Rightarrow> u64 \<Rightarrow> hash \<Rightarrow> address list \<Rightarrow> bytes list \<Rightarrow> clique_error + Clique" where
  "ArmBreakGlass cr c number parentHash signers signatures =
    (case cBreakGlass c of None \<Rightarrow> Inl errBreakGlassDisabled
     | Some bg \<Rightarrow>
       if number = 0 then Inl errBreakGlassNumber
       else (case sortedUniqueSigners signers of Inl e \<Rightarrow> Inl e
             | Inr sorted_list \<Rightarrow>
               (case verifyBreakGlass cr (Some bg) number parentHash sorted_list signatures of Some e \<Rightarrow> Inl e
                | None \<Rightarrow>
                    Inr (c\<lparr>bgPending := Some \<lparr>ovNumber = number, ovParentHash = parentHash,
                           ovSigners = sorted_list, ovSignatures = signatures\<rparr>\<rparr>))))"

definition DisarmBreakGlass :: "Clique \<Rightarrow> Clique" where
  "DisarmBreakGlass c = c\<lparr>bgPending := None\<rparr>"

definition BreakGlassPending :: "Clique \<Rightarrow> BreakGlassOverride option" where
  "BreakGlassPending c = bgPending c"

definition BreakGlassMessage :: "Clique \<Rightarrow> u64 \<Rightarrow> hash \<Rightarrow> address list \<Rightarrow> clique_error + bytes" where
  "BreakGlassMessage c number parentHash signers =
    (case cBreakGlass c of None \<Rightarrow> Inl errBreakGlassDisabled
     | Some bg \<Rightarrow>
       (case sortedUniqueSigners signers of Inl e \<Rightarrow> Inl e
        | Inr sorted_list \<Rightarrow> Inr (breakGlassMessage (bgChainID bg) number parentHash sorted_list)))"

definition Authorize :: "Clique \<Rightarrow> address \<Rightarrow> (address \<Rightarrow> bytes \<Rightarrow> bytes option) \<Rightarrow> Clique" where
  "Authorize c signer signFn = c\<lparr>cSigner := signer, cSignFn := signFn\<rparr>"

definition Propose :: "Clique \<Rightarrow> address \<Rightarrow> bool \<Rightarrow> Clique" where
  "Propose c address auth = c\<lparr>proposals := map_put address auth (proposals c)\<rparr>"

definition Discard :: "Clique \<Rightarrow> address \<Rightarrow> Clique" where
  "Discard c address = c\<lparr>proposals := map_del address (proposals c)\<rparr>"

section \<open>Snapshot retrieval\<close>

definition store_snapshot :: "env \<Rightarrow> Clique \<Rightarrow> Snapshot \<Rightarrow> clique_error + Clique" where
  "store_snapshot ev c s = (if db_ok ev then Inr (c\<lparr>cDb := (cDb c)(sHash s \<mapsto> s)\<rparr>) else Inl errSnapshotDb)"

definition loadSnapshot :: "Clique \<Rightarrow> hash \<Rightarrow> Snapshot option" where
  "loadSnapshot c h = map_option (\<lambda>s. s\<lparr>sConfig := cConfig c, sBreakGlass := cBreakGlass c\<rparr>) (cDb c h)"

definition seed_snapshot :: "env \<Rightarrow> Clique \<Rightarrow> Snapshot \<Rightarrow> clique_error + Snapshot \<times> Clique" where
  "seed_snapshot ev c snap =
    (case store_snapshot ev c snap of Inl e \<Rightarrow> Inl e | Inr c' \<Rightarrow> Inr (snap, c'))"

text \<open>The bootstrap anchor: \<open>None\<close> when the search goes on.\<close>

definition bootstrap_step ::
  "env \<Rightarrow> Clique \<Rightarrow> u64 \<Rightarrow> hash \<Rightarrow> (clique_error + Snapshot \<times> Clique) option" where
  "bootstrap_step ev c number hash =
    (case cBootstrap c of None \<Rightarrow> None
     | Some b \<Rightarrow>
       if number < Anchor b then Some (Inl errBelowBootstrap)
       else if number = Anchor b
         then Some (seed_snapshot ev c (newSnapshot (cConfig c) (cBreakGlass c) number hash (bsSigners b)))
       else None)"

text \<open>A genesis or trusted checkpoint header seeds a snapshot from the list it carries.\<close>

definition checkpoint_signers :: "crypto \<Rightarrow> Clique \<Rightarrow> Header \<Rightarrow> clique_error + address list" where
  "checkpoint_signers cr c checkpoint =
    (case parseCheckpointExtra (Extra checkpoint) of Inl e \<Rightarrow> Inl e
     | Inr (signers, _, isBreakGlass) \<Rightarrow>
       if isBreakGlass then
         (case breakGlassOverrideOf cr (cBreakGlass c) checkpoint of Inl e \<Rightarrow> Inl e
          | Inr None \<Rightarrow> Inr [] | Inr (Some l) \<Rightarrow> Inr l)
       else Inr signers)"

definition checkpoint_step ::
  "crypto \<Rightarrow> env \<Rightarrow> ChainReader \<Rightarrow> Clique \<Rightarrow> u64 \<Rightarrow> nat \<Rightarrow> (clique_error + Snapshot \<times> Clique) option" where
  "checkpoint_step cr ev chain c number gathered =
    (if number = 0 \<or> (number mod Epoch (cConfig c) = 0 \<and>
          (FullImmutabilityThreshold < gathered \<or> GetHeaderByNumber chain (number - 1) = None))
     then (case GetHeaderByNumber chain number of None \<Rightarrow> None
           | Some checkpoint \<Rightarrow>
             Some (case checkpoint_signers cr c checkpoint of Inl e \<Rightarrow> Inl e
                   | Inr signers \<Rightarrow>
                       seed_snapshot ev c (newSnapshot (cConfig c) (cBreakGlass c) number (Hash cr checkpoint) signers)))
     else None)"

text \<open>The next header down: the last explicit parent, or one from the database.\<close>

definition next_header ::
  "crypto \<Rightarrow> ChainReader \<Rightarrow> u64 \<Rightarrow> hash \<Rightarrow> Header list \<Rightarrow> (Header \<times> Header list) option" where
  "next_header cr chain number hash parents =
    (if 0 < length parents then
       (let header = last parents in
        if Hash cr header \<noteq> hash \<or> number_of header \<noteq> number then None
        else Some (header, butlast parents))
     else map_option (\<lambda>header. (header, [])) (GetHeader chain hash number))"

fun snapshot_search ::
  "nat \<Rightarrow> crypto \<Rightarrow> env \<Rightarrow> ChainReader \<Rightarrow> Clique \<Rightarrow> u64 \<Rightarrow> hash \<Rightarrow> Header list \<Rightarrow> Header list \<Rightarrow>
    (clique_error + Snapshot \<times> Header list \<times> Clique) option" where
  "snapshot_search 0 cr ev chain c number hash parents headers = None"
| "snapshot_search (Suc fuel) cr ev chain c number hash parents headers =
    (case cRecents c hash of Some s \<Rightarrow> Some (Inr (s, headers, c))
     | None \<Rightarrow>
     (case (if number mod checkpointInterval = 0 then loadSnapshot c hash else None) of
        Some s \<Rightarrow> Some (Inr (s, headers, c))
      | None \<Rightarrow>
      (case bootstrap_step ev c number hash of
         Some r \<Rightarrow> Some (map_sum id (\<lambda>(s, c'). (s, headers, c')) r)
       | None \<Rightarrow>
       (case checkpoint_step cr ev chain c number (length headers) of
          Some r \<Rightarrow> Some (map_sum id (\<lambda>(s, c'). (s, headers, c')) r)
        | None \<Rightarrow>
        (case next_header cr chain number hash parents of
           None \<Rightarrow> Some (Inl ErrUnknownAncestor)
         | Some (header, parents') \<Rightarrow>
             snapshot_search fuel cr ev chain c (number - 1) (ParentHash header) parents' (headers @ [header]))))))"

definition snapshot ::
  "crypto \<Rightarrow> env \<Rightarrow> ChainReader \<Rightarrow> Clique \<Rightarrow> u64 \<Rightarrow> hash \<Rightarrow> Header list \<Rightarrow>
    ((clique_error + Snapshot) \<times> Clique) option" where
  "snapshot cr ev chain c number hash parents =
    (case snapshot_search (unat number + 2) cr ev chain c number hash parents [] of None \<Rightarrow> None
     | Some (Inl e) \<Rightarrow> Some (Inl e, c)
     | Some (Inr (snap, headers, c)) \<Rightarrow>
       Some (case apply_headers cr snap (rev headers) of Inl e \<Rightarrow> (Inl e, c)
             | Inr snap \<Rightarrow>
               (let c = c\<lparr>cRecents := (\<lambda>h. if evict ev h then None else cRecents c h)(sHash snap \<mapsto> snap)\<rparr> in
                if sNumber snap mod checkpointInterval = 0 \<and> 0 < length headers then
                  (case store_snapshot ev c snap of Inl e \<Rightarrow> (Inl e, c) | Inr c' \<Rightarrow> (Inr snap, c'))
                else (Inr snap, c))))"

definition SignersAt ::
  "crypto \<Rightarrow> env \<Rightarrow> ChainReader \<Rightarrow> Clique \<Rightarrow> Header \<Rightarrow> ((clique_error + address list) \<times> Clique) option" where
  "SignersAt cr ev chain c header =
    map_option (\<lambda>(r, c'). (map_sum id signers_list r, c'))
      (snapshot cr ev chain c (number_of header) (Hash cr header) [])"

section \<open>Verification\<close>

definition verifySeal :: "crypto \<Rightarrow> bool \<Rightarrow> Snapshot \<Rightarrow> Header \<Rightarrow> clique_error option" where
  "verifySeal cr fake snap header =
    (let number = number_of header in
     if number = 0 then Some errUnknownBlock
     else (case ecrecover cr header of Inl e \<Rightarrow> Some e
           | Inr signer \<Rightarrow>
             if signer \<notin> Signers snap then Some errUnauthorizedSigner
             else if list_ex (\<lambda>(seen, recent). recent = signer \<and> seen > number - recent_limit (Signers snap))
                       (Recents snap)
               then Some errRecentlySigned
             else if \<not> fake then
               (let is_inturn = inturn snap number signer in
                if is_inturn \<and> the (Difficulty header) \<noteq> diffInTurn then Some errWrongDifficulty
                else if \<not> is_inturn \<and> the (Difficulty header) \<noteq> diffNoTurn then Some errWrongDifficulty
                else None)
             else None))"

text \<open>The fee checks of \<open>verifyCascadingFields\<close>.\<close>

definition verify_fees :: "ChainConfig \<Rightarrow> Header \<Rightarrow> Header \<Rightarrow> clique_error option" where
  "verify_fees config parent header =
    (if GasUsed header > GasLimit header then Some (errInvalidGasUsed (GasUsed header) (GasLimit header))
     else if \<not> IsLondon config (Number header) then
       (if BaseFee header \<noteq> None then Some (errInvalidBaseFee (the (BaseFee header)))
        else map_option errFee (VerifyGaslimit (GasLimit parent) (GasLimit header)))
     else map_option errFee (VerifyEip1559Header config parent header))"

definition verifyCascadingFields ::
  "crypto \<Rightarrow> env \<Rightarrow> ChainReader \<Rightarrow> Clique \<Rightarrow> Header \<Rightarrow> Header list \<Rightarrow> (clique_error option \<times> Clique) option" where
  "verifyCascadingFields cr ev chain c header parents =
    (let number = number_of header in
     if number = 0 then Some (None, c)
     else
       (case (if 0 < length parents then Some (last parents) else GetHeader chain (ParentHash header) (number - 1)) of
          None \<Rightarrow> Some (Some ErrUnknownAncestor, c)
        | Some parent \<Rightarrow>
          if number_of parent \<noteq> number - 1 \<or> Hash cr parent \<noteq> ParentHash header then Some (Some ErrUnknownAncestor, c)
          else if Time parent + Period (cConfig c) > Time header then Some (Some errInvalidTimestamp, c)
          else (case verify_fees (chainConfig chain) parent header of Some e \<Rightarrow> Some (Some e, c)
                | None \<Rightarrow>
                  (case snapshot cr ev chain c (number - 1) (ParentHash header) parents of None \<Rightarrow> None
                   | Some (Inl e, c) \<Rightarrow> Some (Some e, c)
                   | Some (Inr snap, c) \<Rightarrow>
                     Some (
                       if isBreakGlassExtra (Extra header) then
                         (case breakGlassOverrideOf cr (cBreakGlass c) header of Inl e \<Rightarrow> (Some e, c)
                          | Inr ov \<Rightarrow>
                            (verifyBreakGlassSeal cr (fakeDiff c) header (case ov of None \<Rightarrow> [] | Some l \<Rightarrow> l), c))
                       else if number mod Epoch (cConfig c) = 0 \<and>
                          slice (Extra header) extraVanity (length (Extra header) - extraSeal)
                            \<noteq> concat (map address_bytes (signers_list snap))
                         then (Some errMismatchingCheckpointSigners, c)
                       else (verifySeal cr (fakeDiff c) snap header, c))))))"

text \<open>The stand-alone checks of \<open>verifyHeader\<close>, in order.\<close>

definition verify_standalone :: "crypto \<Rightarrow> env \<Rightarrow> ChainConfig \<Rightarrow> Clique \<Rightarrow> Header \<Rightarrow> clique_error option" where
  "verify_standalone cr ev config c header =
    (let number = number_of header;
         checkpoint = (number mod Epoch (cConfig c) = 0);
         signersBytes = length (Extra header) - extraVanity - extraSeal;
         breakGlass = isBreakGlassExtra (Extra header)
     in if Time header > now ev then Some ErrFutureBlock
        else if checkpoint \<and> Coinbase header \<noteq> 0 then Some errInvalidCheckpointBeneficiary
        else if Nonce header \<noteq> nonceAuthVote \<and> Nonce header \<noteq> nonceDropVote then Some errInvalidVote
        else if checkpoint \<and> Nonce header \<noteq> nonceDropVote then Some errInvalidCheckpointVote
        else if length (Extra header) < extraVanity then Some errMissingVanity
        else if length (Extra header) < extraVanity + extraSeal then Some errMissingSignature
        else if \<not> checkpoint \<and> signersBytes \<noteq> 0 \<and> \<not> breakGlass then Some errExtraSigners
        else
          (case (if checkpoint \<or> breakGlass
                 then (case parseCheckpointExtra (Extra header) of Inl e \<Rightarrow> Some e | Inr _ \<Rightarrow> None)
                 else None) of
             Some e \<Rightarrow> Some e
           | None \<Rightarrow>
             if breakGlass \<and> (Coinbase header \<noteq> 0 \<or> Nonce header \<noteq> nonceDropVote) then Some errBreakGlassVote
             else if MixDigest header \<noteq> 0 then Some errInvalidMixDigest
             else if UncleHash header \<noteq> EmptyUncleHash cr then Some errInvalidUncleHash
             else if number > 0 \<and> (Difficulty header = None \<or>
                     (the (Difficulty header) \<noteq> diffInTurn \<and> the (Difficulty header) \<noteq> diffNoTurn))
               then Some errInvalidDifficulty
             else if GasLimit header > MaxGasLimit then Some (errInvalidGasLimit (GasLimit header) MaxGasLimit)
             else map_option (\<lambda>(have_hash, want). errForkHash have_hash want) (VerifyForkHashes cr config header False)))"

definition verifyHeader ::
  "crypto \<Rightarrow> env \<Rightarrow> ChainReader \<Rightarrow> Clique \<Rightarrow> Header \<Rightarrow> Header list \<Rightarrow> (clique_error option \<times> Clique) option" where
  "verifyHeader cr ev chain c header parents =
    (if Number header = None then Some (Some errUnknownBlock, c)
     else (case verify_standalone cr ev (chainConfig chain) c header of Some e \<Rightarrow> Some (Some e, c)
           | None \<Rightarrow> verifyCascadingFields cr ev chain c header parents))"

definition VerifyHeader ::
  "crypto \<Rightarrow> env \<Rightarrow> ChainReader \<Rightarrow> Clique \<Rightarrow> Header \<Rightarrow> (clique_error option \<times> Clique) option" where
  "VerifyHeader cr ev chain c header = verifyHeader cr ev chain c header []"

text \<open>
  \<open>VerifyHeadersWithAncestors\<close> (and \<open>VerifyHeaders\<close> with no ancestors): the result of every header
  of the batch, each verified on the batch before it.
\<close>

fun VerifyHeadersWithAncestors ::
  "crypto \<Rightarrow> env \<Rightarrow> ChainReader \<Rightarrow> Clique \<Rightarrow> Header list \<Rightarrow> Header list \<Rightarrow> (clique_error option list \<times> Clique) option" where
  "VerifyHeadersWithAncestors cr ev chain c [] ancestors = Some ([], c)"
| "VerifyHeadersWithAncestors cr ev chain c (header # headers) ancestors =
    (case verifyHeader cr ev chain c header ancestors of None \<Rightarrow> None
     | Some (r, c) \<Rightarrow>
       (case VerifyHeadersWithAncestors cr ev chain c headers (ancestors @ [header]) of None \<Rightarrow> None
        | Some (rs, c) \<Rightarrow> Some (r # rs, c)))"

definition Clique_VerifyUncles :: "Header list \<Rightarrow> clique_error option" where
  "Clique_VerifyUncles uncles = (if 0 < length uncles then Some errUncles else None)"

section \<open>Production\<close>

definition calcDifficulty :: "Snapshot \<Rightarrow> address \<Rightarrow> int" where
  "calcDifficulty snap signer = (if inturn snap (sNumber snap + 1) signer then diffInTurn else diffNoTurn)"

definition Clique_CalcDifficulty ::
  "crypto \<Rightarrow> env \<Rightarrow> ChainReader \<Rightarrow> Clique \<Rightarrow> Header \<Rightarrow> (int option \<times> Clique) option" where
  "Clique_CalcDifficulty cr ev chain c parent =
    map_option (\<lambda>(r, c'). (case r of Inl _ \<Rightarrow> None | Inr snap \<Rightarrow> Some (calcDifficulty snap (cSigner c)), c'))
      (snapshot cr ev chain c (number_of parent) (Hash cr parent) [])"

text \<open>The vote a prepared header casts: a random proposal that makes sense on the snapshot.\<close>

definition prepare_vote :: "env \<Rightarrow> Clique \<Rightarrow> Snapshot \<Rightarrow> Header \<Rightarrow> Header" where
  "prepare_vote ev c snap header =
    (let addresses = map fst (filter (\<lambda>(address, authorize). validVote snap address authorize) (proposals c)) in
     if 0 < length addresses then
       (let address = addresses ! rnd ev (length addresses) in
        header\<lparr>Coinbase := address,
               Nonce := (if map_of (proposals c) address = Some True then nonceAuthVote else nonceDropVote)\<rparr>)
     else header)"

definition pad_vanity :: "bytes \<Rightarrow> bytes" where
  "pad_vanity extra =
    take extraVanity (if length extra < extraVanity then extra @ replicate (extraVanity - length extra) 0 else extra)"

definition prepare_header ::
  "crypto \<Rightarrow> env \<Rightarrow> Clique \<Rightarrow> Snapshot \<Rightarrow> Header \<Rightarrow> Header \<times> Clique" where
  "prepare_header cr ev c snap header =
    (let number = number_of header;
         pending = bgPending c;
         embed = (pending \<noteq> None \<and> ovNumber (the pending) = number \<and> ovParentHash (the pending) = ParentHash header);
         header = (if number mod Epoch (cConfig c) \<noteq> 0 \<and> \<not> embed then prepare_vote ev c snap header else header);
         header = header\<lparr>Difficulty := Some (if embed then calcDifficultyAmong (ovSigners (the pending)) number (cSigner c)
                                             else calcDifficulty snap (cSigner c))\<rparr>;
         header = header\<lparr>Extra := pad_vanity (Extra header)\<rparr>;
         header = (if embed then header\<lparr>Extra := Extra header @ encodeBreakGlassPayload (ovSigners (the pending)) (ovSignatures (the pending))\<rparr>
                   else if number mod Epoch (cConfig c) = 0
                     then header\<lparr>Extra := Extra header @ concat (map address_bytes (signers_list snap))\<rparr>
                   else header);
         c = (if pending \<noteq> None \<and> \<not> embed \<and> number > ovNumber (the pending) then c\<lparr>bgPending := None\<rparr> else c);
         header = header\<lparr>Extra := Extra header @ replicate extraSeal 0\<rparr>;
         header = header\<lparr>MixDigest := 0\<rparr>
     in (header, c))"

definition Prepare ::
  "crypto \<Rightarrow> env \<Rightarrow> ChainReader \<Rightarrow> Clique \<Rightarrow> Header \<Rightarrow> ((clique_error + Header) \<times> Clique) option" where
  "Prepare cr ev chain c header =
    (let header = header\<lparr>Coinbase := 0, Nonce := 0\<rparr>;
         number = number_of header
     in case snapshot cr ev chain c (number - 1) (ParentHash header) [] of None \<Rightarrow> None
        | Some (Inl e, c) \<Rightarrow> Some (Inl e, c)
        | Some (Inr snap, c) \<Rightarrow>
          (let (header, c) = prepare_header cr ev c snap header in
           Some (case GetHeader chain (ParentHash header) (number - 1) of
                   None \<Rightarrow> (Inl ErrUnknownAncestor, c)
                 | Some parent \<Rightarrow>
                     (let t = Time parent + Period (cConfig c) in
                      (Inr (header\<lparr>Time := (if t < now ev then now ev else t)\<rparr>), c)))))"

definition Clique_Finalize :: "crypto \<Rightarrow> hash \<Rightarrow> Header \<Rightarrow> Header" where
  "Clique_Finalize cr root header = header\<lparr>Root := root, UncleHash := EmptyUncleHash cr\<rparr>"

text \<open>\<open>copy\<close> over the last 65 bytes of the extra-data.\<close>

definition fill_seal :: "bytes \<Rightarrow> bytes \<Rightarrow> bytes" where
  "fill_seal extra sig =
    (let p = length extra - extraSeal; s = take extraSeal sig in take p extra @ s @ drop (p + length s) extra)"

datatype seal_outcome = SealRefused clique_error | SealWait | Sealed Header int

text \<open>\<open>time.Time.Sub\<close> saturates at the ends of the signed 64-bit range.\<close>

definition saturate63 :: "int \<Rightarrow> int" where
  "saturate63 d = max (- (2 ^ 63)) (min (2 ^ 63 - 1) d)"

text \<open>\<open>Seal\<close> up to the wait: the sealed header and the delay in nanoseconds before it is released.\<close>

definition Seal ::
  "crypto \<Rightarrow> env \<Rightarrow> ChainReader \<Rightarrow> Clique \<Rightarrow> Header \<Rightarrow> nat \<Rightarrow> (seal_outcome \<times> Clique) option" where
  "Seal cr ev chain c header txs =
    (let number = number_of header in
     if number = 0 then Some (SealRefused errUnknownBlock, c)
     else if Period (cConfig c) = 0 \<and> txs = 0 then Some (SealRefused errSealNoTransactions, c)
     else (case snapshot cr ev chain c (number - 1) (ParentHash header) [] of None \<Rightarrow> None
           | Some (Inl e, c) \<Rightarrow> Some (SealRefused e, c)
           | Some (Inr snap, c) \<Rightarrow>
             (let signer = cSigner c;
                  refusal =
                    (if isBreakGlassExtra (Extra header) then
                       (case breakGlassOverrideOf cr (cBreakGlass c) header of Inl e \<Rightarrow> Some (SealRefused e)
                        | Inr ov \<Rightarrow>
                          if \<not> containsAddress (case ov of None \<Rightarrow> [] | Some l \<Rightarrow> l) signer
                          then Some (SealRefused errBreakGlassUnauthorizedSealer) else None)
                     else if signer \<notin> Signers snap then Some (SealRefused errUnauthorizedSigner)
                     else if list_ex (\<lambda>(seen, recent). recent = signer \<and>
                               (number < recent_limit (Signers snap) \<or> seen > number - recent_limit (Signers snap)))
                               (Recents snap)
                       then Some SealWait
                     else None);
                  delay = saturate63 (sint (Time header) * 1000000000 - now_ns ev);
                  delay = (if the (Difficulty header) = diffNoTurn
                           then delay + int (rnd ev ((card (Signers snap) div 2 + 1) * 500000000)) else delay)
              in case refusal of Some r \<Rightarrow> Some (r, c)
                 | None \<Rightarrow>
                   (case encodeSigHeader header of None \<Rightarrow> Some (SealRefused errPanic, c)
                    | Some msg \<Rightarrow>
                      (case cSignFn c signer msg of None \<Rightarrow> Some (SealRefused errSignFn, c)
                       | Some sighash \<Rightarrow>
                           Some (Sealed (header\<lparr>Extra := fill_seal (Extra header) sighash\<rparr>) delay, c))))))"

section \<open>RPC calls\<close>

definition LatestBlockNumber :: int where "LatestBlockNumber = -1"

definition api_header :: "ChainReader \<Rightarrow> int option \<Rightarrow> Header option" where
  "api_header chain number =
    (if number = None \<or> number = Some LatestBlockNumber then Some (CurrentHeader chain)
     else GetHeaderByNumber chain (word_of_int (the number)))"

definition GetSnapshot ::
  "crypto \<Rightarrow> env \<Rightarrow> ChainReader \<Rightarrow> Clique \<Rightarrow> int option \<Rightarrow> ((clique_error + Snapshot) \<times> Clique) option" where
  "GetSnapshot cr ev chain c number =
    (case api_header chain number of None \<Rightarrow> Some (Inl errUnknownBlock, c)
     | Some header \<Rightarrow> snapshot cr ev chain c (number_of header) (Hash cr header) [])"

definition GetSnapshotAtHash ::
  "crypto \<Rightarrow> env \<Rightarrow> ChainReader \<Rightarrow> Clique \<Rightarrow> hash \<Rightarrow> ((clique_error + Snapshot) \<times> Clique) option" where
  "GetSnapshotAtHash cr ev chain c hash =
    (case GetHeaderByHash chain hash of None \<Rightarrow> Some (Inl errUnknownBlock, c)
     | Some header \<Rightarrow> snapshot cr ev chain c (number_of header) (Hash cr header) [])"

definition GetSigners ::
  "crypto \<Rightarrow> env \<Rightarrow> ChainReader \<Rightarrow> Clique \<Rightarrow> int option \<Rightarrow> ((clique_error + address list) \<times> Clique) option" where
  "GetSigners cr ev chain c number =
    map_option (\<lambda>(r, c'). (map_sum id signers_list r, c')) (GetSnapshot cr ev chain c number)"

definition GetSignersAtHash ::
  "crypto \<Rightarrow> env \<Rightarrow> ChainReader \<Rightarrow> Clique \<Rightarrow> hash \<Rightarrow> ((clique_error + address list) \<times> Clique) option" where
  "GetSignersAtHash cr ev chain c hash =
    map_option (\<lambda>(r, c'). (map_sum id signers_list r, c')) (GetSnapshotAtHash cr ev chain c hash)"

text \<open>
  \<open>Status\<close> counts the in-turn blocks and the blocks of every sealer in \<open>[start, end)\<close>; the quotient of
  the first by the number of blocks is a float and left to the caller.
\<close>

record status =
  optimals :: nat
  SigningStatus :: "(address \<times> nat) list"
  NumBlocks :: u64

datatype status_error = Status_snapshot clique_error | Status_missing_block u64 | Status_author clique_error

definition status_block ::
  "crypto \<Rightarrow> ChainReader \<Rightarrow> nat \<times> (address \<times> nat) list \<Rightarrow> u64 \<Rightarrow> status_error + nat \<times> (address \<times> nat) list" where
  "status_block cr chain acc n =
    (case GetHeaderByNumber chain n of None \<Rightarrow> Inl (Status_missing_block n)
     | Some h \<Rightarrow>
       (case Author cr h of Inl e \<Rightarrow> Inl (Status_author e)
        | Inr sealer \<Rightarrow>
            Inr (fst acc + (if the (Difficulty h) = diffInTurn then 1 else 0),
                 map_put sealer ((case map_of (snd acc) sealer of None \<Rightarrow> 0 | Some k \<Rightarrow> k) + 1) (snd acc))))"

definition Status ::
  "crypto \<Rightarrow> env \<Rightarrow> ChainReader \<Rightarrow> Clique \<Rightarrow> ((status_error + status) \<times> Clique) option" where
  "Status cr ev chain c =
    (let header = CurrentHeader chain in
     case snapshot cr ev chain c (number_of header) (Hash cr header) [] of None \<Rightarrow> None
     | Some (Inl e, c) \<Rightarrow> Some (Inl (Status_snapshot e), c)
     | Some (Inr snap, c) \<Rightarrow>
       (let finish = number_of header;
            start = (if (64 :: u64) > finish then 1 else finish - 64);
            numBlocks = (if (64 :: u64) > finish then finish - start else 64);
            signStatus = map (\<lambda>s. (s, 0)) (signers_list snap)
        in Some (map_sum id (\<lambda>(optimals, st). \<lparr>optimals = optimals, SigningStatus = st, NumBlocks = numBlocks\<rparr>)
             (run_res (status_block cr chain) (0, signStatus) (map word_of_nat [unat start ..< unat finish])), c)))"

section \<open>Snapshot retrieval returns\<close>

lemma unat_minus_1: "x \<noteq> 0 \<Longrightarrow> unat (x - 1 :: u64) = unat x - 1"
  by (metis unat_minus_one)

lemma bootstrap_step_None:
  "cBootstrap c = Some b \<Longrightarrow> bootstrap_step ev c number hash = None \<longleftrightarrow> Anchor b < number"
  by (auto simp: bootstrap_step_def)

lemma checkpoint_step_zero: "GetHeaderByNumber chain 0 \<noteq> None \<Longrightarrow> checkpoint_step cr ev chain c 0 k \<noteq> None"
  by (auto simp: checkpoint_step_def)

lemma snapshot_search_returns:
  assumes "cBootstrap c \<noteq> None \<or> GetHeaderByNumber chain 0 \<noteq> None" and "unat number < fuel"
  shows "snapshot_search fuel cr ev chain c number hash parents headers \<noteq> None"
  using assms(2)
proof (induction fuel arbitrary: number hash parents headers)
  case (Suc fuel)
  show ?case
  proof (cases "bootstrap_step ev c number hash = None \<and> checkpoint_step cr ev chain c number (length headers) = None")
    case True
    have "number \<noteq> 0"
    proof
      assume "number = 0"
      with True assms(1) show False
        by (cases "cBootstrap c") (auto simp: bootstrap_step_None checkpoint_step_zero)
    qed
    then have "0 < unat number" by (simp add: unat_gt_0)
    with Suc.prems \<open>number \<noteq> 0\<close> have "unat (number - 1) < fuel" by (simp add: unat_minus_1)
    from Suc.IH [OF this] True show ?thesis by (simp split: option.split prod.split)
  next
    case False
    then show ?thesis by (auto split: option.split)
  qed
qed simp

declare snapshot_search.simps [simp del]

text \<open>
  C22. Snapshot retrieval always returns: for an engine bootstrapped at an anchor, or on a chain
  whose genesis header is available, the walk back from any block ends within its number of
  steps, whatever the caches, the database and the explicit parents hold.
\<close>

theorem snapshot_returns:
  assumes "cBootstrap c \<noteq> None \<or> GetHeaderByNumber chain 0 \<noteq> None"
  shows "\<exists>r. snapshot cr ev chain c number hash parents = Some r"
proof -
  from snapshot_search_returns [OF assms, of number "unat number + 2"] obtain x
    where x: "snapshot_search (unat number + 2) cr ev chain c number hash parents [] = Some x" by fastforce
  show ?thesis unfolding snapshot_def x by (cases x) (simp_all add: split_beta)
qed

section \<open>Snapshots do not depend on caches\<close>

text \<open>
  The snapshot at a block as the protocol defines it: the configured signers at the anchor, and
  one application of \<open>Snapshot.apply\<close> per header above it. \<open>H\<close> is the set of all headers in play, on every
  branch of the chain.
\<close>

inductive snap_at ::
  "crypto \<Rightarrow> CliqueConfig \<Rightarrow> BreakGlassConfig option \<Rightarrow> Bootstrap \<Rightarrow> Header set \<Rightarrow> hash \<Rightarrow> Snapshot \<Rightarrow> bool"
  for cr conf bg b H where
  anchor: "hdr \<in> H \<Longrightarrow> number_of hdr = Anchor b \<Longrightarrow>
    snap_at cr conf bg b H (Hash cr hdr) (newSnapshot conf bg (Anchor b) (Hash cr hdr) (bsSigners b))"
| extend: "snap_at cr conf bg b H (ParentHash hdr) s \<Longrightarrow> hdr \<in> H \<Longrightarrow> Anchor b < number_of hdr \<Longrightarrow>
    apply_headers cr s [hdr] = Inr s' \<Longrightarrow> snap_at cr conf bg b H (Hash cr hdr) s'"

definition known_headers :: "crypto \<Rightarrow> Bootstrap \<Rightarrow> Header set \<Rightarrow> bool" where
  "known_headers cr b H \<longleftrightarrow> inj_on (Hash cr) H \<and>
    (\<forall>hdr \<in> H. Anchor b < number_of hdr \<longrightarrow> (\<exists>p \<in> H. Hash cr p = ParentHash hdr \<and> number_of p = number_of hdr - 1))"

definition reads :: "crypto \<Rightarrow> Header set \<Rightarrow> ChainReader \<Rightarrow> bool" where
  "reads cr H chain \<longleftrightarrow>
    (\<forall>h n hdr. GetHeader chain h n = Some hdr \<longrightarrow> hdr \<in> H \<and> Hash cr hdr = h \<and> number_of hdr = n)"

definition caches_ok :: "crypto \<Rightarrow> Bootstrap \<Rightarrow> Header set \<Rightarrow> Clique \<Rightarrow> bool" where
  "caches_ok cr b H c \<longleftrightarrow>
    (\<forall>h s. cRecents c h = Some s \<or> cDb c h = Some s \<longrightarrow> snap_at cr (cConfig c) (cBreakGlass c) b H h s)"

text \<open>
  The walk takes no trusted-checkpoint shortcut when it meets the anchor or a block with a stored
  snapshot within the immutability threshold and the canonical chain, at every epoch block in
  between that it holds, holds the block below as well. Blocks above the head of the database, as
  in a batch that is being imported, satisfy this: the canonical chain does not hold them.
\<close>

definition warm :: "crypto \<Rightarrow> Header set \<Rightarrow> Clique \<Rightarrow> u64 \<Rightarrow> bool" where
  "warm cr H c m \<longleftrightarrow> (\<forall>hdr \<in> H. number_of hdr = m \<longrightarrow>
    cRecents c (Hash cr hdr) \<noteq> None \<or> m mod checkpointInterval = 0 \<and> cDb c (Hash cr hdr) \<noteq> None)"

definition no_gap :: "ChainReader \<Rightarrow> u64 \<Rightarrow> u64 \<Rightarrow> bool" where
  "no_gap chain epoch n \<longleftrightarrow>
    (n mod epoch = 0 \<longrightarrow> GetHeaderByNumber chain n = None \<or> GetHeaderByNumber chain (n - 1) \<noteq> None)"

definition no_shortcut :: "crypto \<Rightarrow> Bootstrap \<Rightarrow> Header set \<Rightarrow> ChainReader \<Rightarrow> Clique \<Rightarrow> u64 \<Rightarrow> bool" where
  "no_shortcut cr b H chain c number \<longleftrightarrow>
    (\<exists>m. Anchor b \<le> m \<and> m \<le> number \<and> (m = Anchor b \<or> warm cr H c m) \<and>
       unat number - unat m \<le> FullImmutabilityThreshold \<and>
       (\<forall>n. m < n \<and> n \<le> number \<longrightarrow> no_gap chain (Epoch (cConfig c)) n))"

lemma apply_headers_snoc:
  assumes "apply_headers cr s (xs @ [x]) = Inr u"
  shows "\<exists>t. apply_headers cr s xs = Inr t \<and> apply_headers cr t [x] = Inr u"
proof (cases "xs = []")
  case True
  with assms show ?thesis by (auto simp: apply_headers_def)
next
  case False
  from assms False obtain v w where v: "contiguous xs" "number_of x = number_of (last xs) + 1"
    "number_of (hd xs) = sNumber s + 1" "run_res (apply_header cr) s xs = Inr v" "apply_header cr v x = Inr w"
    "u = restamp (sNumber s + word_of_nat (length (xs @ [x]))) (Hash cr x) w"
    by (auto simp: apply_headers_iff contiguous_append run_res_snoc_Inr)
  let ?t = "restamp (sNumber s + word_of_nat (length xs)) (Hash cr (last xs)) v"
  have last: "number_of (last xs) = sNumber s + word_of_nat (length xs)"
    using contiguous_last [OF False v(1)] v(3) False by (cases xs) simp_all
  have "apply_headers cr s xs = Inr ?t" using False v by (auto simp: apply_headers_iff)
  moreover have "apply_headers cr ?t [x] = Inr u"
    unfolding apply_headers_iff run_restamp using v last by (auto simp: apply_header_restamp add.assoc)
  ultimately show ?thesis by blast
qed

lemma snap_at_unique:
  assumes "snap_at cr conf bg b H h s" and "snap_at cr conf bg b H h s'" and "inj_on (Hash cr) H"
  shows "s = s'"
  using assms(1,2)
proof (induction arbitrary: s' rule: snap_at.induct)
  case (anchor x)
  from anchor(3) show ?case
  proof (cases rule: snap_at.cases)
    case (extend y t)
    from inj_onD [OF assms(3) extend(1) anchor(1) extend(3)] have "y = x" by simp
    with extend(4) anchor(2) show ?thesis by simp
  qed simp
next
  case (extend x s t)
  note x = extend
  from x(6) show ?case
  proof (cases rule: snap_at.cases)
    case (anchor y)
    from inj_onD [OF assms(3) anchor(1) x(2) anchor(3)] have "y = x" by simp
    with anchor(4) x(3) show ?thesis by simp
  next
    case (extend y u)
    from inj_onD [OF assms(3) extend(1) x(2) extend(3)] have y: "y = x" by simp
    from x(5) extend(2) y have "s = u" by simp
    with extend(5) x(4) y show ?thesis by simp
  qed
qed

lemma snap_at_fields:
  "snap_at cr conf bg b H h s \<Longrightarrow> sConfig s = conf \<and> sBreakGlass s = bg \<and> sHash s = h \<and>
    (\<exists>hdr \<in> H. Hash cr hdr = h \<and> sNumber s = number_of hdr)"
proof (induction rule: snap_at.induct)
  case (extend hdr s s')
  then show ?case by (auto simp: apply_headers_iff restamp_def dest: apply_header_fields split: sum.splits)
qed (auto simp: newSnapshot_def)

lemma snap_at_ok: "snap_at cr conf bg b H h s \<Longrightarrow> snap_ok s"
proof (induction rule: snap_at.induct)
  case (extend x s s')
  then obtain u where "apply_header cr s x = Inr u" and s': "s' = restamp (sNumber s + 1) (Hash cr x) u"
    by (auto simp: apply_headers_iff split: sum.splits)
  with extend.IH have "snap_ok u" by (auto intro: apply_header_ok)
  then show ?case by (simp add: s' snap_ok_def)
qed (rule newSnapshot_ok)

text \<open>The headers gathered by the walk, newest first, from the hash it starts at down to \<open>h0\<close>.\<close>

fun linked :: "crypto \<Rightarrow> Bootstrap \<Rightarrow> Header set \<Rightarrow> hash \<Rightarrow> Header list \<Rightarrow> hash \<Rightarrow> bool" where
  "linked cr b H h [] h0 \<longleftrightarrow> h = h0"
| "linked cr b H h (x # xs) h0 \<longleftrightarrow>
    x \<in> H \<and> Hash cr x = h \<and> Anchor b < number_of x \<and> linked cr b H (ParentHash x) xs h0"

lemma linked_snoc:
  "linked cr b H h (xs @ [x]) h0 \<longleftrightarrow>
    linked cr b H h xs (Hash cr x) \<and> x \<in> H \<and> Anchor b < number_of x \<and> ParentHash x = h0"
  by (induction xs arbitrary: h) auto

lemma snap_at_linked:
  assumes "snap_at cr conf bg b H h0 s" and "linked cr b H h hs h0" and "apply_headers cr s (rev hs) = Inr s'"
  shows "snap_at cr conf bg b H h s'"
  using assms(2,3)
proof (induction hs arbitrary: h s')
  case Nil
  with assms(1) show ?case by (simp add: apply_headers_def)
next
  case (Cons x xs)
  from Cons.prems(2) have "apply_headers cr s (rev xs @ [x]) = Inr s'" by simp
  then obtain t where t: "apply_headers cr s (rev xs) = Inr t" "apply_headers cr t [x] = Inr s'"
    using apply_headers_snoc by blast
  from Cons.prems(1) have x: "x \<in> H" "Hash cr x = h" "Anchor b < number_of x" "linked cr b H (ParentHash x) xs h0"
    by simp_all
  from snap_at.extend [OF Cons.IH [OF x(4) t(1)] x(1,3) t(2)] x(2) show ?case by simp
qed

lemma next_header_known:
  assumes "next_header cr chain n (Hash cr x) ps = Some (y, ps')" and "reads cr H chain" and "set ps \<subseteq> H"
  shows "y \<in> H \<and> Hash cr y = Hash cr x \<and> set ps' \<subseteq> H"
  using assms by (auto simp: next_header_def reads_def Let_def in_set_butlastD split: if_splits)

lemma caches_ok_load:
  assumes "caches_ok cr b H c" and "loadSnapshot c h = Some s"
  shows "snap_at cr (cConfig c) (cBreakGlass c) b H h s"
proof -
  from assms obtain t where t: "cDb c h = Some t" "s = t\<lparr>sConfig := cConfig c, sBreakGlass := cBreakGlass c\<rparr>"
    by (auto simp: loadSnapshot_def)
  with assms have at: "snap_at cr (cConfig c) (cBreakGlass c) b H h t" by (simp add: caches_ok_def)
  have "s = t" using snap_at_fields [OF at] t(2) by (cases t) simp
  with at show ?thesis by simp
qed

lemma caches_ok_store:
  assumes "caches_ok cr b H c" and "snap_at cr (cConfig c) (cBreakGlass c) b H (sHash s) s" and "store_snapshot ev c s = Inr c'"
  shows "caches_ok cr b H c' \<and> cConfig c' = cConfig c \<and> cBreakGlass c' = cBreakGlass c \<and> cRecents c' = cRecents c"
  using assms by (auto simp: caches_ok_def store_snapshot_def split: if_splits)

definition same_setup :: "Clique \<Rightarrow> Clique \<Rightarrow> bool" where
  "same_setup c c' \<longleftrightarrow> cConfig c' = cConfig c \<and> cBreakGlass c' = cBreakGlass c \<and> cBootstrap c' = cBootstrap c \<and>
     cSigner c' = cSigner c \<and> cSignFn c' = cSignFn c \<and> bgPending c' = bgPending c \<and> proposals c' = proposals c \<and>
     fakeDiff c' = fakeDiff c"

lemma seed_snapshot_sound:
  assumes "seed_snapshot ev c s = Inr (s', c')" and "caches_ok cr b H c"
    and "snap_at cr (cConfig c) (cBreakGlass c) b H (sHash s) s"
  shows "s' = s \<and> caches_ok cr b H c' \<and> same_setup c c'"
  using assms by (auto simp: seed_snapshot_def store_snapshot_def caches_ok_def same_setup_def split: if_splits)

lemma no_checkpoint_step:
  assumes "n \<noteq> 0" and "k \<le> FullImmutabilityThreshold" and "no_gap chain (Epoch (cConfig c)) n"
  shows "checkpoint_step cr ev chain c n k = None"
  using assms by (auto simp: checkpoint_step_def no_gap_def split: option.splits)

lemma map_sum_Inr_iff: "map_sum id f r = Inr y \<longleftrightarrow> (\<exists>z. r = Inr z \<and> f z = y)"
  by (cases r) auto

lemma snapshot_search_sound:
  assumes boot: "cBootstrap c = Some b" and known: "known_headers cr b H" and reads: "reads cr H chain"
    and caches: "caches_ok cr b H c" and m: "Anchor b \<le> m" "m = Anchor b \<or> warm cr H c m"
    and gap: "\<forall>n. m < n \<and> n \<le> hi \<longrightarrow> no_gap chain (Epoch (cConfig c)) n"
    and "snapshot_search fuel cr ev chain c (number_of x) (Hash cr x) ps hs = Some (Inr (s, hs', c'))"
    and "x \<in> H" and "m \<le> number_of x" and "number_of x \<le> hi" and "set ps \<subseteq> H"
    and "length hs + (unat (number_of x) - unat m) \<le> FullImmutabilityThreshold"
    and "linked cr b H h hs (Hash cr x)"
  shows "(\<exists>h0. snap_at cr (cConfig c) (cBreakGlass c) b H h0 s \<and> linked cr b H h hs' h0) \<and>
    caches_ok cr b H c' \<and> same_setup c c'"
  using assms(8-)
proof (induction fuel arbitrary: x ps hs)
  case 0
  then show ?case by (simp add: snapshot_search.simps)
next
  case (Suc fuel)
  let ?n = "number_of x" and ?at = "snap_at cr (cConfig c) (cBreakGlass c) b H"
  note run = Suc.prems(1) [unfolded snapshot_search.simps(2)]
  have refl: "same_setup c c" by (simp add: same_setup_def)
  consider (cache) t where "cRecents c (Hash cr x) = Some t"
    | (disk) t where "cRecents c (Hash cr x) = None" "?n mod checkpointInterval = 0" "loadSnapshot c (Hash cr x) = Some t"
    | (anchor) "?n = Anchor b" "cRecents c (Hash cr x) = None" "\<not> (?n mod checkpointInterval = 0 \<and> loadSnapshot c (Hash cr x) \<noteq> None)"
    | (walk) "m < ?n" "cRecents c (Hash cr x) = None" "\<not> (?n mod checkpointInterval = 0 \<and> loadSnapshot c (Hash cr x) \<noteq> None)"
  proof -
    have "?n = m \<longrightarrow> m \<noteq> Anchor b \<longrightarrow> cRecents c (Hash cr x) \<noteq> None \<or>
        ?n mod checkpointInterval = 0 \<and> loadSnapshot c (Hash cr x) \<noteq> None"
      using m(2) Suc.prems(2) by (auto simp: warm_def loadSnapshot_def)
    with Suc.prems(3) have "cRecents c (Hash cr x) = None \<Longrightarrow>
        \<not> (?n mod checkpointInterval = 0 \<and> loadSnapshot c (Hash cr x) \<noteq> None) \<Longrightarrow> ?n = Anchor b \<or> m < ?n"
      by (auto simp: order_le_less)
    with that show thesis by (metis not_None_eq)
  qed
  then show ?case
  proof cases
    case cache
    with run Suc.prems(7) caches refl show ?thesis by (auto simp: caches_ok_def)
  next
    case disk
    with run Suc.prems(7) caches refl caches_ok_load [OF caches disk(3)] show ?thesis by auto
  next
    case anchor
    let ?s = "newSnapshot (cConfig c) (cBreakGlass c) ?n (Hash cr x) (bsSigners b)"
    from anchor run have sd: "seed_snapshot ev c ?s = Inr (s, c')" and hs': "hs' = hs"
      by (auto simp: bootstrap_step_def boot map_sum_Inr_iff split: if_splits)
    have at: "?at (Hash cr x) ?s" using snap_at.anchor [OF Suc.prems(2) anchor(1)] anchor(1) by simp
    moreover have "sHash ?s = Hash cr x" by (simp add: newSnapshot_def)
    ultimately have "s = ?s \<and> caches_ok cr b H c' \<and> same_setup c c'" using seed_snapshot_sound [OF sd caches] by simp
    with at hs' Suc.prems(7) show ?thesis by auto
  next
    case walk
    have above: "Anchor b < ?n" using m(1) walk(1) by simp
    then have n0: "?n \<noteq> 0" by (metis word_not_simps(1))
    have lt: "unat m < unat ?n" using walk(1) by (simp add: word_less_nat_alt)
    have cp: "checkpoint_step cr ev chain c ?n (length hs) = None"
      using n0 Suc.prems(4,6) gap walk(1) by (intro no_checkpoint_step) auto
    have bs: "bootstrap_step ev c ?n (Hash cr x) = None" using above by (simp add: bootstrap_step_None [OF boot])
    from walk run cp bs obtain y ps' where
      nh: "next_header cr chain ?n (Hash cr x) ps = Some (y, ps')" and
      rec: "snapshot_search fuel cr ev chain c (?n - 1) (ParentHash y) ps' (hs @ [y]) = Some (Inr (s, hs', c'))"
      by (auto split: option.splits if_splits)
    from next_header_known [OF nh reads Suc.prems(5)] have y: "y \<in> H" "Hash cr y = Hash cr x" "set ps' \<subseteq> H" by auto
    have yx: "y = x" using known y Suc.prems(2) by (auto simp: known_headers_def dest: inj_onD)
    from known Suc.prems(2) above obtain p where p: "p \<in> H" "Hash cr p = ParentHash x" "number_of p = ?n - 1"
      by (auto simp: known_headers_def)
    have un: "unat (number_of p) = unat ?n - 1" using p(3) n0 by (simp add: unat_minus_1)
    have "m \<le> number_of p" using un lt by (simp add: word_le_nat_alt)
    moreover have "number_of p \<le> hi" using un Suc.prems(4) by (simp add: word_le_nat_alt)
    moreover have "length (hs @ [y]) + (unat (number_of p) - unat m) \<le> FullImmutabilityThreshold"
      using un lt Suc.prems(6) by simp
    moreover have "linked cr b H h (hs @ [y]) (Hash cr p)" using yx Suc.prems(2,7) above p(2) by (simp add: linked_snoc)
    ultimately show ?thesis using Suc.IH [of p ps' "hs @ [y]"] rec yx p y(3) by simp
  qed
qed

definition engine_ready ::
  "crypto \<Rightarrow> Bootstrap \<Rightarrow> Header set \<Rightarrow> ChainReader \<Rightarrow> Clique \<Rightarrow> Header list \<Rightarrow> Header \<Rightarrow> bool" where
  "engine_ready cr b H chain c ps x \<longleftrightarrow> cBootstrap c = Some b \<and> reads cr H chain \<and> caches_ok cr b H c \<and>
    set ps \<subseteq> H \<and> x \<in> H \<and> no_shortcut cr b H chain c (number_of x)"

lemma snapshot_run:
  assumes "snapshot cr ev chain c n h ps = Some (r, c')"
  shows "(\<exists>e. r = Inl e \<and> c' = c) \<or>
    (\<exists>s hs c1. snapshot_search (unat n + 2) cr ev chain c n h ps [] = Some (Inr (s, hs, c1)) \<and>
      (case apply_headers cr s (rev hs) of Inl e \<Rightarrow> r = Inl e \<and> c' = c1
       | Inr t \<Rightarrow> \<exists>c2. c2 = c1\<lparr>cRecents := (\<lambda>h. if evict ev h then None else cRecents c1 h)(sHash t \<mapsto> t)\<rparr> \<and>
           (c' = c2 \<and> (r = Inr t \<or> (\<exists>e. r = Inl e)) \<or> r = Inr t \<and> store_snapshot ev c2 t = Inr c')))"
proof -
  from assms obtain x where x: "snapshot_search (unat n + 2) cr ev chain c n h ps [] = Some x"
    by (auto simp: snapshot_def split: option.splits)
  show ?thesis
  proof (cases x)
    case (Inl e)
    with assms x show ?thesis by (auto simp: snapshot_def)
  next
    case (Inr y)
    obtain s hs c1 where y: "y = (s, hs, c1)" by (cases y)
    from assms x Inr y show ?thesis
      by (auto simp: snapshot_def Let_def split: sum.splits if_splits)
  qed
qed

lemma caches_ok_recent:
  assumes "caches_ok cr b H c" and "snap_at cr (cConfig c) (cBreakGlass c) b H (sHash t) t"
  shows "caches_ok cr b H (c\<lparr>cRecents := (\<lambda>h. if out h then None else cRecents c h)(sHash t \<mapsto> t)\<rparr>)"
  using assms by (simp add: caches_ok_def)

lemma same_setup_updates:
  "same_setup c c1 \<Longrightarrow> same_setup c (c1\<lparr>cRecents := R\<rparr>)"
  "same_setup c c1 \<Longrightarrow> store_snapshot ev c1 s = Inr c2 \<Longrightarrow> same_setup c c2"
  by (auto simp: same_setup_def store_snapshot_def split: if_splits)

lemma snapshot_result:
  assumes known: "known_headers cr b H" and ready: "engine_ready cr b H chain c ps x"
    and run: "snapshot cr ev chain c (number_of x) (Hash cr x) ps = Some (r, c')"
  shows "caches_ok cr b H c' \<and> same_setup c c' \<and>
    (\<forall>s. r = Inr s \<longrightarrow> snap_at cr (cConfig c) (cBreakGlass c) b H (Hash cr x) s)"
proof -
  from ready have boot: "cBootstrap c = Some b" and rd: "reads cr H chain" and ca: "caches_ok cr b H c"
    and ps: "set ps \<subseteq> H" and x: "x \<in> H" and ns: "no_shortcut cr b H chain c (number_of x)"
    by (simp_all add: engine_ready_def)
  from ns obtain m where m: "Anchor b \<le> m" "m \<le> number_of x" "m = Anchor b \<or> warm cr H c m"
    "unat (number_of x) - unat m \<le> FullImmutabilityThreshold"
    "\<forall>n. m < n \<and> n \<le> number_of x \<longrightarrow> no_gap chain (Epoch (cConfig c)) n" by (auto simp: no_shortcut_def)
  from snapshot_run [OF run] show ?thesis
  proof (elim disjE exE conjE)
    fix e assume "r = Inl e" and "c' = c"
    then show ?thesis using ca by (simp add: same_setup_def)
  next
    fix s hs c1
    assume se: "snapshot_search (unat (number_of x) + 2) cr ev chain c (number_of x) (Hash cr x) ps [] = Some (Inr (s, hs, c1))"
      and rest: "case apply_headers cr s (rev hs) of Inl e \<Rightarrow> r = Inl e \<and> c' = c1
       | Inr t \<Rightarrow> \<exists>c2. c2 = c1\<lparr>cRecents := (\<lambda>h. if evict ev h then None else cRecents c1 h)(sHash t \<mapsto> t)\<rparr> \<and>
           (c' = c2 \<and> (r = Inr t \<or> (\<exists>e. r = Inl e)) \<or> r = Inr t \<and> store_snapshot ev c2 t = Inr c')"
    from snapshot_search_sound [OF boot known rd ca m(1,3,5) se x m(2) order_refl ps, of "Hash cr x"] m(4)
    obtain h0 where at: "snap_at cr (cConfig c) (cBreakGlass c) b H h0 s" "linked cr b H (Hash cr x) hs h0"
      and c1: "caches_ok cr b H c1" "same_setup c c1" by auto
    show ?thesis
    proof (cases "apply_headers cr s (rev hs)")
      case (Inl e)
      with rest c1 show ?thesis by simp
    next
      case (Inr t)
      have t: "snap_at cr (cConfig c) (cBreakGlass c) b H (Hash cr x) t" by (rule snap_at_linked [OF at Inr])
      let ?c2 = "c1\<lparr>cRecents := (\<lambda>h. if evict ev h then None else cRecents c1 h)(sHash t \<mapsto> t)\<rparr>"
      have h: "sHash t = Hash cr x" using snap_at_fields [OF t] by simp
      have conf: "cConfig c1 = cConfig c" "cBreakGlass c1 = cBreakGlass c" using c1(2) by (simp_all add: same_setup_def)
      have c2: "caches_ok cr b H ?c2" by (rule caches_ok_recent [OF c1(1)]) (simp add: conf h t)
      have s2: "same_setup c ?c2" by (rule same_setup_updates(1) [OF c1(2)])
      have r: "c' = ?c2 \<and> (r = Inr t \<or> (\<exists>e. r = Inl e)) \<or> r = Inr t \<and> store_snapshot ev ?c2 t = Inr c'"
        using rest Inr by simp
      then show ?thesis
      proof
        assume "c' = ?c2 \<and> (r = Inr t \<or> (\<exists>e. r = Inl e))"
        with c2 s2 t show ?thesis by auto
      next
        assume a: "r = Inr t \<and> store_snapshot ev ?c2 t = Inr c'"
        then have "caches_ok cr b H c'" using caches_ok_store [OF c2, of t ev c'] t by (simp add: conf h)
        moreover have "same_setup c c'" using a same_setup_updates(2) [OF s2] by blast
        ultimately show ?thesis using a t by simp
      qed
    qed
  qed
qed

text \<open>
  C23. Snapshot retrieval is sound: on an engine whose cache and database hold only true snapshots,
  and whose walk takes no trusted checkpoint (it meets the anchor or a stored snapshot within
  90000 blocks, and the canonical chain has no gap below an epoch block it holds), a snapshot
  returned for a known block is the one obtained by replaying the chain from the bootstrap
  anchor, its voting bookkeeping is consistent, and cache and database hold only true snapshots
  afterwards, also when the call fails.
\<close>

theorem snapshot_sound:
  assumes "known_headers cr b H" and "engine_ready cr b H chain c ps x"
    and "snapshot cr ev chain c (number_of x) (Hash cr x) ps = Some (r, c')"
  shows "caches_ok cr b H c' \<and> same_setup c c' \<and>
    (\<forall>s. r = Inr s \<longrightarrow> snap_at cr (cConfig c) (cBreakGlass c) b H (Hash cr x) s \<and> snap_ok s)"
  using snapshot_result [OF assms] snap_at_ok by blast

text \<open>
  C4. Nodes agree on signers: two engines with the same configuration, bootstrap and break-glass
  rule that both return a snapshot for the same block return the same one. Their chain readers,
  batches of explicit parents and evictions may differ, and so may what their caches and databases
  hold, as long as it is true snapshots only; for either the walk takes no trusted checkpoint,
  that is, it meets the anchor or a stored snapshot within 90000 blocks and its canonical chain
  has no gap below an epoch block it holds.
\<close>

theorem snapshot_agreement:
  assumes "known_headers cr b H"
    and "engine_ready cr b H chain1 c1 ps1 x" and "engine_ready cr b H chain2 c2 ps2 x"
    and "cConfig c1 = cConfig c2" and "cBreakGlass c1 = cBreakGlass c2"
    and "snapshot cr ev1 chain1 c1 (number_of x) (Hash cr x) ps1 = Some (Inr s1, c1')"
    and "snapshot cr ev2 chain2 c2 (number_of x) (Hash cr x) ps2 = Some (Inr s2, c2')"
  shows "s1 = s2"
proof -
  from snapshot_result [OF assms(1,2,6)] have "snap_at cr (cConfig c1) (cBreakGlass c1) b H (Hash cr x) s1" by simp
  moreover from snapshot_result [OF assms(1,3,7)] assms(4,5)
  have "snap_at cr (cConfig c1) (cBreakGlass c1) b H (Hash cr x) s2" by simp
  ultimately show ?thesis using snap_at_unique assms(1) by (auto simp: known_headers_def)
qed

section \<open>Accepted headers can be built on\<close>

text \<open>
  The recent signers of a snapshot are those of the last \<open>len(Signers)/2 + 1\<close> blocks. This is
  what makes the test in \<open>verifySeal\<close>, made before the oldest entry is deleted, agree with the test
  in \<open>Snapshot.apply\<close>, made after.
\<close>

abbreviation window :: "Snapshot \<Rightarrow> nat" where
  "window s \<equiv> card (Signers s) div 2 + 1"

definition recent_within :: "nat \<Rightarrow> nat \<Rightarrow> (u64 \<times> address) list \<Rightarrow> bool" where
  "recent_within n w R \<longleftrightarrow> (\<forall>(k, a) \<in> set R. unat k \<le> n \<and> n < unat k + w)"

lemma recent_within_mono: "recent_within n w R \<Longrightarrow> w \<le> w' \<Longrightarrow> recent_within n w' R"
  by (fastforce simp: recent_within_def)

lemma recent_within_put: "recent_within (unat n) w R \<Longrightarrow> 0 < w \<Longrightarrow> recent_within (unat n) w (map_put n a R)"
  by (auto simp: recent_within_def)

lemma prune_within:
  assumes "recent_within (unat n) (Suc (window s)) (Recents s)" and "card (Signers s) < 2 ^ 62"
  shows "recent_within (unat n) (window s) (Recents (prune_recents s n))"
proof -
  let ?l = "recent_limit (Signers s)"
  have l: "unat ?l = window s" using unat_recent_limit [OF assms(2)] by simp
  show ?thesis
  proof (cases "?l \<le> n")
    case True
    then have d: "unat (n - ?l) = unat n - window s" by (simp add: unat_sub l)
    have le: "window s \<le> unat n" using True by (simp add: word_le_nat_alt l)
    have "k \<noteq> n - ?l \<Longrightarrow> unat n < Suc (unat k + window s) \<Longrightarrow> unat n < unat k + window s" for k
      using d le by (metis add_diff_cancel_right' less_antisym word_unat_eq_iff)
    then show ?thesis using True assms(1) by (auto simp: recent_within_def prune_recents_def Let_def)
  next
    case False
    then have "unat n < window s" by (simp add: word_le_nat_alt l)
    then show ?thesis using False assms(1) by (auto simp: recent_within_def prune_recents_def Let_def)
  qed
qed

lemma override_within:
  assumes "\<forall>(k, a) \<in> set (Recents s). unat k \<le> unat n" and "unat n < 2 ^ 62" and "card (set l) < 2 ^ 62"
  shows "recent_within (unat n) (window (applyBreakGlass s l n)) (Recents (applyBreakGlass s l n))"
proof -
  let ?l = "recent_limit (set l)"
  have u: "unat ?l = card (set l) div 2 + 1" using unat_recent_limit [OF assms(3)] by simp
  have "unat n < unat k + (card (set l) div 2 + 1)" if "\<not> k + ?l \<le> n" "unat k \<le> unat n" for k
  proof -
    have "unat (k + ?l) = unat k + unat ?l" using that(2) assms(2,3) u by (simp add: unat_word_ariths)
    with that(1) u show ?thesis by (simp add: word_le_nat_alt)
  qed
  with assms(1) show ?thesis by (fastforce simp: recent_within_def applyBreakGlass_def Let_def)
qed

lemma before_seal_within:
  assumes "recent_within (unat (sNumber s)) (window s) (Recents s)" and "unat (number_of h) = Suc (unat (sNumber s))"
    and "unat (number_of h) < 2 ^ 62" and "card (Signers (before_seal s ov h)) < 2 ^ 62"
  shows "recent_within (unat (number_of h)) (window (before_seal s ov h)) (Recents (before_seal s ov h))"
proof -
  define r where "r = (if number_of h mod Epoch (sConfig s) = 0 then s\<lparr>Votes := [], Tallies := []\<rparr> else s)"
  have r: "Signers r = Signers s" "Recents r = Recents s" by (simp_all add: r_def)
  show ?thesis
  proof (cases ov)
    case None
    then have b: "before_seal s ov h = prune_recents r (number_of h)" by (simp add: before_seal_def Let_def r_def)
    have "recent_within (unat (number_of h)) (Suc (window r)) (Recents r)"
      using assms(1,2) by (fastforce simp: recent_within_def r)
    with assms(4) show ?thesis unfolding b using prune_within [of "number_of h" r] by simp
  next
    case (Some l)
    let ?t = "applyBreakGlass r l (number_of h)"
    have b: "before_seal s ov h = prune_recents ?t (number_of h)" by (simp add: before_seal_def Let_def Some r_def)
    have S: "Signers ?t = set l" by (simp add: applyBreakGlass_def Let_def)
    have "recent_within (unat (number_of h)) (window ?t) (Recents ?t)"
      using assms(1-4) b S by (intro override_within) (auto simp: recent_within_def r)
    then have "recent_within (unat (number_of h)) (Suc (window ?t)) (Recents ?t)" by (rule recent_within_mono) simp
    with assms(4) show ?thesis unfolding b using prune_within [of "number_of h" ?t] by simp
  qed
qed

lemma after_seal_within:
  assumes "recent_within (unat (number_of h)) (window s) (Recents s)" and "card (Signers s) < 2 ^ 61"
  shows "recent_within (unat (number_of h)) (window (after_seal s a v h)) (Recents (after_seal s a v h)) \<and>
    card (Signers (after_seal s a v h)) \<le> Suc (card (Signers s))"
proof -
  let ?n = "number_of h" and ?c = "Coinbase h"
  define t where "t = count_vote (discard_previous (s\<lparr>Recents := map_put ?n a (Recents s)\<rparr>) a ?c) a ?c v ?n"
  have s': "after_seal s a v h = settle_vote t ?c ?n" by (simp add: after_seal_def Let_def t_def)
  have S: "Signers t = Signers s" by (simp add: t_def)
  have R: "recent_within (unat ?n) (window s) (Recents t)" using assms(1) by (simp add: t_def recent_within_put)
  consider (keep) "Signers (settle_vote t ?c ?n) = Signers s" "Recents (settle_vote t ?c ?n) = Recents t"
    | (add) "Signers (settle_vote t ?c ?n) = insert ?c (Signers s)" "Recents (settle_vote t ?c ?n) = Recents t"
    | (drop) "Signers (settle_vote t ?c ?n) = Signers s - {?c}"
        "Recents (settle_vote t ?c ?n) = Recents (prune_recents (t\<lparr>Signers := Signers s - {?c}\<rparr>) ?n)"
    by (cases "vote_passed t ?c"; cases "tAuthorize (the (map_of (Tallies t) ?c))")
      (simp_all add: settle_vote_signers settle_recents S)
  then show ?thesis
  proof cases
    case keep
    with R show ?thesis by (simp add: s')
  next
    case add
    have "card (Signers s) \<le> card (insert ?c (Signers s))" by (intro card_mono) auto
    moreover have "card (insert ?c (Signers s)) \<le> Suc (card (Signers s))" by (simp add: card_insert_if)
    ultimately show ?thesis using add R by (auto simp: s' intro: recent_within_mono div_le_mono)
  next
    case drop
    let ?u = "t\<lparr>Signers := Signers s - {?c}\<rparr>"
    have c: "card (Signers s) - 1 \<le> card (Signers s - {?c})" "card (Signers s - {?c}) \<le> card (Signers s)"
      by (simp_all add: card_Diff_singleton_if)
    then have "window s \<le> Suc (window ?u)" by simp
    with R have "recent_within (unat ?n) (Suc (window ?u)) (Recents ?u)" using recent_within_mono by simp
    moreover have "card (Signers ?u) < 2 ^ 62" using c(2) assms(2) by simp
    ultimately have "recent_within (unat ?n) (window ?u) (Recents (prune_recents ?u ?n))" by (rule prune_within)
    with drop c(2) show ?thesis by (simp add: s')
  qed
qed

text \<open>Sizes that no real chain reaches; they keep block numbers and signer counts far from \<open>2 ^ 64\<close>.\<close>

definition sizes_ok :: "Bootstrap \<Rightarrow> Header set \<Rightarrow> bool" where
  "sizes_ok b H \<longleftrightarrow> length (bsSigners b) < 2 ^ 60 \<and>
    (\<forall>hdr \<in> H. unat (number_of hdr) < 2 ^ 60 \<and> length (Extra hdr) < 2 ^ 60)"

lemma parse_length:
  assumes "parseCheckpointExtra e = Inr (l, sigs, f)"
  shows "length l \<le> length e"
proof -
  let ?p = "slice e extraVanity (length e - extraSeal)"
  define N where "N = nat (int (length ?p) - int breakGlassTrailerLen -
    int (unat (?p ! (length ?p - breakGlassTrailerLen)) * 65))"
  have p: "length ?p \<le> length e" by (simp add: slice_def)
  have N: "N \<le> length ?p" unfolding N_def by linarith
  from assms have "length l = length ?p div 20 \<or> length l = N div 20"
    unfolding parseCheckpointExtra_def Let_def N_def [symmetric] by (auto split: if_splits)
  then show ?thesis using p N div_le_dividend [of "length ?p" 20] div_le_dividend [of N 20] by linarith
qed

lemma override_length:
  assumes "breakGlassOverrideOf cr bg h = Inr (Some l)"
  shows "length l \<le> length (Extra h)"
  using assms by (auto simp: breakGlassOverrideOf_def intro: parse_length split: if_splits sum.splits option.splits)

lemma before_seal_card:
  assumes "breakGlassOverrideOf cr (sBreakGlass s) h = Inr ov"
  shows "card (Signers (before_seal s ov h)) \<le> max (card (Signers s)) (length (Extra h))"
proof (cases ov)
  case (Some l)
  then have "Signers (before_seal s ov h) = set l" by (simp add: before_seal_def Let_def applyBreakGlass_def)
  moreover have "length l \<le> length (Extra h)" using assms Some by (auto intro: override_length)
  ultimately show ?thesis using card_length [of l] by simp
qed simp

lemma snap_at_window:
  assumes "snap_at cr conf bg b H h s" and "sizes_ok b H"
  shows "recent_within (unat (sNumber s)) (window s) (Recents s) \<and> card (Signers s) \<le> 2 ^ 60 + unat (sNumber s)"
  using assms(1)
proof (induction rule: snap_at.induct)
  case (anchor x)
  have "card (set (bsSigners b)) \<le> 2 ^ 60" using card_length [of "bsSigners b"] assms(2) by (simp add: sizes_ok_def)
  then show ?case by (simp add: newSnapshot_def recent_within_def)
next
  case (extend x s s')
  from extend.hyps obtain u where n: "number_of x = sNumber s + 1" and u: "apply_header cr s x = Inr u"
    and s': "s' = restamp (number_of x) (Hash cr x) u" by (auto simp: apply_headers_iff split: sum.splits)
  from u obtain ov a v where ov: "breakGlassOverrideOf cr (sBreakGlass s) x = Inr ov"
    and st: "u = after_seal (before_seal s ov x) a v x" by (auto simp: apply_header_stages)
  have "number_of x \<noteq> 0" using \<open>Anchor b < number_of x\<close> by (metis word_not_simps(1))
  then have un: "unat (number_of x) = Suc (unat (sNumber s))" using n by (metis unatSuc Suc_eq_plus1 add.commute)
  have x: "unat (number_of x) < 2 ^ 60" "length (Extra x) < 2 ^ 60"
    using assms(2) \<open>x \<in> H\<close> by (simp_all add: sizes_ok_def)
  have c: "card (Signers (before_seal s ov x)) \<le> 2 ^ 60 + unat (sNumber s)"
    using before_seal_card [OF ov] extend.IH x(2) by linarith
  have "recent_within (unat (number_of x)) (window (before_seal s ov x)) (Recents (before_seal s ov x))"
    using extend.IH un x c by (intro before_seal_within) auto
  moreover have "card (Signers (before_seal s ov x)) < 2 ^ 61" using c un x(1) by simp
  ultimately have "recent_within (unat (number_of x)) (window u) (Recents u)"
    and "card (Signers u) \<le> Suc (card (Signers (before_seal s ov x)))"
    unfolding st using after_seal_within by blast+
  then show ?case using c un by (simp add: s')
qed

lemma verifySeal_None:
  assumes "verifySeal cr fake s x = None"
  shows "\<exists>a. ecrecover cr x = Inr a \<and> a \<in> Signers s \<and>
    (\<forall>(k, r) \<in> set (Recents s). r = a \<longrightarrow> k \<le> number_of x - recent_limit (Signers s))"
  using assms by (auto simp: verifySeal_def Let_def list_ex_iff not_less split: if_splits sum.splits)

lemma verifySeal_applies:
  assumes "verifySeal cr fake s x = None" and "recent_within (unat (sNumber s)) (window s) (Recents s)"
    and "unat (number_of x) = Suc (unat (sNumber s))" and "card (Signers s) < 2 ^ 62" and "window s \<le> unat (number_of x)"
    and "breakGlassOverrideOf cr (sBreakGlass s) x = Inr None" and "vote_of_nonce (Nonce x) = Some v"
  shows "\<exists>u. apply_header cr s x = Inr u"
proof -
  let ?l = "recent_limit (Signers s)" and ?n = "number_of x"
  have l: "unat ?l = window s" using unat_recent_limit [OF assms(4)] by simp
  then have le: "?l \<le> ?n" using assms(5) by (simp add: word_le_nat_alt)
  then have d: "unat (?n - ?l) = unat ?n - window s" by (simp add: unat_sub l)
  from verifySeal_None [OF assms(1)] obtain a where a: "ecrecover cr x = Inr a" "a \<in> Signers s"
    and old: "\<forall>(k, r) \<in> set (Recents s). r = a \<longrightarrow> k \<le> ?n - ?l" by blast
  have "k = ?n - ?l" if "(k, a) \<in> set (Recents s)" for k
  proof -
    have "unat k \<le> unat ?n - window s" using old that d by (auto simp: word_le_nat_alt)
    moreover have "unat ?n \<le> unat k + window s" using assms(2,3) that by (fastforce simp: recent_within_def)
    ultimately have "unat k = unat (?n - ?l)" using d assms(5) by linarith
    then show ?thesis by (simp only: word_unat_eq_iff)
  qed
  then have "a \<notin> snd ` set (Recents (before_seal s None x))"
    using le by (auto simp: before_seal_def Let_def prune_recents_def)
  then show ?thesis unfolding apply_header_stages using a assms(6,7) by auto
qed

lemma standalone_nonce:
  assumes "verify_standalone cr ev config c x = None"
  shows "\<exists>v. vote_of_nonce (Nonce x) = Some v"
proof (rule ccontr)
  assume "\<nexists>v. vote_of_nonce (Nonce x) = Some v"
  then have "Nonce x \<noteq> nonceAuthVote \<and> Nonce x \<noteq> nonceDropVote" by (auto simp: vote_of_nonce_def split: if_splits)
  then have "verify_standalone cr ev config c x \<noteq> None" unfolding verify_standalone_def Let_def by simp
  with assms show False by simp
qed

lemma cascading_None:
  assumes "verifyCascadingFields cr ev chain c x ps = Some (None, c')" and "number_of x \<noteq> 0"
  shows "\<exists>s. snapshot cr ev chain c (number_of x - 1) (ParentHash x) ps = Some (Inr s, c') \<and>
    (if isBreakGlassExtra (Extra x)
     then \<exists>l. breakGlassOverrideOf cr (cBreakGlass c') x = Inr l \<and>
       verifyBreakGlassSeal cr (fakeDiff c') x (case l of None \<Rightarrow> [] | Some l \<Rightarrow> l) = None
     else verifySeal cr (fakeDiff c') s x = None)"
  using assms by (auto simp: verifyCascadingFields_def Let_def split: if_splits option.splits sum.splits prod.splits)

lemma break_glass_applies:
  assumes "isBreakGlassExtra (Extra x)" and "breakGlassOverrideOf cr (sBreakGlass s) x = Inr ov"
    and "verifyBreakGlassSeal cr fake x (case ov of None \<Rightarrow> [] | Some l \<Rightarrow> l) = None" and "vote_of_nonce (Nonce x) = Some v"
  shows "\<exists>u. apply_header cr s x = Inr u"
proof -
  from assms(1,2) obtain l where l: "ov = Some l"
    by (auto simp: breakGlassOverrideOf_def split: sum.splits option.splits)
  with assms(3) obtain a where a: "ecrecover cr x = Inr a" "a \<in> set l"
    by (auto simp: verifyBreakGlassSeal_def containsAddress_def list_ex_iff split: sum.splits if_splits)
  then have "a \<in> Signers (before_seal s (Some l) x)" by (simp add: before_seal_def Let_def applyBreakGlass_def)
  then show ?thesis unfolding apply_header_stages using a(1) assms(2,4) l by auto
qed

text \<open>
  C10. Accepted headers can be built on: when \<open>verifyHeader\<close> accepts a header on a known parent, the
  snapshot of the parent was retrieved and, if the header carries an override or its number is at
  least half the number of signers plus one, \<open>Snapshot.apply\<close> accepts the header on it, so the blocks
  above it can be verified in turn. The bound on the number is necessary, as the next theorem
  shows. The engine's cache and database hold only true snapshots, its walk takes no trusted
  checkpoint, and block numbers and signer lists are far below the 64-bit range.
\<close>

theorem accepted_header_extends:
  assumes "known_headers cr b H" and "sizes_ok b H" and "engine_ready cr b H chain c ps p"
    and "ParentHash x = Hash cr p" and "number_of p = number_of x - 1" and "number_of x \<noteq> 0"
    and "verifyHeader cr ev chain c x ps = Some (None, c')"
  shows "\<exists>s. snapshot cr ev chain c (number_of p) (Hash cr p) ps = Some (Inr s, c') \<and>
    (isBreakGlassExtra (Extra x) \<or> card (Signers s) div 2 + 1 \<le> unat (number_of x) \<longrightarrow>
      (\<exists>s'. apply_headers cr s [x] = Inr s'))"
proof -
  have sa: "verify_standalone cr ev (chainConfig chain) c x = None"
    and vc: "verifyCascadingFields cr ev chain c x ps = Some (None, c')"
    using assms(7) by (auto simp: verifyHeader_def split: if_splits option.splits)
  from standalone_nonce [OF sa] obtain v where v: "vote_of_nonce (Nonce x) = Some v" ..
  from cascading_None [OF vc assms(6)] obtain s where
    s: "snapshot cr ev chain c (number_of p) (Hash cr p) ps = Some (Inr s, c')" and
    ok: "if isBreakGlassExtra (Extra x)
      then \<exists>l. breakGlassOverrideOf cr (cBreakGlass c') x = Inr l \<and>
        verifyBreakGlassSeal cr (fakeDiff c') x (case l of None \<Rightarrow> [] | Some l \<Rightarrow> l) = None
      else verifySeal cr (fakeDiff c') s x = None"
    using assms(4,5) by auto
  from snapshot_result [OF assms(1,3) s] have at: "snap_at cr (cConfig c) (cBreakGlass c) b H (Hash cr p) s"
    and c': "cBreakGlass c' = cBreakGlass c" by (simp_all add: same_setup_def)
  have p: "p \<in> H" using assms(3) by (simp add: engine_ready_def)
  have f: "sBreakGlass s = cBreakGlass c" "sNumber s = number_of p"
    using snap_at_fields [OF at] assms(1) p by (auto simp: known_headers_def dest: inj_onD)
  have n: "number_of x = sNumber s + 1" using f(2) assms(5) by simp
  have "\<exists>u. apply_header cr s x = Inr u"
    if w: "isBreakGlassExtra (Extra x) \<or> window s \<le> unat (number_of x)"
  proof (cases "isBreakGlassExtra (Extra x)")
    case True
    with ok break_glass_applies [OF True _ _ v] show ?thesis by (auto simp: c' f(1))
  next
    case False
    have un: "unat (number_of x) = Suc (unat (sNumber s))" using n assms(6) by (metis unatSuc Suc_eq_plus1 add.commute)
    have "unat (sNumber s) < 2 ^ 60" using assms(2) p f(2) by (simp add: sizes_ok_def)
    with snap_at_window [OF at assms(2)] have "card (Signers s) < 2 ^ 62" by simp
    moreover have "breakGlassOverrideOf cr (sBreakGlass s) x = Inr None" using False by (simp add: breakGlassOverrideOf_def)
    ultimately show ?thesis
      using False ok w un v snap_at_window [OF at assms(2)] by (intro verifySeal_applies [where v = v]) auto
  qed
  moreover have "\<exists>s'. apply_headers cr s [x] = Inr s'" if "apply_header cr s x = Inr u" for u
    using n that by (auto simp: apply_headers_iff)
  ultimately show ?thesis using s by blast
qed

section \<open>Early blocks\<close>





section \<open>Produced headers are valid\<close>

lemma fill_seal:
  assumes "extraSeal \<le> length e" and "length sig = extraSeal"
  shows "length (fill_seal e sig) = length e" and "take (length e - extraSeal) (fill_seal e sig) = take (length e - extraSeal) e"
    and "drop (length e - extraSeal) (fill_seal e sig) = sig"
  using assms by (simp_all add: fill_seal_def Let_def)

lemma encodeSigHeader_fill:
  assumes "extraSeal \<le> length (Extra x)" and "length sig = extraSeal"
  shows "encodeSigHeader (x\<lparr>Extra := fill_seal (Extra x) sig\<rparr>) = encodeSigHeader x"
  using fill_seal [OF assms] assms by (simp add: encodeSigHeader_def)

text \<open>What the engine relies on of the key it signs with: the signature recovers to the signer.\<close>

definition signs_for :: "crypto \<Rightarrow> Clique \<Rightarrow> bool" where
  "signs_for cr c \<longleftrightarrow> (\<forall>msg sig. cSignFn c (cSigner c) msg = Some sig \<longrightarrow> length sig = extraSeal \<and>
    (\<exists>pub. Ecrecover cr (keccak256 cr msg) sig = Some pub \<and> pubkey_address cr pub = cSigner c))"

lemma ecrecover_sealed:
  assumes "signs_for cr c" and "encodeSigHeader x = Some msg" and "cSignFn c (cSigner c) msg = Some sig"
  shows "ecrecover cr (x\<lparr>Extra := fill_seal (Extra x) sig\<rparr>) = Inr (cSigner c)"
proof -
  have l: "extraSeal \<le> length (Extra x)" using assms(2) by (auto simp: encodeSigHeader_def split: if_splits)
  from assms obtain pub where s: "length sig = extraSeal" "Ecrecover cr (keccak256 cr msg) sig = Some pub"
    "pubkey_address cr pub = cSigner c" by (auto simp: signs_for_def)
  from fill_seal [OF l s(1)] encodeSigHeader_fill [OF l s(1)] assms(2) s(2,3) l show ?thesis
    by (simp add: ecrecover_def SealHash_def)
qed

lemma same_setup_refl [simp]: "same_setup c c"
  by (simp add: same_setup_def)

lemma snapshot_keeps_setup:
  assumes "snapshot cr ev chain c n h ps = Some (r, c')"
  shows "same_setup c c'"
proof -
  have seed: "same_setup c c2" if "same_setup c c1" "seed_snapshot ev c1 s = Inr (s', c2)" for c1 c2 s s'
    using that by (auto simp: seed_snapshot_def store_snapshot_def same_setup_def split: if_splits)
  have search: "same_setup c c1" if "snapshot_search fuel cr ev chain c n h ps hs = Some (Inr (s, hs', c1))" for fuel n h ps hs s hs' c1
    using that
  proof (induction fuel arbitrary: n h ps hs)
    case (Suc fuel)
    from Suc show ?case
      by (auto simp: snapshot_search.simps map_sum_Inr_iff bootstrap_step_def checkpoint_step_def
          intro: seed [OF same_setup_refl] split: option.splits if_splits sum.splits)
  qed (simp add: snapshot_search.simps)
  from snapshot_run [OF assms] show ?thesis
  proof (elim disjE exE conjE)
    fix s hs c1
    assume "snapshot_search (unat n + 2) cr ev chain c n h ps [] = Some (Inr (s, hs, c1))"
      and rest: "case apply_headers cr s (rev hs) of Inl e \<Rightarrow> r = Inl e \<and> c' = c1
       | Inr t \<Rightarrow> \<exists>c2. c2 = c1\<lparr>cRecents := (\<lambda>h. if evict ev h then None else cRecents c1 h)(sHash t \<mapsto> t)\<rparr> \<and>
           (c' = c2 \<and> (r = Inr t \<or> (\<exists>e. r = Inl e)) \<or> r = Inr t \<and> store_snapshot ev c2 t = Inr c')"
    then have "same_setup c c1" using search by blast
    then show ?thesis using rest
      by (cases "apply_headers cr s (rev hs)") (auto intro: same_setup_updates(1) same_setup_updates(2) [OF same_setup_updates(1)])
  qed simp
qed

lemma breakGlassOverrideOf_fill:
  assumes "extraSeal \<le> length (Extra x)" and "length sig = extraSeal"
  shows "breakGlassOverrideOf cr bg (x\<lparr>Extra := fill_seal (Extra x) sig\<rparr>) = breakGlassOverrideOf cr bg x"
proof -
  let ?e = "Extra x" and ?f = "fill_seal (Extra x) sig"
  have l: "length ?f = length ?e" and t: "take (length ?e - extraSeal) ?f = take (length ?e - extraSeal) ?e"
    using fill_seal [OF assms] by simp_all
  have "slice ?f a (length ?e - extraSeal) = slice ?e a (length ?e - extraSeal)" for a
    by (simp only: slice_def drop_take [symmetric] t)
  then have "isBreakGlassExtra ?f = isBreakGlassExtra ?e" "parseCheckpointExtra ?f = parseCheckpointExtra ?e"
    by (simp_all only: isBreakGlassExtra_def parseCheckpointExtra_def l)
  then show ?thesis by (simp add: breakGlassOverrideOf_def split: sum.splits)
qed

lemma Seal_outcome:
  assumes "Seal cr ev chain c x txs = Some (Sealed y d, c')"
    and s: "snapshot cr ev chain c (number_of x - 1) (ParentHash x) [] = Some (Inr s, c1)"
  shows "number_of x \<noteq> 0 \<and> (\<exists>msg sig. encodeSigHeader x = Some msg \<and> cSignFn c (cSigner c) msg = Some sig \<and>
      y = x\<lparr>Extra := fill_seal (Extra x) sig\<rparr>) \<and>
    (if isBreakGlassExtra (Extra x)
     then \<exists>l. breakGlassOverrideOf cr (cBreakGlass c) x = Inr (Some l) \<and> cSigner c \<in> set l
     else cSigner c \<in> Signers s \<and> \<not> list_ex (\<lambda>(seen, recent). recent = cSigner c \<and>
        (number_of x < recent_limit (Signers s) \<or> seen > number_of x - recent_limit (Signers s))) (Recents s))"
proof -
  have n: "number_of x \<noteq> 0" using assms(1) by (auto simp: Seal_def Let_def)
  have c': "cSigner c1 = cSigner c" "cSignFn c1 = cSignFn c" "cBreakGlass c1 = cBreakGlass c"
    using snapshot_keeps_setup [OF s] by (simp_all add: same_setup_def)
  note run = assms(1) [unfolded Seal_def Let_def s]
  show ?thesis
  proof (cases "isBreakGlassExtra (Extra x)")
    case True
    with run n c' show ?thesis
      by (auto simp: containsAddress_def list_ex_iff split: if_splits option.splits sum.splits)
  next
    case False
    with run n c' show ?thesis by (auto split: if_splits option.splits)
  qed
qed

text \<open>
  C36. What a node seals, it accepts. When \<open>Seal\<close> releases a header, the signing function being one
  whose signatures recover to the node's signer, only the last 65 bytes of the extra-data have
  changed. Without an override, a header with the difficulty \<open>Prepare\<close> computes then passes
  \<open>verifySeal\<close> against the snapshot \<open>Seal\<close> used. With one, the sealed header carries a valid override,
  and with the difficulty \<open>Prepare\<close> computes among the signers of the override it passes
  \<open>verifyBreakGlassSeal\<close>.
\<close>

theorem Seal_verifies:
  assumes "Seal cr ev chain c x txs = Some (Sealed y d, c')" and "signs_for cr c"
    and "snapshot cr ev chain c (number_of x - 1) (ParentHash x) [] = Some (Inr s, c1)"
    and "sNumber s = number_of x - 1"
  shows "unsealed y = unsealed x \<and>
    (if isBreakGlassExtra (Extra x)
     then \<exists>l. breakGlassOverrideOf cr (cBreakGlass c) y = Inr (Some l) \<and>
       (Difficulty x = Some (calcDifficultyAmong l (number_of x) (cSigner c)) \<longrightarrow> verifyBreakGlassSeal cr False y l = None)
     else Difficulty x = Some (calcDifficulty s (cSigner c)) \<longrightarrow> verifySeal cr False s y = None)"
proof -
  from Seal_outcome [OF assms(1,3)] obtain msg sig where n: "number_of x \<noteq> 0"
    and m: "encodeSigHeader x = Some msg" and sg: "cSignFn c (cSigner c) msg = Some sig"
    and y: "y = x\<lparr>Extra := fill_seal (Extra x) sig\<rparr>"
    and ok: "if isBreakGlassExtra (Extra x)
     then \<exists>l. breakGlassOverrideOf cr (cBreakGlass c) x = Inr (Some l) \<and> cSigner c \<in> set l
     else cSigner c \<in> Signers s \<and> \<not> list_ex (\<lambda>(seen, recent). recent = cSigner c \<and>
        (number_of x < recent_limit (Signers s) \<or> seen > number_of x - recent_limit (Signers s))) (Recents s)" by blast
  have e: "ecrecover cr y = Inr (cSigner c)" unfolding y by (rule ecrecover_sealed [OF assms(2) m sg])
  have l: "extraSeal \<le> length (Extra x)" using m by (auto simp: encodeSigHeader_def split: if_splits)
  have ls: "length sig = extraSeal" using assms(2) sg by (auto simp: signs_for_def)
  have f: "Difficulty y = Difficulty x" "Number y = Number x" "number_of y = number_of x" "sNumber s + 1 = number_of x"
    using assms(4) by (simp_all add: y number_of_def)
  have "unsealed y = unsealed x" using fill_seal [OF l ls] by (simp add: unsealed_def y)
  moreover have "verifySeal cr False s y = None"
    if "\<not> isBreakGlassExtra (Extra x)" and "Difficulty x = Some (calcDifficulty s (cSigner c))"
    using n ok that by (auto simp: verifySeal_def f e Let_def list_ex_iff calcDifficulty_def)
  moreover have "verifyBreakGlassSeal cr False y l = None"
    if "cSigner c \<in> set l" and "Difficulty x = Some (calcDifficultyAmong l (number_of x) (cSigner c))" for l
    using that by (auto simp: verifyBreakGlassSeal_def f e containsAddress_def list_ex_iff calcDifficultyAmong_def number_of_def Let_def)
  ultimately show ?thesis using ok breakGlassOverrideOf_fill [OF l ls, of cr "cBreakGlass c", folded y] by (auto split: if_splits)
qed

text \<open>An armed override always carries enough valid owner signatures for its slot.\<close>

definition pending_ok :: "crypto \<Rightarrow> Clique \<Rightarrow> bool" where
  "pending_ok cr c \<longleftrightarrow> (case bgPending c of None \<Rightarrow> True | Some ov \<Rightarrow>
    verifyBreakGlass cr (cBreakGlass c) (ovNumber ov) (ovParentHash ov) (ovSigners ov) (ovSignatures ov) = None)"

lemma ArmBreakGlass_pending: "ArmBreakGlass cr c n h ss sigs = Inr c' \<Longrightarrow> pending_ok cr c'"
  by (auto simp: ArmBreakGlass_def pending_ok_def split: option.splits if_splits sum.splits)

lemma pending_ok_keep:
  "pending_ok cr (DisarmBreakGlass c)" "pending_ok cr c \<Longrightarrow> pending_ok cr (Authorize c a f)"
  "pending_ok cr c \<Longrightarrow> pending_ok cr (Propose c a v)" "pending_ok cr c \<Longrightarrow> pending_ok cr (Discard c a)"
  "pending_ok cr c \<Longrightarrow> same_setup c c' \<Longrightarrow> pending_ok cr c'"
  by (simp_all add: pending_ok_def DisarmBreakGlass_def Authorize_def Propose_def Discard_def same_setup_def split: option.splits)

lemma verifyBreakGlass_signatures:
  assumes "verifyBreakGlass cr (Some bg) n h ss sigs = None"
  shows "ss \<noteq> [] \<and> (\<forall>s \<in> set sigs. length s = 65) \<and> 1 \<le> length sigs \<and> length sigs \<le> length (Owners bg)"
proof -
  let ?d = "breakGlassDigest cr (bgChainID bg) n h ss"
  have len: "run_res (check_owner_sig cr bg ?d) seen sigs = Inr seen' \<Longrightarrow> \<forall>s \<in> set sigs. length s = 65" for seen seen' sigs
    by (induction sigs arbitrary: seen)
      (auto simp: check_owner_sig_def recover_owner_def split: sum.splits option.splits if_splits)
  show ?thesis using assms
    by (auto simp: verifyBreakGlass_def Let_def Suc_le_eq not_less dest!: len split: if_splits sum.splits)
qed

lemma length_pad_vanity [simp]: "length (pad_vanity e) = extraVanity"
  by (simp add: pad_vanity_def)

definition embeds :: "Clique \<Rightarrow> Header \<Rightarrow> bool" where
  "embeds c x \<longleftrightarrow> bgPending c \<noteq> None \<and> ovNumber (the (bgPending c)) = number_of x \<and>
    ovParentHash (the (bgPending c)) = ParentHash x"

definition prepared_payload :: "Clique \<Rightarrow> Snapshot \<Rightarrow> Header \<Rightarrow> bytes" where
  "prepared_payload c snap x =
    (if embeds c x then encodeBreakGlassPayload (ovSigners (the (bgPending c))) (ovSignatures (the (bgPending c)))
     else if number_of x mod Epoch (cConfig c) = 0 then concat (map address_bytes (signers_list snap)) else [])"

lemma prepare_vote_fields:
  "\<exists>a v. prepare_vote ev c snap x = x\<lparr>Coinbase := a, Nonce := v\<rparr> \<and> v \<in> {Nonce x, nonceAuthVote, nonceDropVote}"
proof (cases "filter (\<lambda>(address, authorize). validVote snap address authorize) (proposals c) = []")
  case True
  then show ?thesis by (intro exI [of _ "Coinbase x"] exI [of _ "Nonce x"]) (simp add: prepare_vote_def)
next
  case False
  then show ?thesis by (simp add: prepare_vote_def Let_def) blast
qed

lemma prepare_header_fields:
  fixes x :: Header
  assumes "Coinbase x = 0" and "Nonce x = 0"
  shows "\<exists>a v d. fst (prepare_header cr ev c snap x) =
      x\<lparr>Coinbase := a, Nonce := v, Difficulty := Some d, MixDigest := 0,
        Extra := pad_vanity (Extra x) @ prepared_payload c snap x @ replicate extraSeal 0\<rparr> \<and>
    d = (if embeds c x then calcDifficultyAmong (ovSigners (the (bgPending c))) (number_of x) (cSigner c)
         else calcDifficulty snap (cSigner c)) \<and>
    v \<in> {nonceAuthVote, nonceDropVote} \<and>
    (number_of x mod Epoch (cConfig c) = 0 \<or> embeds c x \<longrightarrow> a = 0 \<and> v = nonceDropVote)"
proof -
  have x: "x = x\<lparr>Coinbase := 0, Nonce := nonceDropVote\<rparr>" using assms by (simp add: nonceDropVote_def)
  obtain a v where pv: "prepare_vote ev c snap x = x\<lparr>Coinbase := a, Nonce := v\<rparr>"
    and v: "v \<in> {nonceAuthVote, nonceDropVote}"
    using prepare_vote_fields [of ev c snap x] assms by (auto simp: nonceDropVote_def)
  let ?d = "if embeds c x then calcDifficultyAmong (ovSigners (the (bgPending c))) (number_of x) (cSigner c)
    else calcDifficulty snap (cSigner c)"
  let ?e = "pad_vanity (Extra x) @ prepared_payload c snap x @ replicate extraSeal 0"
  show ?thesis
  proof (cases "number_of x mod Epoch (cConfig c) \<noteq> 0 \<and> \<not> embeds c x")
    case True
    then have "prepared_payload c snap x = []" by (simp add: prepared_payload_def)
    with True pv have "fst (prepare_header cr ev c snap x)
        = x\<lparr>Coinbase := a, Nonce := v, Difficulty := Some ?d, MixDigest := 0, Extra := ?e\<rparr>"
      unfolding prepare_header_def Let_def embeds_def [symmetric] by simp
    with True v show ?thesis by blast
  next
    case False
    have "fst (prepare_header cr ev c snap x) = x\<lparr>Difficulty := Some ?d, MixDigest := 0, Extra := ?e\<rparr>"
    proof (cases "embeds c x")
      case True
      then show ?thesis
        unfolding prepare_header_def Let_def embeds_def [symmetric] by (simp add: prepared_payload_def)
    next
      case no: False
      with False show ?thesis
        unfolding prepare_header_def Let_def embeds_def [symmetric] by (simp add: prepared_payload_def)
    qed
    then have "fst (prepare_header cr ev c snap x)
        = x\<lparr>Coinbase := 0, Nonce := nonceDropVote, Difficulty := Some ?d, MixDigest := 0, Extra := ?e\<rparr>"
      using assms by (simp add: nonceDropVote_def)
    then show ?thesis by blast
  qed
qed

lemma prepare_header_engine: "snd (prepare_header cr ev c snap x) \<in> {c, c\<lparr>bgPending := None\<rparr>}"
  by (simp add: prepare_header_def Let_def)

lemma Prepare_run:
  assumes "Prepare cr ev chain c x = Some (Inr y, c')"
  shows "\<exists>snap c1 t. same_setup c c1 \<and> cConfig c' = cConfig c \<and> cBreakGlass c' = cBreakGlass c \<and>
    y = (fst (prepare_header cr ev c1 snap (x\<lparr>Coinbase := 0, Nonce := 0\<rparr>)))\<lparr>Time := t\<rparr>"
proof -
  let ?x = "x\<lparr>Coinbase := 0, Nonce := 0\<rparr>"
  from assms obtain snap c1 where s: "snapshot cr ev chain c (number_of x - 1) (ParentHash x) [] = Some (Inr snap, c1)"
    by (auto simp: Prepare_def Let_def number_of_def split: option.splits sum.splits prod.splits)
  with assms have "\<exists>t. y = (fst (prepare_header cr ev c1 snap ?x))\<lparr>Time := t\<rparr> \<and> c' = snd (prepare_header cr ev c1 snap ?x)"
    by (auto simp: Prepare_def Let_def number_of_def split: option.splits prod.splits)
  then obtain t where y: "y = (fst (prepare_header cr ev c1 snap ?x))\<lparr>Time := t\<rparr>"
    and "c' = snd (prepare_header cr ev c1 snap ?x)" by blast
  with snapshot_keeps_setup [OF s] prepare_header_engine [of cr ev c1 snap ?x]
  have "cConfig c' = cConfig c \<and> cBreakGlass c' = cBreakGlass c" by (auto simp: same_setup_def)
  with y snapshot_keeps_setup [OF s] show ?thesis by blast
qed

lemma prepared_extra:
  assumes "pending_ok cr c" and "\<forall>bg. cBreakGlass c = Some bg \<longrightarrow> length (Owners bg) \<le> 255"
    and "e = pad_vanity v @ prepared_payload c snap x @ replicate extraSeal 0"
  shows "isBreakGlassExtra e \<longleftrightarrow> embeds c x"
    and "parseCheckpointExtra e = Inr (if embeds c x then (ovSigners (the (bgPending c)), ovSignatures (the (bgPending c)), True)
      else (if number_of x mod Epoch (cConfig c) = 0 then signers_list snap else [], [], False))"
    and "embeds c x \<or> number_of x mod Epoch (cConfig c) = 0 \<or> length e = extraVanity + extraSeal"
    and "extraVanity + extraSeal \<le> length e"
proof -
  have l: "length (pad_vanity v) = extraVanity" "length (replicate extraSeal (0::8 word)) = extraSeal" by simp_all
  show "embeds c x \<or> number_of x mod Epoch (cConfig c) = 0 \<or> length e = extraVanity + extraSeal"
    using assms(3) by (simp add: prepared_payload_def)
  show "extraVanity + extraSeal \<le> length e" using assms(3) by simp
  have "isBreakGlassExtra e = embeds c x \<and> parseCheckpointExtra e = Inr (if embeds c x then (ovSigners (the (bgPending c)), ovSignatures (the (bgPending c)), True)
      else (if number_of x mod Epoch (cConfig c) = 0 then signers_list snap else [], [], False))"
  proof (cases "embeds c x")
    case True
    then obtain ov where ov: "bgPending c = Some ov" by (auto simp: embeds_def)
    with assms(1) obtain bg where bg: "cBreakGlass c = Some bg"
      "verifyBreakGlass cr (Some bg) (ovNumber ov) (ovParentHash ov) (ovSigners ov) (ovSignatures ov) = None"
      by (cases "cBreakGlass c") (auto simp: pending_ok_def verifyBreakGlass_def)
    from verifyBreakGlass_signatures [OF bg(2)] assms(2) bg(1)
    have "ovSigners ov \<noteq> []" "\<forall>s \<in> set (ovSignatures ov). length s = 65" "1 \<le> length (ovSignatures ov)" "length (ovSignatures ov) \<le> 255"
      by auto
    from break_glass_payload_roundtrip [OF l this] show ?thesis using assms(3) True ov by (simp add: prepared_payload_def)
  next
    case False
    let ?ss = "if number_of x mod Epoch (cConfig c) = 0 then signers_list snap else []"
    have "e = pad_vanity v @ concat (map address_bytes ?ss) @ replicate extraSeal 0"
      using assms(3) False by (simp add: prepared_payload_def)
    with parse_plain_checkpoint [OF l, of ?ss] False show ?thesis by (simp only: if_False simp_thms)
  qed
  then show "isBreakGlassExtra e \<longleftrightarrow> embeds c x"
    and "parseCheckpointExtra e = Inr (if embeds c x then (ovSigners (the (bgPending c)), ovSignatures (the (bgPending c)), True)
      else (if number_of x mod Epoch (cConfig c) = 0 then signers_list snap else [], [], False))" by auto
qed

text \<open>
  Prepared headers are well-formed: a header from \<open>Prepare\<close>, once finalized, passes every stand-alone check of
  \<open>verifyHeader\<close> on a node whose clock has reached it, given an acceptable gas limit and no fork-hash
  conflict; and an override armed for exactly this slot is embedded and verifies as an override
  to the armed signer list.
\<close>

lemma Prepare_valid:
  assumes "Prepare cr ev chain c x = Some (Inr y, c')" and "pending_ok cr c"
    and "\<forall>bg. cBreakGlass c = Some bg \<longrightarrow> length (Owners bg) \<le> 255"
    and "Time y \<le> now ev'" and "GasLimit y \<le> MaxGasLimit"
    and "VerifyForkHashes cr config (Clique_Finalize cr root y) False = None"
  shows "verify_standalone cr ev' config c' (Clique_Finalize cr root y) = None \<and>
    (embeds c x \<longrightarrow> breakGlassOverrideOf cr (cBreakGlass c') y = Inr (Some (ovSigners (the (bgPending c)))))"
proof -
  let ?x = "x\<lparr>Coinbase := 0, Nonce := 0\<rparr>" and ?z = "Clique_Finalize cr root y"
  from Prepare_run [OF assms(1)] obtain snap c1 t where c1: "same_setup c c1"
    and c': "cConfig c' = cConfig c" "cBreakGlass c' = cBreakGlass c"
    and y: "y = (fst (prepare_header cr ev c1 snap ?x))\<lparr>Time := t\<rparr>" by blast
  have em: "embeds c1 ?x = embeds c x" "number_of ?x = number_of x" using c1
    by (simp_all add: embeds_def same_setup_def number_of_def)
  from prepare_header_fields [of ?x cr ev c1 snap] obtain a v d where
    h: "fst (prepare_header cr ev c1 snap ?x) = ?x\<lparr>Coinbase := a, Nonce := v, Difficulty := Some d, MixDigest := 0,
        Extra := pad_vanity (Extra ?x) @ prepared_payload c1 snap ?x @ replicate extraSeal 0\<rparr>"
    and d: "d = (if embeds c1 ?x then calcDifficultyAmong (ovSigners (the (bgPending c1))) (number_of ?x) (cSigner c1)
         else calcDifficulty snap (cSigner c1))"
    and v: "v \<in> {nonceAuthVote, nonceDropVote}"
    and quiet: "number_of x mod Epoch (cConfig c) = 0 \<or> embeds c x \<longrightarrow> a = 0 \<and> v = nonceDropVote"
    using em c1 by (auto simp: same_setup_def)
  have d12: "d = diffInTurn \<or> d = diffNoTurn" unfolding d calcDifficultyAmong_def calcDifficulty_def by simp
  define e where "e = pad_vanity (Extra ?x) @ prepared_payload c1 snap ?x @ replicate extraSeal 0"
  have z: "Coinbase ?z = a" "Nonce ?z = v" "Difficulty ?z = Some d" "Extra ?z = e" "MixDigest ?z = 0" "Time ?z = Time y"
    "GasLimit ?z = GasLimit y" "UncleHash ?z = EmptyUncleHash cr" "number_of ?z = number_of x"
    by (simp_all add: y h e_def Clique_Finalize_def number_of_def)
  have ok: "pending_ok cr c1" "\<forall>bg. cBreakGlass c1 = Some bg \<longrightarrow> length (Owners bg) \<le> 255"
    using pending_ok_keep(5) [OF assms(2) c1] assms(3) c1 by (simp_all add: same_setup_def)
  have conf: "cConfig c1 = cConfig c" "bgPending c1 = bgPending c" using c1 by (simp_all add: same_setup_def)
  define k where "k \<longleftrightarrow> number_of x mod Epoch (cConfig c) = 0"
  note ex = prepared_extra [OF ok e_def, unfolded em conf, folded k_def]
  have "verify_standalone cr ev' config c' ?z = None"
    unfolding verify_standalone_def Let_def z c' ex(1) k_def [symmetric]
    using ex(2,3,4) v quiet [folded k_def] d12 assms(4-6) by auto
  moreover have "breakGlassOverrideOf cr (cBreakGlass c') y = Inr (Some (ovSigners (the (bgPending c))))" if "embeds c x"
  proof -
    have "Extra y = e" "word_of_int (the (Number y)) = number_of x" "ParentHash y = ParentHash x"
      by (simp_all add: y h e_def number_of_def)
    moreover have "verifyBreakGlass cr (cBreakGlass c) (number_of x) (ParentHash x)
        (ovSigners (the (bgPending c))) (ovSignatures (the (bgPending c))) = None"
      using assms(2) that by (auto simp: pending_ok_def embeds_def)
    ultimately show ?thesis using that ex(1,2) by (simp add: breakGlassOverrideOf_def c')
  qed
  ultimately show ?thesis by blast
qed

end
