(* ===== verification/Powhash_Algorithm.thy ===== *)
theory Powhash_Algorithm
  imports Powhash_Sizes Block_Header "HOL-Library.Multiset"
begin

text \<open>
  The proof-of-work function (\<open>consensus/powhash/algorithm.go\<close>): seeds, verification caches, dataset items,
  the dataset and the two ways of computing hashimoto, from a small cache (light) and from the
  whole dataset (full). Keccak-512 is a parameter, a function from bytes to 64 bytes.

  The dataset is generated by several threads that write disjoint ranges of items; the model
  takes their writes in any order. The two ways are shown to agree while the offsets of the
  dataset fit in 32 bits.
\<close>

unbundle bit_operations_syntax

type_synonym u32 = "32 word"

section \<open>Words and bytes\<close>

text \<open>\<open>binary.LittleEndian\<close>.\<close>

definition le_u32 :: "bytes \<Rightarrow> u32" where
  "le_u32 b = word_of_nat (be_nat (rev (take 4 b)))"

definition put_u32 :: "u32 \<Rightarrow> bytes" where
  "put_u32 w = rev (be_bytes 4 (unat w))"

definition put_u64_le :: "u64 \<Rightarrow> bytes" where
  "put_u64_le w = rev (be_bytes 8 (unat w))"

definition words_of :: "bytes \<Rightarrow> u32 list" where
  "words_of b = map (\<lambda>i. le_u32 (drop (4 * i) b)) [0..<length b div 4]"

text \<open>Go's \<open>copy(dst[off:], src)\<close>.\<close>

definition copy_at :: "'a list \<Rightarrow> nat \<Rightarrow> 'a list \<Rightarrow> 'a list" where
  "copy_at dst off src = take off dst @ take (length dst - off) src @ drop (off + length src) dst"

section \<open>Seeds and caches\<close>

fun seed_rounds :: "crypto \<Rightarrow> nat \<Rightarrow> bytes \<Rightarrow> bytes" where
  "seed_rounds cr 0 seed = seed"
| "seed_rounds cr (Suc n) seed = seed_rounds cr n (hash_bytes (keccak256 cr seed))"

definition seedHash :: "crypto \<Rightarrow> u64 \<Rightarrow> bytes" where
  "seedHash cr block =
    (if block < pow_epochLength then replicate 32 0
     else seed_rounds cr (unat (block div pow_epochLength)) (replicate 32 0))"

text \<open>
  The cache as rows of 64 bytes: the initial chain of hashes, then the randmemohash rounds. The sizes
  the engine asks for are multiples of 64 bytes, so there is no partial row. The machine is taken
  to be little-endian; the progress reports are left out.
\<close>

fun cache_chain :: "(bytes \<Rightarrow> bytes) \<Rightarrow> nat \<Rightarrow> bytes \<Rightarrow> bytes list" where
  "cache_chain k512 0 prev = []"
| "cache_chain k512 (Suc n) prev = k512 prev # cache_chain k512 n (k512 prev)"

definition cache_mix_row :: "(bytes \<Rightarrow> bytes) \<Rightarrow> bytes list \<Rightarrow> nat \<Rightarrow> bytes list" where
  "cache_mix_row k512 rows j =
    (let n = length rows;
         src = rows ! ((j + n - 1) mod n);
         other = rows ! unat (le_u32 (rows ! j) mod word_of_nat n)
     in rows[j := k512 (map2 (XOR) src other)])"

definition generateCache :: "(bytes \<Rightarrow> bytes) \<Rightarrow> nat \<Rightarrow> bytes \<Rightarrow> u32 list" where
  "generateCache k512 words seed =
    (let rows = cache_chain k512 (words * 4 div hashBytes) seed;
         round = (\<lambda>rows. foldl (cache_mix_row k512) rows [0..<length rows])
     in words_of (concat ((round ^^ cacheRounds) rows)))"

section \<open>Dataset items\<close>

definition fnv :: "u32 \<Rightarrow> u32 \<Rightarrow> u32" where
  "fnv a b = (a * 0x01000193) XOR b"

definition fnvHash :: "u32 list \<Rightarrow> u32 list \<Rightarrow> u32 list" where
  "fnvHash mix data = map2 fnv mix data"

definition item_step :: "u32 list \<Rightarrow> u32 \<Rightarrow> u32 \<Rightarrow> u32 list \<Rightarrow> nat \<Rightarrow> u32 list" where
  "item_step cache rows index intMix i =
    (let parent = fnv (index XOR word_of_nat i) (intMix ! (i mod 16)) mod rows
     in fnvHash intMix (drop (unat (parent * word_of_nat hashWords)) cache))"

definition generateDatasetItem :: "(bytes \<Rightarrow> bytes) \<Rightarrow> u32 list \<Rightarrow> u32 \<Rightarrow> bytes" where
  "generateDatasetItem k512 cache index =
    (let rows = word_of_nat (length cache div hashWords);
         base = (index mod rows) * word_of_nat hashWords;
         mix = concat (map (\<lambda>i. put_u32 (if i = 0 then cache ! unat base XOR index
                                         else cache ! unat (base + word_of_nat i))) [0..<hashWords]);
         mix = k512 mix;
         intMix = map (\<lambda>i. le_u32 (drop (4 * i) mix)) [0..<hashWords];
         intMix = foldl (item_step cache rows index) intMix [0..<datasetParents];
         mix = concat (map put_u32 intMix)
     in k512 mix)"

section \<open>The dataset\<close>

text \<open>The items thread \<open>tid\<close> of \<open>threads\<close> writes, for a dataset of \<open>sz\<close> bytes.\<close>

definition thread_items :: "nat \<Rightarrow> nat \<Rightarrow> nat \<Rightarrow> nat list" where
  "thread_items threads sz tid =
    (let batch = (sz + hashBytes * threads - 1) div (hashBytes * threads);
         first = tid * batch;
         limit = first + batch;
         limit = (if limit > sz div hashBytes then sz div hashBytes else limit)
     in [first..<limit])"

definition write_dataset_item :: "(bytes \<Rightarrow> bytes) \<Rightarrow> u32 list \<Rightarrow> u32 list \<Rightarrow> nat \<Rightarrow> u32 list" where
  "write_dataset_item k512 cache dataset index =
    copy_at dataset (index * hashWords) (words_of (generateDatasetItem k512 cache (word_of_nat index)))"

text \<open>The writes of all threads in the order \<open>order\<close> they happen to be made.\<close>

definition generateDataset :: "(bytes \<Rightarrow> bytes) \<Rightarrow> nat list \<Rightarrow> u32 list \<Rightarrow> u32 list \<Rightarrow> u32 list" where
  "generateDataset k512 order dest cache = foldl (write_dataset_item k512 cache) dest order"

definition dataset_order :: "nat \<Rightarrow> nat \<Rightarrow> nat list \<Rightarrow> bool" where
  "dataset_order threads sz order \<longleftrightarrow> mset order = mset (concat (map (thread_items threads sz) [0..<threads]))"

section \<open>Hashimoto\<close>

definition hashimoto_step :: "u32 \<Rightarrow> u32 \<Rightarrow> (u32 \<Rightarrow> u32 list) \<Rightarrow> u32 list \<times> u32 list \<Rightarrow> nat \<Rightarrow> u32 list \<times> u32 list" where
  "hashimoto_step rows seedHead lookup st i =
    (let (mix, temp) = st;
         parent = fnv (word_of_nat i XOR seedHead) (mix ! (i mod length mix)) mod rows;
         temp = foldl (\<lambda>temp j. copy_at temp (j * hashWords) (lookup (2 * parent + word_of_nat j)))
                  temp [0..<mixBytes div hashBytes]
     in (fnvHash mix temp, temp))"

definition compress_mix :: "u32 list \<Rightarrow> u32 list" where
  "compress_mix mix =
    take (length mix div 4)
      (foldl (\<lambda>mix k. mix[k := fnv (fnv (fnv (mix ! (4 * k)) (mix ! (4 * k + 1))) (mix ! (4 * k + 2))) (mix ! (4 * k + 3))])
        mix [0..<length mix div 4])"

definition hashimoto ::
  "crypto \<Rightarrow> (bytes \<Rightarrow> bytes) \<Rightarrow> bytes \<Rightarrow> u64 \<Rightarrow> u64 \<Rightarrow> (u32 \<Rightarrow> u32 list) \<Rightarrow> bytes \<times> bytes" where
  "hashimoto cr k512 hash nonce sz lookup =
    (let rows = word_of_nat (unat sz div mixBytes);
         seed = k512 (copy_at (copy_at (replicate 40 0) 0 hash) 32 (put_u64_le nonce));
         seedHead = le_u32 seed;
         mix = map (\<lambda>i. le_u32 (drop (i mod 16 * 4) seed)) [0..<mixBytes div 4];
         temp = replicate (length mix) 0;
         (mix, _) = foldl (hashimoto_step rows seedHead lookup) (mix, temp) [0..<loopAccesses];
         digest = concat (map put_u32 (compress_mix mix))
     in (digest, hash_bytes (keccak256 cr (seed @ digest))))"

definition hashimotoLight ::
  "crypto \<Rightarrow> (bytes \<Rightarrow> bytes) \<Rightarrow> u64 \<Rightarrow> u32 list \<Rightarrow> bytes \<Rightarrow> u64 \<Rightarrow> bytes \<times> bytes" where
  "hashimotoLight cr k512 sz cache hash nonce =
    hashimoto cr k512 hash nonce sz (\<lambda>index. words_of (generateDatasetItem k512 cache index))"

definition hashimotoFull ::
  "crypto \<Rightarrow> (bytes \<Rightarrow> bytes) \<Rightarrow> u32 list \<Rightarrow> bytes \<Rightarrow> u64 \<Rightarrow> bytes \<times> bytes" where
  "hashimotoFull cr k512 dataset hash nonce =
    hashimoto cr k512 hash nonce (word_of_nat (length dataset) * 4)
      (\<lambda>index. let offset = index * word_of_nat hashWords
               in slice dataset (unat offset) (unat (offset + word_of_nat hashWords)))"

section \<open>Light and full agree\<close>

lemma concat_ranges:
  "concat (map (\<lambda>t. [t * b ..< (if t * b + b > N then N else t * b + b)]) [0..<T]) = [0..<(if T * b > N then N else T * b)]"
proof (induction T)
  case (Suc T)
  show ?case
  proof (cases "T * b \<le> N")
    case True
    let ?m = "if T * b + b > N then N else T * b + b"
    have "T * b \<le> ?m" using True by simp
    then have "[0..<?m] = [0..<T * b] @ [T * b..<?m]" by (metis le_add_diff_inverse upt_add_eq_append zero_le)
    then show ?thesis using Suc True by (simp add: add.commute split: if_splits)
  next
    case False
    then show ?thesis using Suc by simp
  qed
qed simp

lemma all_items:
  assumes "0 < threads"
  shows "concat (map (thread_items threads sz) [0..<threads]) = [0..<sz div hashBytes]"
proof -
  let ?u = "hashBytes * threads"
  define b where "b = (sz + ?u - 1) div ?u"
  have u: "0 < ?u" using assms by (simp add: hashBytes_def)
  have "sz + ?u - 1 = b * ?u + (sz + ?u - 1) mod ?u" unfolding b_def by (rule div_mult_mod_eq [symmetric])
  moreover have "(sz + ?u - 1) mod ?u < ?u" using u by (rule mod_less_divisor)
  ultimately have "sz \<le> b * ?u" by linarith
  then have "sz \<le> (threads * b) * hashBytes" by (simp add: mult_ac)
  then have "sz div hashBytes \<le> threads * b" by (metis div_le_mono div_mult_self_is_m hashBytes_def zero_less_numeral)
  then have le: "(if threads * b > sz div hashBytes then sz div hashBytes else threads * b) = sz div hashBytes" by simp
  have "thread_items threads sz = (\<lambda>t. [t * b ..< (if t * b + b > sz div hashBytes then sz div hashBytes else t * b + b)])"
    by (simp add: thread_items_def Let_def b_def fun_eq_iff)
  then show ?thesis using concat_ranges [of b "sz div hashBytes" threads] le by simp
qed

lemma length_words_of [simp]: "length (words_of b) = length b div 4"
  by (simp add: words_of_def)

lemma length_item:
  assumes "\<And>b. length (k512 b) = 64"
  shows "length (generateDatasetItem k512 cache i) = 64"
  using assms by (simp add: generateDatasetItem_def Let_def)

lemma copy_at_fit:
  assumes "off + length src \<le> length dst"
  shows "copy_at dst off src = take off dst @ src @ drop (off + length src) dst" and "length (copy_at dst off src) = length dst"
  using assms by (simp_all add: copy_at_def)

lemma copy_at_same:
  assumes "16 * j + 16 \<le> length dst" and "length src = 16"
  shows "take 16 (drop (16 * j) (copy_at dst (16 * j) src)) = src"
  using assms by (simp add: copy_at_fit)

lemma copy_at_other:
  assumes "16 * j + 16 \<le> length dst" and "length src = 16" and "i \<noteq> j"
  shows "take 16 (drop (16 * i) (copy_at dst (16 * j) src)) = take 16 (drop (16 * i) dst)"
proof (cases "i < j")
  case True
  then have "16 * i + 16 \<le> 16 * j" by simp
  then have "take 16 (drop (16 * i) (take (16 * j) dst)) = take 16 (drop (16 * i) dst)"
    by (simp add: drop_take min_def)
  then show ?thesis using assms True by (simp add: copy_at_fit)
next
  case False
  with assms(3) have "16 * j + 16 \<le> 16 * i" by simp
  then show ?thesis using assms by (simp add: copy_at_fit)
qed

lemma generateDataset_rows:
  assumes k: "\<And>b. length (k512 b) = 64" and "\<forall>i \<in> set order. 16 * i + 16 \<le> length dest"
  shows "length (generateDataset k512 order dest cache) = length dest \<and>
    (\<forall>i \<in> set order. take 16 (drop (16 * i) (generateDataset k512 order dest cache))
       = words_of (generateDatasetItem k512 cache (word_of_nat i)))"
  using assms(2)
proof (induction order rule: rev_induct)
  case (snoc j order)
  let ?d = "generateDataset k512 order dest cache"
  have IH: "length ?d = length dest" "\<forall>i \<in> set order. take 16 (drop (16 * i) ?d)
      = words_of (generateDatasetItem k512 cache (word_of_nat i))" using snoc by simp_all
  have step: "generateDataset k512 (order @ [j]) dest cache
      = copy_at ?d (16 * j) (words_of (generateDatasetItem k512 cache (word_of_nat j)))"
    by (simp add: generateDataset_def write_dataset_item_def hashWords_def mult.commute)
  have len: "length (words_of (generateDatasetItem k512 cache i)) = 16" for i using length_item [OF k] by simp
  have j: "16 * j + 16 \<le> length ?d" using snoc.prems IH(1) by simp
  show ?case unfolding step
  proof (intro conjI ballI)
    show "length (copy_at ?d (16 * j) (words_of (generateDatasetItem k512 cache (word_of_nat j)))) = length dest"
      using copy_at_fit(2) [of "16 * j" "words_of (generateDatasetItem k512 cache (word_of_nat j))" ?d] j len IH(1) by simp
    fix i assume "i \<in> set (order @ [j])"
    then show "take 16 (drop (16 * i) (copy_at ?d (16 * j) (words_of (generateDatasetItem k512 cache (word_of_nat j)))))
        = words_of (generateDatasetItem k512 cache (word_of_nat i))"
      using copy_at_same [OF j len] copy_at_other [OF j len] IH(2) by (cases "i = j") auto
  qed
qed (simp add: generateDataset_def)

lemma word32_of_nat: "n < 2 ^ 32 \<Longrightarrow> unat (word_of_nat n :: u32) = n"
  by (simp add: unat_of_nat)

lemma hashimoto_step_cong:
  assumes "\<And>i. unat i < 2 * unat rows \<Longrightarrow> l i = l' i" and "rows \<noteq> 0" and "2 * unat rows < 2 ^ 32"
  shows "hashimoto_step rows sh l st i = hashimoto_step rows sh l' st i"
proof -
  have idx: "l (2 * (x mod rows) + word_of_nat j) = l' (2 * (x mod rows) + word_of_nat j)" if "j < 2" for x :: u32 and j
  proof (rule assms(1))
    have lt: "unat (x mod rows) < unat rows" using assms(2) by (simp add: unat_mod_distrib unat_gt_0)
    then have "2 * unat (x mod rows) + j < 2 ^ 32" using that assms(3) by linarith
    then have "unat (word_of_nat (2 * unat (x mod rows) + j) :: u32) = 2 * unat (x mod rows) + j" by (rule word32_of_nat)
    moreover have "2 * (x mod rows) + word_of_nat j = word_of_nat (2 * unat (x mod rows) + j)" by simp
    ultimately have "unat (2 * (x mod rows) + word_of_nat j) = 2 * unat (x mod rows) + j" by (simp only:)
    then show "unat (2 * (x mod rows) + word_of_nat j) < 2 * unat rows" using lt that by linarith
  qed
  have "mixBytes div hashBytes = 2" by (simp add: mixBytes_def hashBytes_def)
  then show ?thesis using idx [of 0] idx [of 1]
    by (simp add: hashimoto_step_def Let_def split_beta numeral_2_eq_2)
qed

lemma hashimoto_cong:
  assumes "\<And>i. unat i < 2 * (unat sz div mixBytes) \<Longrightarrow> l i = l' i" and "mixBytes \<le> unat sz" and "unat sz < 2 ^ 34"
  shows "hashimoto cr k512 h n sz l = hashimoto cr k512 h n sz l'"
proof -
  let ?rows = "word_of_nat (unat sz div mixBytes) :: u32"
  have "unat sz div mixBytes < 2 ^ 27" using assms(3) by (simp add: mixBytes_def)
  then have r: "unat ?rows = unat sz div mixBytes" "2 * unat ?rows < 2 ^ 32" by (simp_all add: word32_of_nat)
  have "0 < unat sz div mixBytes" using assms(2) by (simp add: mixBytes_def)
  then have "?rows \<noteq> 0" using r(1) by (metis unat_0 less_irrefl)
  then have "hashimoto_step ?rows sh l = hashimoto_step ?rows sh l'" for sh
    using assms(1) r by (intro ext hashimoto_step_cong) simp_all
  then show ?thesis by (simp add: hashimoto_def Let_def)
qed

lemma light_full_agree:
  assumes "\<And>b. length (k512 b) = 64" and "0 < threads" and "dataset_order threads (4 * length dest) order"
    and "mixBytes \<le> 4 * length dest" and "4 * length dest < 2 ^ 34"
  shows "hashimotoFull cr k512 (generateDataset k512 order dest cache) h n
    = hashimotoLight cr k512 (word_of_nat (4 * length dest)) cache h n"
proof -
  let ?L = "length dest" and ?D = "generateDataset k512 order dest cache"
  have "set order = {0..<4 * ?L div hashBytes}"
    using assms(3) all_items [OF assms(2)] unfolding dataset_order_def by (metis mset_eq_setD set_upt)
  then have order: "i \<in> set order \<longleftrightarrow> i < ?L div 16" for i by (simp add: hashBytes_def)
  have fit: "\<forall>i \<in> set order. 16 * i + 16 \<le> ?L"
  proof
    fix i assume "i \<in> set order"
    then have "i < ?L div 16" using order by simp
    then show "16 * i + 16 \<le> ?L" by linarith
  qed
  note D = generateDataset_rows [of k512 order dest cache, OF assms(1) fit]
  have sz: "unat (word_of_nat (4 * ?L) :: u64) = 4 * ?L" using assms(5) by (intro word64_of_nat) simp
  have "(word_of_nat (length ?D) * 4 :: u64) = word_of_nat (4 * ?L)" using D by simp
  moreover have "slice ?D (unat (i * 16)) (unat (i * 16 + 16)) = words_of (generateDatasetItem k512 cache i)"
    if "unat i < 2 * (4 * ?L div mixBytes)" for i :: u32
  proof -
    have i: "unat i < ?L div 16" using that by (simp add: mixBytes_def)
    then have "16 * unat i + 16 \<le> ?L" by linarith
    then have b: "16 * unat i + 16 < 2 ^ 32" using assms(5) by simp
    have "i * 16 = word_of_nat (16 * unat i)" "i * 16 + 16 = word_of_nat (16 * unat i + 16)" by simp_all
    then have o: "unat (i * 16) = 16 * unat i" "unat (i * 16 + 16) = 16 * unat i + 16"
      using b word32_of_nat [of "16 * unat i"] word32_of_nat [of "16 * unat i + 16"] by (simp_all only: add_lessD1)
    have "unat i \<in> set order" using i order by simp
    with D have "take 16 (drop (16 * unat i) ?D) = words_of (generateDatasetItem k512 cache (word_of_nat (unat i)))" by blast
    then show ?thesis by (simp add: slice_def o)
  qed
  ultimately show ?thesis unfolding hashimotoFull_def hashimotoLight_def
    using assms(4,5) sz by (simp only:) (rule hashimoto_cong, simp_all add: hashWords_def)
qed

text \<open>
  C24. Light verification agrees with the full dataset: for a dataset generated by any number of
  threads, in any order of their writes, and small enough for 32-bit offsets, computing
  hashimoto from the dataset gives the digest and result computed from the cache alone.
\<close>

theorem hashimoto_light_full:
  assumes "\<And>b. length (k512 b) = 64" and "0 < threads" and "dataset_order threads (4 * length dest) order"
    and "mixBytes \<le> 4 * length dest" and "4 * length dest < 2 ^ 34"
  shows "hashimotoFull cr k512 (generateDataset k512 order dest cache) h n
    = hashimotoLight cr k512 (word_of_nat (4 * length dest)) cache h n"
  using assms by (rule light_full_agree)

theorem hashimoto_light_full_witness:
  "hashimotoFull sample_crypto (\<lambda>_. replicate 64 7) (generateDataset (\<lambda>_. replicate 64 7) [1, 0] (replicate 32 0) (replicate 16 3)) [] 5
    = hashimotoLight sample_crypto (\<lambda>_. replicate 64 7) 128 (replicate 16 3) [] 5"
proof -
  have "dataset_order 2 (4 * length (replicate 32 (0 :: u32))) [1, 0]"
    by (simp add: dataset_order_def thread_items_def Let_def hashBytes_def numeral_2_eq_2 add_mset_commute)
  from hashimoto_light_full [of "\<lambda>_. replicate 64 7" 2, OF _ _ this] show ?thesis by (simp add: mixBytes_def)
qed

text \<open>
  The bound is needed: from epoch 1921 on the dataset has items beyond \<open>2 ^ 28\<close>, whose offset wraps
  around in \<open>hashimotoFull\<close> to the beginning of the dataset.
\<close>

lemma full_offset_wraps:
  "2 ^ 28 < datasetSizes ! 1921 div hashBytes \<and> (word_of_nat (2 ^ 28) :: u32) * word_of_nat hashWords = 0"
proof -
  have "17188206592 < datasetSizes ! 1921"
    using on_line_nth [OF datasetSizes_on_line, of 1921] by (simp add: length_tables maxEpoch_def)
  then have "2 ^ 28 < datasetSizes ! 1921 div 64" by simp
  then show ?thesis by (simp add: hashBytes_def hashWords_def)
qed

end
