(* ===== verification/Emission.thy ===== *)
theory Emission
  imports Block_Header
begin

text \<open>
  Issuance and difficulty: the block-reward schedule and the difficulty rules of
  \<open>consensus/powhash\<close> (\<open>ferminux.go\<close>, \<open>consensus.go\<close>) and the authority reward and its split of
  \<open>consensus/posa/posa.go\<close>.

  The part of the state database these functions touch is the balance of every account, a
  function from addresses to integers. The locale \<open>supply_ledger\<close> is the contract of crediting
  an account; it is interpreted on \<open>AddBalance\<close> and the total supply.
\<close>

section \<open>Balances\<close>

type_synonym ledger = "address \<Rightarrow> int"

definition AddBalance :: "ledger \<Rightarrow> address \<Rightarrow> int \<Rightarrow> ledger" where
  "AddBalance st addr amount = (if amount = 0 then st else st(addr := st addr + amount))"

definition total_supply :: "ledger \<Rightarrow> int" where
  "total_supply st = (\<Sum>a \<in> UNIV. st a)"

section \<open>Reward schedule (powhash/ferminux.go)\<close>

definition Ether :: int where "Ether = 10 ^ 18"

definition FerminuxHalvingInterval :: int where "FerminuxHalvingInterval = 4500000"

definition FerminuxEmissionForkBlock :: int where "FerminuxEmissionForkBlock = 20000"

definition ferminuxDurationLimit :: int where "ferminuxDurationLimit = 5"

definition FerminuxLaunchBlockReward :: int where "FerminuxLaunchBlockReward = 6 * Ether"

definition FerminuxBaseBlockReward :: int where "FerminuxBaseBlockReward = 1 * Ether"

text \<open>\<open>Rsh\<close> of a non-negative integer is division by a power of two.\<close>

definition FerminuxBlockReward :: "int \<Rightarrow> int" where
  "FerminuxBlockReward num =
    (if num < FerminuxEmissionForkBlock then FerminuxLaunchBlockReward
     else (let era = num div FerminuxHalvingInterval in
           if \<not> IsUint64 era \<or> 60 < era then 0
           else FerminuxBaseBlockReward div 2 ^ nat era))"

section \<open>Authority reward (posa.go)\<close>

definition sinkPercent :: int where "sinkPercent = 50"

definition treasuryPercent :: int where "treasuryPercent = 10"

definition rewardDivisor :: int where "rewardDivisor = 4"

definition BlockReward :: "int \<Rightarrow> int" where
  "BlockReward num = FerminuxBlockReward num div rewardDivisor"

definition SplitReward :: "int \<Rightarrow> int \<times> int \<times> int" where
  "SplitReward amount =
    (let sink = amount * sinkPercent div 100;
         treasury = amount * treasuryPercent div 100;
         signer = amount - sink;
         signer = signer - treasury
     in (signer, sink, treasury))"

text \<open>The credits of \<open>Posa.finalize\<close>; the header fields it also sets are in \<open>Posa_Engine\<close>.\<close>

definition pay_authority :: "ledger \<Rightarrow> int \<Rightarrow> address \<Rightarrow> address \<Rightarrow> address \<Rightarrow> ledger" where
  "pay_authority st num signer sink treasury =
    (let (signerShare, sinkShare, treasuryShare) = SplitReward (BlockReward num);
         st = (if 0 < signerShare then AddBalance st signer signerShare else st);
         st = (if 0 < sinkShare then AddBalance st sink sinkShare else st);
         st = (if 0 < treasuryShare then AddBalance st treasury treasuryShare else st)
     in st)"

section \<open>Proof-of-work rewards (powhash/consensus.go)\<close>

definition uncle_step :: "int \<Rightarrow> int \<Rightarrow> ledger \<times> int \<Rightarrow> Header \<Rightarrow> ledger \<times> int" where
  "uncle_step number blockReward acc uncle =
    (let (st, reward) = acc;
         r = the (Number uncle) + 8;
         r = r - number;
         r = r * blockReward;
         r = r div 8;
         st = AddBalance st (Coinbase uncle) r;
         r = blockReward div 32
     in (st, reward + r))"

definition accumulateRewards :: "ledger \<Rightarrow> Header \<Rightarrow> Header list \<Rightarrow> ledger" where
  "accumulateRewards st header uncles =
    (let blockReward = FerminuxBlockReward (the (Number header));
         (st, reward) = foldl (uncle_step (the (Number header)) blockReward) (st, blockReward) uncles
     in AddBalance st (Coinbase header) reward)"

section \<open>Difficulty (powhash)\<close>

definition DifficultyBoundDivisor :: int where "DifficultyBoundDivisor = 2048"

definition MinimumDifficulty :: int where "MinimumDifficulty = 131072"

definition DurationLimit :: int where "DurationLimit = 13"

definition expDiffPeriod :: int where "expDiffPeriod = 100000"

definition calcDifficultyFerminux :: "crypto \<Rightarrow> u64 \<Rightarrow> Header \<Rightarrow> int" where
  "calcDifficultyFerminux cr time parent =
    (let x = uint time - uint (Time parent);
         x = x div ferminuxDurationLimit;
         x = (if UncleHash parent = EmptyUncleHash cr then 1 - x else 2 - x);
         x = (if x < - 99 then - 99 else x);
         y = the (Difficulty parent) div DifficultyBoundDivisor;
         x = y * x;
         x = the (Difficulty parent) + x
     in if x < MinimumDifficulty then MinimumDifficulty else x)"

definition CalcDifficulty :: "crypto \<Rightarrow> u64 \<Rightarrow> Header \<Rightarrow> int" where
  "CalcDifficulty cr time parent = calcDifficultyFerminux cr time parent"

definition makeDifficultyCalculator :: "crypto \<Rightarrow> int \<Rightarrow> u64 \<Rightarrow> Header \<Rightarrow> int" where
  "makeDifficultyCalculator cr bombDelay time parent =
    (let bombDelayFromParent = bombDelay - 1;
         x = uint time - uint (Time parent);
         x = x div 9;
         x = (if UncleHash parent = EmptyUncleHash cr then 1 - x else 2 - x);
         x = (if x < - 99 then - 99 else x);
         y = the (Difficulty parent) div DifficultyBoundDivisor;
         x = y * x;
         x = the (Difficulty parent) + x;
         x = (if x < MinimumDifficulty then MinimumDifficulty else x);
         fakeBlockNumber = (if bombDelayFromParent \<le> the (Number parent)
                            then the (Number parent) - bombDelayFromParent else 0);
         periodCount = fakeBlockNumber div expDiffPeriod
     in if 1 < periodCount then x + 2 ^ nat (periodCount - 2) else x)"

definition calcDifficultyHomestead :: "u64 \<Rightarrow> Header \<Rightarrow> int" where
  "calcDifficultyHomestead time parent =
    (let x = uint time - uint (Time parent);
         x = x div 10;
         x = 1 - x;
         x = (if x < - 99 then - 99 else x);
         y = the (Difficulty parent) div DifficultyBoundDivisor;
         x = y * x;
         x = the (Difficulty parent) + x;
         x = (if x < MinimumDifficulty then MinimumDifficulty else x);
         periodCount = the (Number parent) + 1;
         periodCount = periodCount div expDiffPeriod
     in if 1 < periodCount then x + 2 ^ nat (periodCount - 2) else x)"

definition calcDifficultyFrontier :: "u64 \<Rightarrow> Header \<Rightarrow> int" where
  "calcDifficultyFrontier time parent =
    (let adjust = the (Difficulty parent) div DifficultyBoundDivisor;
         diff = (if uint time - uint (Time parent) < DurationLimit
                 then the (Difficulty parent) + adjust else the (Difficulty parent) - adjust);
         diff = (if diff < MinimumDifficulty then MinimumDifficulty else diff);
         periodCount = the (Number parent) + 1;
         periodCount = periodCount div expDiffPeriod
     in if 1 < periodCount then max (diff + 2 ^ nat (periodCount - 2)) MinimumDifficulty else diff)"

section \<open>Supply\<close>

text \<open>Crediting an account raises the supply by the credited amount.\<close>

locale supply_ledger =
  fixes credit :: "'s \<Rightarrow> 'a \<Rightarrow> int \<Rightarrow> 's"
    and supply_of :: "'s \<Rightarrow> int"
  assumes supply_credit: "supply_of (credit st a x) = supply_of st + x"
begin

lemma supply_guarded: "supply_of (if 0 < x then credit st a x else st) = supply_of st + max x 0"
  by (simp add: supply_credit)

end

lemma supply_AddBalance: "total_supply (AddBalance st a x) = total_supply st + x"
proof (cases "x = 0")
  case False
  have "total_supply (st(a := st a + x)) = (st a + x) + (\<Sum>b \<in> UNIV - {a}. (st(a := st a + x)) b)"
    unfolding total_supply_def by (subst sum.remove [of UNIV a]) simp_all
  also have "(\<Sum>b \<in> UNIV - {a}. (st(a := st a + x)) b) = (\<Sum>b \<in> UNIV - {a}. st b)"
    by (rule sum.cong) simp_all
  also have "st a + x + (\<Sum>b \<in> UNIV - {a}. st b) = total_supply st + x"
    unfolding total_supply_def by (subst sum.remove [of UNIV a]) simp_all
  finally show ?thesis using False by (simp add: AddBalance_def fun_upd_def)
qed (simp add: AddBalance_def)

interpretation balances: supply_ledger AddBalance total_supply
  by unfold_locales (rule supply_AddBalance)

lemma FerminuxBlockReward_nonneg: "0 \<le> FerminuxBlockReward n"
  by (simp add: FerminuxBlockReward_def FerminuxLaunchBlockReward_def FerminuxBaseBlockReward_def
      Ether_def Let_def pos_imp_zdiv_nonneg_iff)

lemma BlockReward_nonneg: "0 \<le> BlockReward n"
  using FerminuxBlockReward_nonneg [of n] by (simp add: BlockReward_def rewardDivisor_def)

text \<open>
  C17. The three shares of an authority reward add up to it; none is negative, the sink and the
  treasury get exactly 50 and 10 percent rounded down, and the signer at least 40 percent.
\<close>

theorem SplitReward_conserves:
  assumes "0 \<le> amount" and "SplitReward amount = (signer, sink, treasury)"
  shows "signer + sink + treasury = amount \<and> 0 \<le> signer \<and> 0 \<le> sink \<and> 0 \<le> treasury \<and>
    sink = amount div 2 \<and> treasury = amount div 10 \<and> 2 * amount \<le> 5 * signer"
  using assms by (auto simp: SplitReward_def sinkPercent_def treasuryPercent_def Let_def)

theorem SplitReward_conserves_witness:
  "SplitReward 250000000000000007 = (100000000000000004, 125000000000000003, 25000000000000000) \<and>
   100000000000000004 + 125000000000000003 + 25000000000000000 = (250000000000000007 :: int)"
proof -
  have "SplitReward 250000000000000007 = (100000000000000004, 125000000000000003, 25000000000000000)"
    by (simp add: SplitReward_def sinkPercent_def treasuryPercent_def)
  with SplitReward_conserves [OF _ this] show ?thesis by simp
qed

lemma SplitReward_shares:
  assumes "0 \<le> amount"
  shows "(case SplitReward amount of (a, b, c) \<Rightarrow> max a 0 + max b 0 + max c 0) = amount"
  using assms by (auto simp: SplitReward_def sinkPercent_def treasuryPercent_def Let_def max_def)

text \<open>
  Paying an authority block mints exactly the block reward of its height, whatever the
  addresses (also when signer, sink and treasury coincide).
\<close>

lemma pay_authority_supply: "total_supply (pay_authority st num signer sink treasury) = total_supply st + BlockReward num"
proof -
  obtain a b c where s: "SplitReward (BlockReward num) = (a, b, c)" by (metis prod_cases3)
  have "total_supply (pay_authority st num signer sink treasury) = total_supply st + (max a 0 + max b 0 + max c 0)"
    by (simp only: pay_authority_def s Let_def split balances.supply_guarded add.assoc)
  also have "\<dots> = total_supply st + BlockReward num"
    using SplitReward_shares [OF BlockReward_nonneg [of num]] s by simp
  finally show ?thesis .
qed

text \<open>Rewards of the proof-of-work history.\<close>

definition uncle_reward :: "int \<Rightarrow> int \<Rightarrow> Header \<Rightarrow> int" where
  "uncle_reward number R u = (the (Number u) + 8 - number) * R div 8 + R div 32"

lemma uncle_steps_supply:
  "(let (st', reward') = foldl (uncle_step number R) (st, reward) uncles
    in total_supply st' + reward') = total_supply st + reward + (\<Sum>u \<leftarrow> uncles. uncle_reward number R u)"
proof (induction uncles arbitrary: st reward)
  case (Cons u us)
  have "uncle_step number R (st, reward) u =
      (AddBalance st (Coinbase u) ((the (Number u) + 8 - number) * R div 8), reward + R div 32)"
    by (simp add: uncle_step_def)
  then show ?case using Cons.IH by (simp add: supply_AddBalance uncle_reward_def)
qed simp

lemma accumulateRewards_supply:
  "total_supply (accumulateRewards st h us) = total_supply st + FerminuxBlockReward (the (Number h)) +
     (\<Sum>u \<leftarrow> us. uncle_reward (the (Number h)) (FerminuxBlockReward (the (Number h))) u)"
  using uncle_steps_supply [of "the (Number h)" "FerminuxBlockReward (the (Number h))" st
      "FerminuxBlockReward (the (Number h))" us]
  by (simp add: accumulateRewards_def Let_def split_beta supply_AddBalance)

lemma uncle_reward_le:
  assumes "0 \<le> R" and "number - 7 \<le> the (Number u)" and "the (Number u) < number"
  shows "0 \<le> uncle_reward number R u \<and> 32 * uncle_reward number R u \<le> 29 * R"
proof -
  define m where "m = (the (Number u) + 8 - number) * R"
  have "m \<le> 7 * R" unfolding m_def using assms by (intro mult_right_mono) auto
  moreover have "0 \<le> m" unfolding m_def using assms by (intro mult_nonneg_nonneg) auto
  ultimately show ?thesis unfolding uncle_reward_def m_def [symmetric] using assms(1) by auto
qed

text \<open>
  A proof-of-work block with at most two uncles, each one to seven generations old, mints at
  least the block reward and at most 45/16 of it.
\<close>

lemma rewards_bounds:
  assumes "length us \<le> 2"
    and "\<forall>u \<in> set us. the (Number h) - 7 \<le> the (Number u) \<and> the (Number u) < the (Number h)"
  shows "FerminuxBlockReward (the (Number h)) \<le> total_supply (accumulateRewards st h us) - total_supply st \<and>
    16 * (total_supply (accumulateRewards st h us) - total_supply st) \<le> 45 * FerminuxBlockReward (the (Number h))"
proof -
  let ?R = "FerminuxBlockReward (the (Number h))" and ?n = "the (Number h)"
  have R: "0 \<le> ?R" by (rule FerminuxBlockReward_nonneg)
  have "0 \<le> (\<Sum>u \<leftarrow> us. uncle_reward ?n ?R u) \<and> 32 * (\<Sum>u \<leftarrow> us. uncle_reward ?n ?R u) \<le> int (length us) * (29 * ?R)"
    using assms(2)
  proof (induction us)
    case (Cons u us)
    then show ?case using uncle_reward_le [OF R, of ?n u] by (auto simp: algebra_simps)
  qed simp
  moreover have "int (length us) * (29 * ?R) \<le> 2 * (29 * ?R)" using assms(1) R by (intro mult_right_mono) auto
  ultimately show ?thesis unfolding accumulateRewards_supply by auto
qed

section \<open>Total issuance\<close>

text \<open>The reward of block \<open>n\<close> of the Ferminux chain: the schedule, cut to a quarter from the fork on.\<close>

definition chain_reward :: "int \<Rightarrow> int" where
  "chain_reward n = (if IsPosa FerminuxChainConfig (Some n) then BlockReward n else FerminuxBlockReward n)"

lemma halving_sum: "(\<Sum>e<k. c div 2 ^ e) \<le> 2 * c - 2 * (c div 2 ^ k)" if "0 \<le> c" for c :: int
proof (induction k)
  case (Suc k)
  have "c div 2 ^ Suc k = c div 2 ^ k div 2" unfolding power_Suc2 by (rule zdiv_zmult2_eq) simp
  then have "2 * (c div 2 ^ Suc k) \<le> c div 2 ^ k" by simp
  with Suc show ?case by simp
qed simp

lemma era_sum: "(\<Sum>n<k * H. f (n div H)) = int H * (\<Sum>e<k. f e)" if "0 < H" for f :: "nat \<Rightarrow> int"
proof (induction k)
  case (Suc k)
  have "(\<Sum>n<Suc k * H. f (n div H)) = (\<Sum>n<k * H. f (n div H)) + (\<Sum>n\<in>{k * H..<Suc k * H}. f (n div H))"
    by (subst sum.union_disjoint [symmetric]) (auto intro!: sum.cong)
  also have "(\<Sum>n\<in>{k * H..<Suc k * H}. f (n div H)) = (\<Sum>n\<in>{k * H..<Suc k * H}. f k)"
  proof (rule sum.cong)
    fix n assume "n \<in> {k * H..<Suc k * H}"
    then have "n div H = k" by (intro div_nat_eqI) (auto simp: mult.commute)
    then show "f (n div H) = f k" by simp
  qed simp
  finally show ?case using Suc by (simp add: algebra_simps)
qed simp

lemma halving_total:
  fixes c :: int and H :: nat
  assumes "0 \<le> c" and "0 < H"
  shows "(\<Sum>n<N. c div 2 ^ (n div H)) \<le> 2 * c * int H"
proof -
  have nn: "0 \<le> c div 2 ^ e" for e using assms by (simp add: pos_imp_zdiv_nonneg_iff)
  have "(\<Sum>n<N. c div 2 ^ (n div H)) \<le> (\<Sum>n<N * H. c div 2 ^ (n div H))"
    using assms nn by (intro sum_mono2) (auto intro: less_le_trans)
  also have "\<dots> = int H * (\<Sum>e<N. c div 2 ^ e)" by (rule era_sum [OF assms(2)])
  also have "\<dots> \<le> int H * (2 * c)"
    using halving_sum [OF assms(1), of N] nn [of N] by (intro mult_left_mono) linarith+
  finally show ?thesis by (simp add: mult.commute mult.left_commute)
qed

lemma FerminuxBlockReward_le:
  assumes "20000 \<le> n"
  shows "FerminuxBlockReward (int n) \<le> Ether div 2 ^ (n div 4500000)"
proof -
  have "nat (int n div 4500000) = n div 4500000" by (simp add: nat_div_distrib)
  moreover have "0 \<le> Ether div 2 ^ (n div 4500000)" by (simp add: Ether_def pos_imp_zdiv_nonneg_iff)
  ultimately show ?thesis using assms
    by (simp add: FerminuxBlockReward_def FerminuxEmissionForkBlock_def FerminuxHalvingInterval_def
        FerminuxBaseBlockReward_def Let_def)
qed

lemma sum_extra: "(\<Sum>n<N. if n < m then x else 0) \<le> int m * x" if "0 \<le> x" for x :: int
proof -
  have "(\<Sum>n<N. if n < m then x else 0) = (\<Sum>n\<in>{..<N} \<inter> {..<m}. x)"
    by (simp add: sum.If_cases lessThan_def)
  also have "\<dots> \<le> (\<Sum>n\<in>{..<m}. x)" using that by (intro sum_mono2) auto
  finally show ?thesis by simp
qed

text \<open>
  C13. The base rewards of the Ferminux chain never add up to more than 2,470,000 FMX, however
  long the chain runs.
\<close>

theorem total_issuance_bound: "(\<Sum>n<N. chain_reward (int n)) \<le> 2470000 * Ether"
proof -
  let ?q = "Ether div 4"
  have q: "4 * ?q = Ether" by (simp add: Ether_def)
  have step: "chain_reward (int n) \<le> ?q div 2 ^ (n div 4500000) +
      ((if n < 160000 then 3 * ?q else 0) + (if n < 20000 then 20 * ?q else 0))" for n
  proof (cases "n < 160000")
    case True
    then have e: "n div 4500000 = 0" by simp
    have "chain_reward (int n) = FerminuxBlockReward (int n)"
      using True by (simp add: chain_reward_def IsPosa_def isForked_def FerminuxChainConfig_def)
    moreover have "20000 \<le> n \<Longrightarrow> FerminuxBlockReward (int n) \<le> Ether"
      using FerminuxBlockReward_le [of n] e by simp
    moreover have "n < 20000 \<Longrightarrow> FerminuxBlockReward (int n) = 6 * Ether"
      by (simp add: FerminuxBlockReward_def FerminuxEmissionForkBlock_def FerminuxLaunchBlockReward_def)
    ultimately show ?thesis using e q True by auto
  next
    case False
    then have "chain_reward (int n) = FerminuxBlockReward (int n) div 4"
      by (simp add: chain_reward_def IsPosa_def isForked_def FerminuxChainConfig_def BlockReward_def rewardDivisor_def)
    also have "\<dots> \<le> Ether div 2 ^ (n div 4500000) div 4"
      using FerminuxBlockReward_le [of n] False by (intro zdiv_mono1) auto
    also have "\<dots> = ?q div 2 ^ (n div 4500000)" by (simp add: zdiv_zmult2_eq [symmetric] mult.commute)
    finally show ?thesis using False by simp
  qed
  have "(\<Sum>n<N. chain_reward (int n)) \<le> (\<Sum>n<N. ?q div 2 ^ (n div 4500000) +
      ((if n < 160000 then 3 * ?q else 0) + (if n < 20000 then 20 * ?q else 0)))"
    by (intro sum_mono step)
  also have "\<dots> \<le> 2 * ?q * 4500000 + (160000 * (3 * ?q) + 20000 * (20 * ?q))"
    unfolding sum.distrib
    using halving_total [of ?q 4500000 N] sum_extra [of "3 * ?q" 160000 N] sum_extra [of "20 * ?q" 20000 N]
    by (intro add_mono) (auto simp: Ether_def)
  also have "\<dots> = 2470000 * Ether" by (simp add: Ether_def)
  finally show ?thesis .
qed

section \<open>Difficulty bounds\<close>

text \<open>
  The Ferminux difficulty of a block that is not older than its parent is at least the
  protocol minimum and moves by at most two 2048ths up and ninety-nine 2048ths down.
\<close>

lemma calcDifficulty_bounds:
  assumes "Difficulty parent = Some d" and "MinimumDifficulty \<le> d" and "Time parent \<le> time"
  shows "MinimumDifficulty \<le> CalcDifficulty cr time parent \<and>
    d - 99 * (d div 2048) \<le> CalcDifficulty cr time parent \<and>
    CalcDifficulty cr time parent \<le> d + 2 * (d div 2048)"
proof -
  let ?x = "(uint time - uint (Time parent)) div 5"
  let ?y = "if UncleHash parent = EmptyUncleHash cr then 1 - ?x else 2 - ?x"
  let ?a = "if ?y < - 99 then - 99 else ?y"
  have x: "0 \<le> ?x" using assms(3) by (simp add: word_le_def)
  then have a: "- 99 \<le> ?a" "?a \<le> 2" by auto
  have b: "0 \<le> d div 2048" using assms(2) by (simp add: MinimumDifficulty_def)
  have "d div 2048 * - 99 \<le> d div 2048 * ?a" "d div 2048 * ?a \<le> d div 2048 * 2"
    using a b by (auto intro: mult_left_mono simp del: mult_minus_right)
  moreover have "CalcDifficulty cr time parent = max MinimumDifficulty (d + d div 2048 * ?a)"
    using assms(1) by (simp add: CalcDifficulty_def calcDifficultyFerminux_def ferminuxDurationLimit_def
        DifficultyBoundDivisor_def Let_def max_def)
  ultimately show ?thesis using assms(2) b by linarith
qed

lemma calcDifficulty_bounds_example:
  "MinimumDifficulty \<le> CalcDifficulty sample_crypto 1007 ((sample_header 5)\<lparr>Difficulty := Some 2000000\<rparr>)"
  using calcDifficulty_bounds [of "(sample_header 5)\<lparr>Difficulty := Some 2000000\<rparr>" 2000000 1007 sample_crypto]
  by (simp add: sample_header_def MinimumDifficulty_def)

end
