(* ===== verification/Powhash_Engine.thy ===== *)
theory Powhash_Engine
  imports Powhash_Algorithm Emission
begin

text \<open>
  The proof-of-work engine (\<open>consensus/powhash/powhash.go\<close>, \<open>consensus.go\<close>, \<open>sealer.go\<close> and
  \<open>refusePosa\<close> of \<open>ferminux.go\<close>): the caches by epoch, header, batch and uncle verification, the seal
  check, preparation, rewards and the nonce search.

  The time is a parameter. The state root of a block (\<open>IntermediateRoot\<close>) is a parameter function
  of the balances. Fetching work by remote miners, hash-rate metering and the files that store
  caches on disk are not modelled.
\<close>

section \<open>Engines\<close>

datatype Mode = ModeNormal | ModeShared | ModeTest | ModeFake | ModeFullFake

text \<open>
  \<open>shared\<close> tells whether the engine delegates to the process-wide \<open>sharedPowhash\<close>, itself a normal
  engine that delegates to none.
\<close>

record Powhash =
  PowMode :: Mode
  fakeFail :: u64
  shared :: bool

definition sharedPowhash :: Powhash where
  "sharedPowhash = \<lparr>PowMode = ModeNormal, fakeFail = 0, shared = False\<rparr>"

definition Powhash_New :: "Mode \<Rightarrow> Powhash" where
  "Powhash_New mode = \<lparr>PowMode = mode, fakeFail = 0, shared = (mode = ModeShared)\<rparr>"

definition NewTester :: Powhash where "NewTester = Powhash_New ModeTest"

definition NewFaker :: Powhash where
  "NewFaker = \<lparr>PowMode = ModeFake, fakeFail = 0, shared = False\<rparr>"

definition NewFakeFailer :: "u64 \<Rightarrow> Powhash" where
  "NewFakeFailer fail = \<lparr>PowMode = ModeFake, fakeFail = fail, shared = False\<rparr>"

definition NewFullFaker :: Powhash where
  "NewFullFaker = \<lparr>PowMode = ModeFullFake, fakeFail = 0, shared = False\<rparr>"

definition NewShared :: Powhash where
  "NewShared = \<lparr>PowMode = ModeNormal, fakeFail = 0, shared = True\<rparr>"

datatype pow_error =
    pow_ErrUnknownAncestor | pow_ErrFutureBlock | pow_ErrInvalidNumber
  | errOlderBlockTime | errTooManyUncles | errDuplicateUncle | errUncleIsAncestor | errDanglingUncle
  | pow_errInvalidDifficulty | pow_errInvalidMixDigest | errInvalidPoW | errPosaBlock
  | ExtraTooLong nat | WrongDifficulty int int | GasLimitTooHigh u64 | GasUsedTooHigh u64 u64
  | BaseFeeBeforeFork int | PowFee fee_error | PowDAO dao_error | PowForkHash hash hash | PowPanic

definition pow_number :: "Header \<Rightarrow> u64" where
  "pow_number header = word_of_int (the (Number header))"

section \<open>Caches by epoch\<close>

text \<open>
  The LRU of caches and datasets, with the item kept for the epoch after the highest one seen.
  \<open>evict\<close> is what the LRU drops when an item is added.
\<close>

record 'a lru =
  lru_cache :: "u64 \<rightharpoonup> 'a"
  lru_future :: u64
  lru_futureItem :: "'a option"

definition newlru :: "'a lru" where
  "newlru = \<lparr>lru_cache = Map.empty, lru_future = 0, lru_futureItem = None\<rparr>"

definition lru_get :: "(u64 \<Rightarrow> 'a) \<Rightarrow> (u64 \<Rightarrow> bool) \<Rightarrow> 'a lru \<Rightarrow> u64 \<Rightarrow> 'a \<times> 'a option \<times> 'a lru" where
  "lru_get new evict l epoch =
    (let (item, l) =
       (case lru_cache l epoch of Some item \<Rightarrow> (item, l)
        | None \<Rightarrow>
          (let item = (if 0 < lru_future l \<and> lru_future l = epoch then the (lru_futureItem l) else new epoch)
           in (item, l\<lparr>lru_cache := (\<lambda>e. if e = epoch then Some item else if evict e then None else lru_cache l e)\<rparr>)))
     in if epoch < word_of_nat maxEpoch - 1 \<and> lru_future l < epoch + 1
        then (let future = new (epoch + 1)
              in (item, Some future, l\<lparr>lru_future := epoch + 1, lru_futureItem := Some future\<rparr>))
        else (item, None, l))"

text \<open>The contents of a cache and of a dataset; \<open>sizes_return\<close> shows that the sizes exist.\<close>

definition cache_generate :: "crypto \<Rightarrow> (bytes \<Rightarrow> bytes) \<Rightarrow> bool \<Rightarrow> u64 \<Rightarrow> u32 list" where
  "cache_generate cr k512 test epoch =
    (let sz = (if test then 1024 else the (cacheSize (epoch * pow_epochLength + 1)));
         seed = seedHash cr (epoch * pow_epochLength + 1)
     in generateCache k512 (unat (sz div 4)) seed)"

definition dataset_generate :: "crypto \<Rightarrow> (bytes \<Rightarrow> bytes) \<Rightarrow> nat list \<Rightarrow> bool \<Rightarrow> u64 \<Rightarrow> u32 list" where
  "dataset_generate cr k512 order test epoch =
    (let csize = (if test then 1024 else the (cacheSize (epoch * pow_epochLength + 1)));
         dsize = (if test then 32 * 1024 else the (datasetSize (epoch * pow_epochLength + 1)));
         seed = seedHash cr (epoch * pow_epochLength + 1);
         cache = generateCache k512 (unat (csize div 4)) seed
     in generateDataset k512 order (replicate (unat (dsize div 4)) 0) cache)"

definition pow_cache :: "crypto \<Rightarrow> (bytes \<Rightarrow> bytes) \<Rightarrow> Powhash \<Rightarrow> u64 \<Rightarrow> u32 list" where
  "pow_cache cr k512 p block = cache_generate cr k512 (PowMode p = ModeTest) (block div pow_epochLength)"

definition pow_dataset :: "crypto \<Rightarrow> (bytes \<Rightarrow> bytes) \<Rightarrow> nat list \<Rightarrow> Powhash \<Rightarrow> u64 \<Rightarrow> u32 list" where
  "pow_dataset cr k512 order p block = dataset_generate cr k512 order (PowMode p = ModeTest) (block div pow_epochLength)"

section \<open>The seal\<close>

definition pow_SealHash :: "crypto \<Rightarrow> Header \<Rightarrow> hash" where
  "pow_SealHash cr header =
    rlpHash cr
      (if \<not> opt_nonneg (Difficulty header) \<or> \<not> opt_nonneg (Number header) \<or> \<not> opt_nonneg (BaseFee header)
       then Inl ErrNegativeBigInt
       else Inr (EncodeToBytes (Lst (
         [Str (hash_bytes (ParentHash header)), Str (hash_bytes (UncleHash header)),
          Str (address_bytes (Coinbase header)), Str (hash_bytes (Root header)),
          Str (hash_bytes (TxHash header)), Str (hash_bytes (ReceiptHash header)),
          Str (bloom_bytes (Bloom header)), bigint_item (Difficulty header),
          bigint_item (Number header), u64_item (GasLimit header), u64_item (GasUsed header),
          u64_item (Time header), Str (Extra header)] @
         (if BaseFee header \<noteq> None then [bigint_item (BaseFee header)] else [])))))"

definition pow_dataset_size :: "Powhash \<Rightarrow> u64 \<Rightarrow> u64" where
  "pow_dataset_size p number = (if PowMode p = ModeTest then 32 * 1024 else the (datasetSize number))"

text \<open>
  The seal check of an engine that does not delegate. \<open>dag\<close> is the dataset when one has been
  generated; it is used when \<open>fulldag\<close> asks for it.
\<close>

definition verifySeal_own ::
  "crypto \<Rightarrow> (bytes \<Rightarrow> bytes) \<Rightarrow> u32 list option \<Rightarrow> Powhash \<Rightarrow> Header \<Rightarrow> bool \<Rightarrow> pow_error option" where
  "verifySeal_own cr k512 dag p header fulldag =
    (case Difficulty header of None \<Rightarrow> Some PowPanic
     | Some difficulty \<Rightarrow>
       if difficulty \<le> 0 then Some pow_errInvalidDifficulty
       else
         (let number = pow_number header;
              hash = hash_bytes (pow_SealHash cr header);
              (digest, result) =
                (case (if fulldag then dag else None) of
                   Some dataset \<Rightarrow> hashimotoFull cr k512 dataset hash (Nonce header)
                 | None \<Rightarrow> hashimotoLight cr k512 (pow_dataset_size p number) (pow_cache cr k512 p number) hash (Nonce header))
          in if hash_bytes (MixDigest header) \<noteq> digest then Some pow_errInvalidMixDigest
             else (let target = 2 ^ 256 div difficulty in
                   if int (be_nat result) > target then Some errInvalidPoW else None)))"

text \<open>The engine that does the work: the shared one when there is one.\<close>

definition delegate :: "Powhash \<Rightarrow> Powhash" where
  "delegate p = (if shared p then sharedPowhash else p)"

definition pow_verifySeal ::
  "crypto \<Rightarrow> (bytes \<Rightarrow> bytes) \<Rightarrow> u32 list option \<Rightarrow> Powhash \<Rightarrow> Header \<Rightarrow> bool \<Rightarrow> pow_error option" where
  "pow_verifySeal cr k512 dag p header fulldag =
    (if PowMode p = ModeFake \<or> PowMode p = ModeFullFake
     then (if fakeFail p = pow_number header then Some errInvalidPoW else None)
     else verifySeal_own cr k512 dag (delegate p) header fulldag)"

section \<open>Header verification\<close>

definition allowedFutureBlockTimeSeconds :: u64 where "allowedFutureBlockTimeSeconds = 15"

definition maxUncles :: nat where "maxUncles = 2"

definition pow_verify_fees :: "ChainConfig \<Rightarrow> Header \<Rightarrow> Header \<Rightarrow> pow_error option" where
  "pow_verify_fees config header parent =
    (if \<not> IsLondon config (Number header)
     then (case BaseFee header of Some f \<Rightarrow> Some (BaseFeeBeforeFork f)
           | None \<Rightarrow> map_option PowFee (VerifyGaslimit (GasLimit parent) (GasLimit header)))
     else map_option PowFee (VerifyEip1559Header config parent header))"

text \<open>The checks of \<open>verifyHeader\<close> after the difficulty, up to the seal.\<close>

definition pow_verify_limits :: "ChainConfig \<Rightarrow> Header \<Rightarrow> Header \<Rightarrow> pow_error option" where
  "pow_verify_limits config header parent =
    (if GasLimit header > MaxGasLimit then Some (GasLimitTooHigh (GasLimit header))
     else if GasUsed header > GasLimit header then Some (GasUsedTooHigh (GasUsed header) (GasLimit header))
     else (case pow_verify_fees config header parent of Some e \<Rightarrow> Some e
           | None \<Rightarrow> if the (Number header) - the (Number parent) \<noteq> 1 then Some pow_ErrInvalidNumber else None))"

definition pow_verify_special :: "crypto \<Rightarrow> ChainConfig \<Rightarrow> Header \<Rightarrow> bool \<Rightarrow> pow_error option" where
  "pow_verify_special cr config header uncle =
    (case VerifyDAOHeaderExtraData config header of Some e \<Rightarrow> Some (PowDAO e)
     | None \<Rightarrow> map_option (\<lambda>(have, want). PowForkHash have want) (VerifyForkHashes cr config header uncle))"

definition pow_verifyHeader ::
  "crypto \<Rightarrow> (bytes \<Rightarrow> bytes) \<Rightarrow> ChainConfig \<Rightarrow> Powhash \<Rightarrow> Header \<Rightarrow> Header \<Rightarrow> bool \<Rightarrow> bool \<Rightarrow> u64 \<Rightarrow> pow_error option" where
  "pow_verifyHeader cr k512 config p header parent uncle seal unixNow =
    (if length (Extra header) > unat MaximumExtraDataSize then Some (ExtraTooLong (length (Extra header)))
     else if \<not> uncle \<and> Time header > unixNow + allowedFutureBlockTimeSeconds then Some pow_ErrFutureBlock
     else if Time header \<le> Time parent then Some errOlderBlockTime
     else
       (case Difficulty header of None \<Rightarrow> Some PowPanic
        | Some difficulty \<Rightarrow>
          (let expected = CalcDifficulty cr (Time header) parent in
           if expected \<noteq> difficulty then Some (WrongDifficulty difficulty expected)
           else
             (case pow_verify_limits config header parent of Some e \<Rightarrow> Some e
              | None \<Rightarrow>
                (case (if seal then pow_verifySeal cr k512 None p header False else None) of Some e \<Rightarrow> Some e
                 | None \<Rightarrow> pow_verify_special cr config header uncle)))))"

definition pow_VerifyHeader ::
  "crypto \<Rightarrow> (bytes \<Rightarrow> bytes) \<Rightarrow> ChainReader \<Rightarrow> Powhash \<Rightarrow> u64 \<Rightarrow> Header \<Rightarrow> bool \<Rightarrow> pow_error option" where
  "pow_VerifyHeader cr k512 chain p unixNow header seal =
    (if PowMode p = ModeFullFake then None
     else
       (let number = pow_number header in
        if GetHeader chain (Hash cr header) number \<noteq> None then None
        else
          (case GetHeader chain (ParentHash header) (number - 1) of None \<Rightarrow> Some pow_ErrUnknownAncestor
           | Some parent \<Rightarrow> pow_verifyHeader cr k512 (chainConfig chain) p header parent False seal unixNow)))"

text \<open>
  A batch: workers verify headers in any order, and a collector releases the results in the
  order of the headers. \<open>release\<close> is the collector's inner loop, \<open>collect\<close> its handling of the indices in
  the order \<open>dones\<close> the workers report them; the state is the next index to release, the indices
  reported and the results released.
\<close>

definition verifyHeaderWorker ::
  "crypto \<Rightarrow> (bytes \<Rightarrow> bytes) \<Rightarrow> ChainReader \<Rightarrow> Powhash \<Rightarrow> u64 \<Rightarrow> Header list \<Rightarrow> bool list \<Rightarrow> nat \<Rightarrow> pow_error option" where
  "verifyHeaderWorker cr k512 chain p unixNow headers seals index =
    (let parent =
       (if index = 0 then GetHeader chain (ParentHash (headers ! 0)) (pow_number (headers ! 0) - 1)
        else if Hash cr (headers ! (index - 1)) = ParentHash (headers ! index) then Some (headers ! (index - 1))
        else None)
     in case parent of None \<Rightarrow> Some pow_ErrUnknownAncestor
        | Some parent \<Rightarrow> pow_verifyHeader cr k512 (chainConfig chain) p (headers ! index) parent False (seals ! index) unixNow)"

function release :: "'e list \<Rightarrow> bool list \<Rightarrow> nat \<Rightarrow> 'e list \<Rightarrow> nat \<times> 'e list" where
  "release errors checked out outs =
    (if out < length errors \<and> checked ! out then release errors checked (out + 1) (outs @ [errors ! out])
     else (out, outs))"
  by pat_completeness auto
termination by (relation "measure (\<lambda>(errors, checked, out, outs). length errors - out)") auto

declare release.simps [simp del]

definition collect_step :: "(nat \<Rightarrow> 'e) \<Rightarrow> 'e list \<times> bool list \<times> nat \<times> 'e list \<Rightarrow> nat \<Rightarrow> 'e list \<times> bool list \<times> nat \<times> 'e list" where
  "collect_step worker st index =
    (let (errors, checked, out, outs) = st;
         errors = errors[index := worker index];
         checked = checked[index := True];
         (out, outs) = release errors checked out outs
     in (errors, checked, out, outs))"

definition collect :: "(nat \<Rightarrow> 'e) \<Rightarrow> 'e \<Rightarrow> nat \<Rightarrow> nat list \<Rightarrow> 'e list" where
  "collect worker none n dones =
    (case foldl (collect_step worker) (replicate n none, replicate n False, 0, []) dones of (_, _, _, outs) \<Rightarrow> outs)"

definition pow_VerifyHeaders ::
  "crypto \<Rightarrow> (bytes \<Rightarrow> bytes) \<Rightarrow> ChainReader \<Rightarrow> Powhash \<Rightarrow> u64 \<Rightarrow> nat list \<Rightarrow> Header list \<Rightarrow> bool list \<Rightarrow> pow_error option list" where
  "pow_VerifyHeaders cr k512 chain p unixNow dones headers seals =
    (if PowMode p = ModeFullFake \<or> headers = [] then replicate (length headers) None
     else collect (verifyHeaderWorker cr k512 chain p unixNow headers seals) None (length headers) dones)"

section \<open>Uncles\<close>

text \<open>\<open>blocks\<close> is \<open>GetBlock\<close> of the chain, as far as it is used here: the uncles of a stored block.\<close>

fun gather_ancestors ::
  "crypto \<Rightarrow> ChainReader \<Rightarrow> (hash \<Rightarrow> u64 \<Rightarrow> Header list option) \<Rightarrow> nat \<Rightarrow> hash \<Rightarrow> u64 \<Rightarrow>
   (hash \<times> Header) list \<Rightarrow> hash list \<Rightarrow> (hash \<times> Header) list \<times> hash list" where
  "gather_ancestors cr chain blocks 0 parent number ancestors uncles = (ancestors, uncles)"
| "gather_ancestors cr chain blocks (Suc i) parent number ancestors uncles =
    (case GetHeader chain parent number of None \<Rightarrow> (ancestors, uncles)
     | Some ancestorHeader \<Rightarrow>
       (let ancestors = map_put parent ancestorHeader ancestors in
        if UncleHash ancestorHeader \<noteq> EmptyUncleHash cr then
          (case blocks parent number of None \<Rightarrow> (ancestors, uncles)
           | Some us \<Rightarrow> gather_ancestors cr chain blocks i (ParentHash ancestorHeader) (number - 1) ancestors
                          (uncles @ map (Hash cr) us))
        else gather_ancestors cr chain blocks i (ParentHash ancestorHeader) (number - 1) ancestors uncles))"

definition verify_uncle ::
  "crypto \<Rightarrow> (bytes \<Rightarrow> bytes) \<Rightarrow> ChainConfig \<Rightarrow> Powhash \<Rightarrow> u64 \<Rightarrow> Header \<Rightarrow> (hash \<times> Header) list \<Rightarrow> hash list \<Rightarrow> Header \<Rightarrow> pow_error + hash list" where
  "verify_uncle cr k512 config p unixNow block ancestors uncles uncle =
    (let hash = Hash cr uncle in
     if hash \<in> set uncles then Inl errDuplicateUncle
     else if map_of ancestors hash \<noteq> None then Inl errUncleIsAncestor
     else if map_of ancestors (ParentHash uncle) = None \<or> ParentHash uncle = ParentHash block then Inl errDanglingUncle
     else (case pow_verifyHeader cr k512 config p uncle (the (map_of ancestors (ParentHash uncle))) True True unixNow of
             Some e \<Rightarrow> Inl e | None \<Rightarrow> Inr (uncles @ [hash])))"

definition pow_VerifyUncles ::
  "crypto \<Rightarrow> (bytes \<Rightarrow> bytes) \<Rightarrow> ChainReader \<Rightarrow> (hash \<Rightarrow> u64 \<Rightarrow> Header list option) \<Rightarrow> Powhash \<Rightarrow> u64 \<Rightarrow> Header \<Rightarrow> Header list \<Rightarrow> pow_error option" where
  "pow_VerifyUncles cr k512 chain blocks p unixNow block block_uncles =
    (if PowMode p = ModeFullFake then None
     else if length block_uncles > maxUncles then Some errTooManyUncles
     else if block_uncles = [] then None
     else
       (let (ancestors, uncles) = gather_ancestors cr chain blocks 7 (ParentHash block) (pow_number block - 1) [] [];
            ancestors = map_put (Hash cr block) block ancestors;
            uncles = uncles @ [Hash cr block]
        in case run_res (verify_uncle cr k512 (chainConfig chain) p unixNow block ancestors) uncles block_uncles of
             Inl e \<Rightarrow> Some e | Inr _ \<Rightarrow> None))"

section \<open>Preparing, finalizing and mining\<close>

text \<open>\<open>refusePosa\<close> with a chain at hand; a nil chain occurs in unit tests only.\<close>

definition refusePosa :: "ChainConfig \<Rightarrow> int option \<Rightarrow> pow_error option" where
  "refusePosa config number = (if IsPosa config number then Some errPosaBlock else None)"

definition pow_Prepare :: "crypto \<Rightarrow> ChainReader \<Rightarrow> Header \<Rightarrow> pow_error + Header" where
  "pow_Prepare cr chain header =
    (case refusePosa (chainConfig chain) (Number header) of Some e \<Rightarrow> Inl e
     | None \<Rightarrow>
       (case GetHeader chain (ParentHash header) (pow_number header - 1) of None \<Rightarrow> Inl pow_ErrUnknownAncestor
        | Some parent \<Rightarrow> Inr (header\<lparr>Difficulty := Some (CalcDifficulty cr (Time header) parent)\<rparr>)))"

definition pow_Finalize :: "(ledger \<Rightarrow> bool \<Rightarrow> hash) \<Rightarrow> ChainReader \<Rightarrow> Header \<Rightarrow> ledger \<Rightarrow> Header list \<Rightarrow> Header \<times> ledger" where
  "pow_Finalize intermediateRoot chain header st uncles =
    (let st = accumulateRewards st header uncles
     in (header\<lparr>Root := intermediateRoot st (IsEIP158 (chainConfig chain) (Number header))\<rparr>, st))"

text \<open>
  The nonce search of one thread from nonce \<open>seed\<close>. It polls its abort channel before every
  nonce; \<open>polls\<close> is the number of times the channel is found empty, so \<open>None\<close> is an aborted search.
\<close>

fun mine_search :: "crypto \<Rightarrow> (bytes \<Rightarrow> bytes) \<Rightarrow> u32 list \<Rightarrow> bytes \<Rightarrow> int \<Rightarrow> nat \<Rightarrow> u64 \<Rightarrow> (u64 \<times> bytes) option" where
  "mine_search cr k512 dataset hash target 0 nonce = None"
| "mine_search cr k512 dataset hash target (Suc polls) nonce =
    (let (digest, result) = hashimotoFull cr k512 dataset hash nonce in
     if int (be_nat result) \<le> target then Some (nonce, digest)
     else mine_search cr k512 dataset hash target polls (nonce + 1))"

definition mine :: "crypto \<Rightarrow> (bytes \<Rightarrow> bytes) \<Rightarrow> u32 list \<Rightarrow> Header \<Rightarrow> u64 \<Rightarrow> nat \<Rightarrow> Header option" where
  "mine cr k512 dataset header seed polls =
    (let hash = hash_bytes (pow_SealHash cr header);
         target = 2 ^ 256 div the (Difficulty header)
     in case mine_search cr k512 dataset hash target polls seed of None \<Rightarrow> None
        | Some (nonce, digest) \<Rightarrow> Some (header\<lparr>Nonce := nonce, MixDigest := bytes_hash digest\<rparr>))"

text \<open>
  \<open>Seal\<close> with the thread that wins, its starting nonce and the polls before an abort. \<open>Inr None\<close> is a
  search stopped without a block.
\<close>

definition pow_Seal ::
  "crypto \<Rightarrow> (bytes \<Rightarrow> bytes) \<Rightarrow> nat list \<Rightarrow> ChainReader \<Rightarrow> Powhash \<Rightarrow> Header \<Rightarrow> u64 \<Rightarrow> nat \<Rightarrow> pow_error + Header option" where
  "pow_Seal cr k512 order chain p header seed polls =
    (case refusePosa (chainConfig chain) (Number header) of Some e \<Rightarrow> Inl e
     | None \<Rightarrow>
       if PowMode p = ModeFake \<or> PowMode p = ModeFullFake then Inr (Some (header\<lparr>Nonce := 0, MixDigest := 0\<rparr>))
       else Inr (mine cr k512 (pow_dataset cr k512 order (delegate p) (pow_number header)) header seed polls))"

section \<open>The batch collector\<close>

lemma release_result:
  assumes "outs = map worker [0..<out]" and "out \<le> length errors"
    and "\<And>i. i < length errors \<Longrightarrow> checked ! i \<Longrightarrow> errors ! i = worker i"
  shows "\<exists>out'. release errors checked out outs = (out', map worker [0..<out']) \<and> out \<le> out' \<and> out' \<le> length errors \<and>
    (\<forall>i. out \<le> i \<and> i < out' \<longrightarrow> checked ! i) \<and> (out' = length errors \<or> \<not> checked ! out')"
  using assms
proof (induction errors checked out outs rule: release.induct)
  case (1 errors checked out outs)
  show ?case
  proof (cases "out < length errors \<and> checked ! out")
    case True
    have "outs @ [errors ! out] = map worker [0..<out + 1]" using 1(2,4) True by simp
    from "1.IH" [OF True this] 1(4) True obtain out' where
      o: "release errors checked (out + 1) (outs @ [errors ! out]) = (out', map worker [0..<out'])"
        "out + 1 \<le> out'" "out' \<le> length errors" "\<forall>i. out + 1 \<le> i \<and> i < out' \<longrightarrow> checked ! i"
        "out' = length errors \<or> \<not> checked ! out'" by auto
    have "\<forall>i. out \<le> i \<and> i < out' \<longrightarrow> checked ! i" using o(4) True by (metis Suc_eq_plus1 le_antisym not_less_eq_eq)
    with o True show ?thesis by (subst release.simps) auto
  next
    case False
    then show ?thesis using 1(2,3) by (subst release.simps) auto
  qed
qed

definition collecting :: "(nat \<Rightarrow> 'e) \<Rightarrow> nat \<Rightarrow> nat set \<Rightarrow> 'e list \<times> bool list \<times> nat \<times> 'e list \<Rightarrow> bool" where
  "collecting worker n S st \<longleftrightarrow>
    (case st of (errors, checked, out, outs) \<Rightarrow>
       length errors = n \<and> length checked = n \<and> out \<le> n \<and> outs = map worker [0..<out] \<and>
       (\<forall>i < n. checked ! i = (i \<in> S)) \<and> (\<forall>i \<in> S. errors ! i = worker i) \<and>
       (out = n \<or> out \<notin> S))"

lemma collect_step_collecting:
  assumes "collecting worker n S st" and "k < n" and "S \<subseteq> {..<n}"
  shows "collecting worker n (insert k S) (collect_step worker st k)"
proof -
  obtain errors checked out outs where st: "st = (errors, checked, out, outs)" by (cases st)
  let ?e = "errors[k := worker k]" and ?c = "checked[k := True]"
  have a: "length errors = n" "length checked = n" "out \<le> n" "outs = map worker [0..<out]"
    "\<forall>i < n. checked ! i = (i \<in> S)" "\<forall>i \<in> S. errors ! i = worker i"
    using assms(1) by (auto simp: collecting_def st)
  have c: "?c ! i = (i \<in> insert k S)" if "i < n" for i using a that by (cases "i = k") auto
  have e: "?e ! i = worker i" if "i \<in> insert k S" for i using a that assms(2) by (cases "i = k") auto
  have l: "out \<le> length ?e" "length ?e = n" using a by simp_all
  have "?e ! i = worker i" if "i < length ?e" "?c ! i" for i using that c e l(2) by blast
  from release_result [of outs worker out ?e ?c, OF a(4) l(1) this] l(2) obtain out' where
    r: "release ?e ?c out outs = (out', map worker [0..<out'])" "out' \<le> n" "out' = n \<or> \<not> ?c ! out'" by blast
  have "out' = n \<or> out' \<notin> insert k S" using r(2,3) c [of out'] by auto
  then show ?thesis using a r c by (simp add: collect_step_def st collecting_def del: insert_iff) (metis e insertI1 insertI2)
qed

lemma collect_collecting:
  assumes "collecting worker n S st" and "set ds \<subseteq> {..<n}" and "S \<subseteq> {..<n}"
  shows "collecting worker n (S \<union> set ds) (foldl (collect_step worker) st ds)"
  using assms
proof (induction ds arbitrary: S st)
  case (Cons d ds)
  have "collecting worker n (insert d S) (collect_step worker st d)" "insert d S \<subseteq> {..<n}"
    using collect_step_collecting [OF Cons.prems(1)] Cons.prems by auto
  from Cons.IH [OF this(1) _ this(2)] Cons.prems(2) show ?case by simp
qed simp

lemma collect_in_order:
  assumes "set dones = {..<n}"
  shows "collect worker none n dones = map worker [0..<n]"
proof -
  have "collecting worker n {} (replicate n none, replicate n False, 0, [])" by (simp add: collecting_def)
  from collect_collecting [OF this, of dones] assms
  have "collecting worker n {..<n} (foldl (collect_step worker) (replicate n none, replicate n False, 0, []) dones)" by simp
  then show ?thesis by (auto simp: collect_def collecting_def split: prod.splits)
qed

text \<open>
  C35. The results of a batch do not depend on the order in which the workers finish: in every
  order, result \<open>i\<close> of \<open>VerifyHeaders\<close> is that of header \<open>i\<close>, verified on its predecessor in the batch.
\<close>

theorem pow_VerifyHeaders_in_order:
  assumes "PowMode p \<noteq> ModeFullFake" and "mset dones = mset [0..<length headers]"
  shows "pow_VerifyHeaders cr k512 chain p t dones headers seals
    = map (verifyHeaderWorker cr k512 chain p t headers seals) [0..<length headers]"
proof (cases "headers = []")
  case False
  have "set dones = {..<length headers}" using assms(2) by (metis atLeast0LessThan mset_eq_setD set_upt)
  then show ?thesis using False assms(1) by (simp add: pow_VerifyHeaders_def collect_in_order)
qed (simp add: pow_VerifyHeaders_def)

section \<open>Caches\<close>

text \<open>Whatever was asked for before and whatever was dropped, the item returned is the one of the epoch asked for.\<close>

definition lru_ok :: "(u64 \<Rightarrow> 'a) \<Rightarrow> 'a lru \<Rightarrow> bool" where
  "lru_ok new l \<longleftrightarrow> (\<forall>e item. lru_cache l e = Some item \<longrightarrow> item = new e) \<and>
    (0 < lru_future l \<longrightarrow> lru_futureItem l = Some (new (lru_future l)))"

lemma newlru_ok: "lru_ok new newlru"
  by (simp add: lru_ok_def newlru_def)

lemma lru_get_epoch:
  assumes "lru_ok new l" and "lru_get new evict l epoch = (item, future, l')"
  shows "item = new epoch" and "lru_ok new l'"
  using assms unfolding lru_get_def lru_ok_def
  by (auto simp: Let_def split: option.splits if_splits prod.splits)
section \<open>Accepted uncles\<close>

text \<open>
  What the engine relies on of the chain: \<open>GetHeader\<close> returns a header of that hash and number, and
  there is none at the last 64-bit number.
\<close>

definition reader_ok :: "crypto \<Rightarrow> ChainReader \<Rightarrow> bool" where
  "reader_ok cr chain \<longleftrightarrow> (\<forall>h n x. GetHeader chain h n = Some x \<longrightarrow> Hash cr x = h \<and> Number x = Some (uint n) \<and> n \<noteq> - 1)"

lemma gather_ancestors_number:
  assumes "reader_ok cr chain" and "gather_ancestors cr chain blocks i parent number anc old = (anc', old')"
    and "map_of anc' h = Some x"
  shows "map_of anc h = Some x \<or> (h = parent \<and> 0 < i \<and> Number x = Some (uint number)) \<or>
    (\<exists>j. 0 < j \<and> j < i \<and> Number x = Some (uint number - int j))"
  using assms(2,3)
proof (induction i arbitrary: parent number anc old)
  case (Suc i)
  show ?case
  proof (cases "GetHeader chain parent number")
    case (Some a)
    then have a: "Number a = Some (uint number)" using assms(1) by (auto simp: reader_ok_def)
    let ?anc = "map_put parent a anc"
    have here: "map_of ?anc h = Some x \<Longrightarrow> map_of anc h = Some x \<or> h = parent \<and> Number x = Some (uint number)"
      using a by (auto simp: map_of_map_put split: if_splits)
    from Suc.prems(1) Some consider "anc' = ?anc"
      | old2 where "gather_ancestors cr chain blocks i (ParentHash a) (number - 1) ?anc old2 = (anc', old')"
      by (auto simp: Let_def split: if_splits option.splits)
    then show ?thesis
    proof cases
      case 1
      then show ?thesis using here Suc.prems(2) by auto
    next
      case 2
      have "number \<noteq> 0 \<or> i = 0 \<or> anc' = ?anc"
      proof (cases "number = 0 \<and> i \<noteq> 0")
        case True
        then have "GetHeader chain (ParentHash a) (number - 1) = None"
          using assms(1) by (cases "GetHeader chain (ParentHash a) (- 1)") (auto simp: reader_ok_def)
        then show ?thesis using 2 True by (cases i) auto
      qed auto
      then consider "number \<noteq> 0" | "anc' = ?anc" using 2 by auto
      then show ?thesis
      proof cases
        case 1
        then have "uint (number - 1) = uint number - 1" by (rule uint_dec)
        with Suc.IH [OF 2 Suc.prems(2)] here show ?thesis
          by (auto intro: exI [of _ 1] exI [of _ "Suc j" for j])
      next
        case 2
        then show ?thesis using here Suc.prems(2) by auto
      qed
    qed
  qed (use Suc.prems in auto)
qed simp

lemma verify_uncles_run:
  assumes "run_res (verify_uncle cr k512 config p t block anc) old us = Inr old'"
  shows "distinct (map (Hash cr) us) \<and> set (map (Hash cr) us) \<inter> set old = {} \<and>
    (\<forall>u \<in> set us. map_of anc (Hash cr u) = None \<and> ParentHash u \<noteq> ParentHash block \<and>
      (\<exists>a. map_of anc (ParentHash u) = Some a \<and> pow_verifyHeader cr k512 config p u a True True t = None))"
  using assms
proof (induction us arbitrary: old)
  case (Cons u us)
  from Cons.prems obtain old1 where v: "verify_uncle cr k512 config p t block anc old u = Inr old1"
    and r: "run_res (verify_uncle cr k512 config p t block anc) old1 us = Inr old'"
    by (auto split: sum.splits)
  from v have "old1 = old @ [Hash cr u]" "Hash cr u \<notin> set old" "map_of anc (Hash cr u) = None" "ParentHash u \<noteq> ParentHash block"
    "\<exists>a. map_of anc (ParentHash u) = Some a \<and> pow_verifyHeader cr k512 config p u a True True t = None"
    by (auto simp: verify_uncle_def Let_def split: if_splits option.splits)
  with Cons.IH [OF r] show ?case by auto
qed simp

lemma pow_verifyHeader_None:
  assumes "pow_verifyHeader cr k512 config p x parent uncle True t = None"
  shows "the (Number x) = the (Number parent) + 1" and "pow_verifySeal cr k512 None p x False = None"
    and "Time parent < Time x" and "Difficulty x = Some (CalcDifficulty cr (Time x) parent)"
  using assms
  by (auto simp: pow_verifyHeader_def pow_verify_limits_def Let_def split: if_splits option.splits)
section \<open>Mined blocks verify\<close>

lemma length_copy_at: "off \<le> length dst \<Longrightarrow> length (copy_at dst off src) = length dst"
  by (simp add: copy_at_def)

lemma length_copies:
  assumes "\<forall>j \<in> set js. j * hashWords \<le> length temp"
  shows "length (foldl (\<lambda>temp j. copy_at temp (j * hashWords) (f j)) temp js) = length temp"
  using assms by (induction js arbitrary: temp) (simp_all add: length_copy_at)

lemma hashimoto_step_length:
  assumes "length (fst st) = 32" and "length (snd st) = 32"
  shows "length (fst (hashimoto_step rows sh l st i)) = 32 \<and> length (snd (hashimoto_step rows sh l st i)) = 32"
proof -
  obtain mix temp where st: "st = (mix, temp)" by (cases st)
  have "length (foldl (\<lambda>temp j. copy_at temp (j * hashWords) (l (2 * q + word_of_nat j))) temp [0..<mixBytes div hashBytes]) = 32" for q
    using assms by (subst length_copies) (auto simp: st mixBytes_def hashBytes_def hashWords_def)
  then show ?thesis using assms by (simp add: hashimoto_step_def st Let_def fnvHash_def)
qed

lemma hashimoto_mix_length:
  assumes "length (fst st) = 32" and "length (snd st) = 32"
  shows "length (fst (foldl (hashimoto_step rows sh l) st is)) = 32"
  using assms by (induction "is" arbitrary: st) (simp_all add: hashimoto_step_length)

lemma length_compress_mix: "length (compress_mix mix) = length mix div 4"
proof -
  have "length (foldl (\<lambda>mix k. mix[k := f mix k]) mix ks) = length mix" for f and ks :: "nat list"
    by (induction ks arbitrary: mix) simp_all
  then show ?thesis by (simp add: compress_mix_def)
qed

lemma length_digest: "length (fst (hashimoto cr k512 h n sz l)) = 32"
proof -
  have "length (concat (map put_u32 ws)) = 4 * length ws" for ws
    by (induction ws) (simp_all add: put_u32_def)
  then show ?thesis
    by (simp add: hashimoto_def Let_def case_prod_beta length_compress_mix hashimoto_mix_length mixBytes_def)
qed

lemma mine_search_found:
  assumes "mine_search cr k512 D h target polls nonce = Some (n, d)"
  shows "\<exists>r. hashimotoFull cr k512 D h n = (d, r) \<and> int (be_nat r) \<le> target"
  using assms by (induction polls arbitrary: nonce) (auto simp: Let_def split: prod.splits if_splits)

lemma mine_search_finds:
  assumes "k < polls" and "int (be_nat (snd (hashimotoFull cr k512 D h (nonce + word_of_nat k)))) \<le> target"
  shows "mine_search cr k512 D h target polls nonce \<noteq> None"
  using assms
proof (induction polls arbitrary: nonce k)
  case (Suc polls)
  show ?case
  proof (cases k)
    case 0
    then show ?thesis using Suc.prems by (auto simp: Let_def split: prod.splits)
  next
    case (Suc k')
    then have "mine_search cr k512 D h target polls (nonce + 1) \<noteq> None"
      using Suc.prems by (intro Suc.IH [of k']) (simp_all add: algebra_simps)
    then show ?thesis by (simp add: case_prod_beta Let_def)
  qed
qed simp

lemma pow_epoch:
  fixes number :: u64
  assumes "unat number < 1921 * 30000"
  shows "(number div pow_epochLength * pow_epochLength + 1) div pow_epochLength = number div pow_epochLength"
    and "unat (number div pow_epochLength) < 1921"
proof -
  let ?q = "unat number div 30000"
  have q: "unat (number div pow_epochLength) = ?q" by (simp add: pow_epochLength_def unat_div)
  have le: "?q * 30000 \<le> unat number" by simp
  have "number div pow_epochLength * pow_epochLength + 1 = word_of_nat (?q * 30000 + 1)"
    using q by (simp add: pow_epochLength_def flip: q)
  then have "unat (number div pow_epochLength * pow_epochLength + 1) = ?q * 30000 + 1"
    using le assms by (simp only:) (intro word64_of_nat, simp)
  then have "unat ((number div pow_epochLength * pow_epochLength + 1) div pow_epochLength) = unat (number div pow_epochLength)"
    unfolding q by (simp add: unat_div pow_epochLength_def)
  then show "(number div pow_epochLength * pow_epochLength + 1) div pow_epochLength = number div pow_epochLength"
    by (simp only: unsigned_word_eqI)
  show "unat (number div pow_epochLength) < 1921" using q assms by (simp add: less_mult_imp_div_less)
qed

lemma early_dataset_size:
  assumes "unat number < 1921 * 30000"
  shows "pow_dataset_size p (number div pow_epochLength * pow_epochLength + 1) = pow_dataset_size p number"
    and "128 dvd unat (pow_dataset_size p number)" and "128 \<le> unat (pow_dataset_size p number)"
    and "unat (pow_dataset_size p number) < 2 ^ 34"
proof -
  show "pow_dataset_size p (number div pow_epochLength * pow_epochLength + 1) = pow_dataset_size p number"
    using pow_epoch [OF assms] by (simp add: pow_dataset_size_def datasetSize_def Let_def)
  let ?e = "unat (number div pow_epochLength)"
  have e: "?e < 1921" by (rule pow_epoch [OF assms])
  then have t: "datasetSizes ! ?e mod 256 = 128" "datasetSizes ! ?e < 2 ^ 30 + 2 ^ 23 * ?e"
    using on_line_nth [OF datasetSizes_on_line, of ?e] by (simp_all add: length_tables maxEpoch_def)
  have b: "datasetSizes ! ?e < 2 ^ 34" using t(2) e by simp
  then have "unat (word_of_nat (datasetSizes ! ?e) :: u64) = datasetSizes ! ?e" by (intro word64_of_nat) simp
  then have s: "pow_dataset_size p number = 32 * 1024 \<or> unat (pow_dataset_size p number) = datasetSizes ! ?e"
    using e by (simp add: pow_dataset_size_def datasetSize_def Let_def maxEpoch_def)
  have "datasetSizes ! ?e mod 128 = 0" using mod_mod_cancel [of 128 256 "datasetSizes ! ?e"] t(1) by simp
  then have "128 dvd datasetSizes ! ?e" by (rule mod_0_imp_dvd)
  then show "128 dvd unat (pow_dataset_size p number)" using s by auto
  have "128 \<le> datasetSizes ! ?e" using t(1) by (metis mod_less_eq_dividend)
  then show "128 \<le> unat (pow_dataset_size p number)" using s by auto
  show "unat (pow_dataset_size p number) < 2 ^ 34" using s b by auto
qed

lemma dataset_agrees:
  assumes "\<And>b. length (k512 b) = 64" and "0 < threads" and "unat number < 1921 * 30000"
    and "dataset_order threads (unat (pow_dataset_size p number)) order"
  shows "hashimotoFull cr k512 (pow_dataset cr k512 order p number) h n
    = hashimotoLight cr k512 (pow_dataset_size p number) (pow_cache cr k512 p number) h n"
proof -
  let ?s = "pow_dataset_size p number" and ?dest = "replicate (unat (pow_dataset_size p number div 4)) (0 :: u32)"
  note sz = early_dataset_size [OF assms(3), of p]
  have "4 dvd unat ?s" using sz(2) by (rule dvd_trans [rotated]) simp
  then have l: "4 * length ?dest = unat ?s" by (simp add: unat_div)
  have "pow_dataset cr k512 order p number = generateDataset k512 order ?dest (pow_cache cr k512 p number)"
    using sz(1) by (simp add: pow_dataset_def dataset_generate_def pow_cache_def cache_generate_def Let_def pow_dataset_size_def)
  moreover have "word_of_nat (4 * length ?dest) = ?s" unfolding l by simp
  ultimately show ?thesis
    using light_full_agree [OF assms(1,2), where dest = ?dest and order = order and cr = cr and h = h and n = n
      and cache = "pow_cache cr k512 p number"] assms(4) sz(3,4) unfolding l mixBytes_def by simp
qed

lemma pow_SealHash_seal [simp]: "pow_SealHash cr (h\<lparr>Nonce := n, MixDigest := m\<rparr>) = pow_SealHash cr h"
  by (simp add: pow_SealHash_def)

lemma hash_bytes_of_bytes: "length b = 32 \<Longrightarrow> hash_bytes (bytes_hash b) = b"
proof -
  assume l: "length b = 32"
  have "be_nat b < 2 ^ 256" using be_nat_less [of b] l by simp
  then have "unat (word_of_nat (be_nat b) :: hash) = be_nat b" by (simp add: unat_of_nat)
  then show ?thesis using l be_bytes_be_nat [of b] by (simp add: hash_bytes_def bytes_hash_def)
qed

lemma verifySeal_own_ok:
  assumes "Difficulty h = Some d" and "0 < d" and "int (be_nat r) \<le> 2 ^ 256 div d"
    and "(case (if fulldag then dag else None) of
        Some D \<Rightarrow> hashimotoFull cr k512 D (hash_bytes (pow_SealHash cr h)) (Nonce h)
      | None \<Rightarrow> hashimotoLight cr k512 (pow_dataset_size p (pow_number h)) (pow_cache cr k512 p (pow_number h))
                  (hash_bytes (pow_SealHash cr h)) (Nonce h)) = (hash_bytes (MixDigest h), r)"
  shows "verifySeal_own cr k512 dag p h fulldag = None"
  unfolding verifySeal_own_def Let_def assms(1,4) using assms(2,3) by (simp del: one_less_numeral_iff)

text \<open>
  C29. A mined block verifies: a header released by \<open>Seal\<close> below epoch 1921 passes the seal check,
  computed from the cache and from the dataset, and differs from the prepared header in the
  nonce and the mix digest only. The dataset may be generated by any number of threads in any order.
\<close>

theorem mined_seal_verifies:
  assumes "\<And>b. length (k512 b) = 64" and "0 < threads" and "unat (pow_number header) < 1921 * 30000"
    and "dataset_order threads (unat (pow_dataset_size (delegate p) (pow_number header))) order"
    and "PowMode p \<noteq> ModeFake" and "PowMode p \<noteq> ModeFullFake" and "Difficulty header = Some d" and "0 < d"
    and "pow_Seal cr k512 order chain p header seed polls = Inr (Some sealed)"
  shows "sealed\<lparr>Nonce := Nonce header, MixDigest := MixDigest header\<rparr> = header \<and>
    pow_verifySeal cr k512 None p sealed False = None \<and>
    pow_verifySeal cr k512 (Some (pow_dataset cr k512 order (delegate p) (pow_number header))) p sealed True = None"
proof -
  let ?D = "pow_dataset cr k512 order (delegate p) (pow_number header)" and ?h = "hash_bytes (pow_SealHash cr header)"
  have "mine cr k512 ?D header seed polls = Some sealed"
    using assms(5,6,9) by (auto simp: pow_Seal_def split: option.splits)
  then obtain n g where m: "mine_search cr k512 ?D ?h (2 ^ 256 div d) polls seed = Some (n, g)"
    and s: "sealed = header\<lparr>Nonce := n, MixDigest := bytes_hash g\<rparr>"
    using assms(7) by (auto simp: mine_def Let_def split: option.splits)
  from mine_search_found [OF m] obtain r where
    r: "hashimotoFull cr k512 ?D ?h n = (g, r)" "int (be_nat r) \<le> 2 ^ 256 div d" by blast
  have "length (fst (hashimotoFull cr k512 ?D ?h n)) = 32" unfolding hashimotoFull_def by (rule length_digest)
  then have g: "hash_bytes (bytes_hash g) = g" using r(1) by (simp add: hash_bytes_of_bytes)
  have light: "hashimotoLight cr k512 (pow_dataset_size (delegate p) (pow_number header))
      (pow_cache cr k512 (delegate p) (pow_number header)) ?h n = (g, r)"
    using dataset_agrees [OF assms(1-4)] r(1) by simp
  have num: "pow_number sealed = pow_number header" by (simp add: s pow_number_def)
  have fields: "Difficulty sealed = Some d" "Nonce sealed = n" "hash_bytes (MixDigest sealed) = g"
    "pow_SealHash cr sealed = pow_SealHash cr header" using assms(7) g by (simp_all add: s)
  have "verifySeal_own cr k512 None (delegate p) sealed False = None"
    by (rule verifySeal_own_ok [OF fields(1) assms(8) r(2)]) (simp only: fields num light if_False option.case)
  moreover have "verifySeal_own cr k512 (Some ?D) (delegate p) sealed True = None"
    by (rule verifySeal_own_ok [OF fields(1) assms(8) r(2)]) (simp only: fields num r(1) if_True option.case)
  ultimately show ?thesis using assms(5,6) by (simp add: pow_verifySeal_def) (simp add: s)
qed

text \<open>
  What an uncle must not be, stated on the chain alone: the \<open>k\<close>-th ancestor of a header, reached by
  its parent hashes, and the uncles of a stored block. A chain has the bodies of its blocks when
  it holds one for every header, without uncles where the header's uncle hash is the empty one.
\<close>

fun header_ancestor :: "ChainReader \<Rightarrow> Header \<Rightarrow> nat \<Rightarrow> Header option" where
  "header_ancestor chain x 0 = Some x"
| "header_ancestor chain x (Suc k) =
    (case GetHeader chain (ParentHash x) (pow_number x - 1) of None \<Rightarrow> None | Some a \<Rightarrow> header_ancestor chain a k)"

definition bodies_ok :: "crypto \<Rightarrow> ChainReader \<Rightarrow> (hash \<Rightarrow> u64 \<Rightarrow> Header list option) \<Rightarrow> bool" where
  "bodies_ok cr chain blocks \<longleftrightarrow> (\<forall>h n x. GetHeader chain h n = Some x \<longrightarrow>
    (\<exists>us. blocks h n = Some us \<and> (UncleHash x = EmptyUncleHash cr \<longrightarrow> us = [])))"

lemma gather_ancestors_mono:
  assumes "gather_ancestors cr chain blocks i parent number anc old = (anc', old')"
  shows "set old \<subseteq> set old' \<and> (map_of anc h \<noteq> None \<longrightarrow> map_of anc' h \<noteq> None)"
  using assms
proof (induction i arbitrary: parent number anc old)
  case (Suc i)
  then show ?case by (fastforce simp: Let_def map_of_map_put split: option.splits if_splits)
qed simp

lemma gather_ancestors_covers:
  assumes rd: "reader_ok cr chain" and bo: "bodies_ok cr chain blocks"
    and "gather_ancestors cr chain blocks i (ParentHash x) (pow_number x - 1) anc old = (anc', old')"
    and "k < i" and "header_ancestor chain x (Suc k) = Some a"
  shows "map_of anc' (Hash cr a) \<noteq> None \<and>
    (\<exists>us. blocks (Hash cr a) (pow_number a) = Some us \<and> Hash cr ` set us \<subseteq> set old')"
  using assms(3-)
proof (induction i arbitrary: x anc old k)
  case (Suc i)
  from Suc.prems(3) obtain b where b: "GetHeader chain (ParentHash x) (pow_number x - 1) = Some b" "header_ancestor chain b k = Some a"
    by (auto split: option.splits)
  from rd b(1) have h: "Hash cr b = ParentHash x" "pow_number b = pow_number x - 1"
    by (auto simp: reader_ok_def pow_number_def)
  from bo b(1) obtain us where us: "blocks (Hash cr b) (pow_number b) = Some us" "UncleHash b = EmptyUncleHash cr \<longrightarrow> us = []"
    unfolding h bodies_ok_def by blast
  let ?anc = "map_put (ParentHash x) b anc" and ?old = "old @ map (Hash cr) us"
  have run: "gather_ancestors cr chain blocks i (ParentHash b) (pow_number b - 1) ?anc ?old = (anc', old')"
    using Suc.prems(1) b(1) us by (auto simp: Let_def h split: if_splits)
  show ?case
  proof (cases k)
    case 0
    then have "a = b" using b(2) by simp
    then show ?thesis using gather_ancestors_mono [OF run, of "ParentHash x"] us(1) by (auto simp: h map_of_map_put)
  next
    case (Suc j)
    then show ?thesis using Suc.IH [OF run, of j] Suc.prems(2) b(2) by simp
  qed
qed simp

text \<open>
  C27. Uncles of an accepted block, on a chain that returns headers by their hash and number and
  has the bodies of its blocks, none of the uncles being a child of the block: there are at most
  two, they are distinct, none of them is the block, one of its seven nearest ancestors or an uncle
  that one of these includes, each is one to six blocks older than the block and carries a valid
  seal. The block therefore mints at least its reward and at most 45/16 of it.
\<close>

theorem VerifyUncles_sound:
  assumes "PowMode p \<noteq> ModeFullFake" and "reader_ok cr chain" and "Number block = Some n" and "0 < n" and "n < 2 ^ 64"
    and "\<forall>u \<in> set us. ParentHash u \<noteq> Hash cr block"
    and "pow_VerifyUncles cr k512 chain blocks p t block us = None"
    and "bodies_ok cr chain blocks"
  shows "length us \<le> 2 \<and> distinct (map (Hash cr) us) \<and>
    (\<forall>u \<in> set us. Hash cr u \<noteq> Hash cr block \<and>
      (\<forall>k a. 0 < k \<and> k \<le> 7 \<and> header_ancestor chain block k = Some a \<longrightarrow> Hash cr u \<noteq> Hash cr a \<and>
        (\<exists>vs. blocks (Hash cr a) (pow_number a) = Some vs \<and> Hash cr u \<notin> Hash cr ` set vs)) \<and>
      n - 6 \<le> the (Number u) \<and> the (Number u) < n \<and> pow_verifySeal cr k512 None p u False = None) \<and>
    FerminuxBlockReward n \<le> total_supply (snd (pow_Finalize root chain block st us)) - total_supply st \<and>
    16 * (total_supply (snd (pow_Finalize root chain block st us)) - total_supply st) \<le> 45 * FerminuxBlockReward n"
proof -
  obtain ancestors old where ga:
    "gather_ancestors cr chain blocks 7 (ParentHash block) (pow_number block - 1) [] [] = (ancestors, old)" by fastforce
  let ?anc = "map_put (Hash cr block) block ancestors" and ?old = "old @ [Hash cr block]"
  have len: "length us \<le> 2" using assms(1,7) by (auto simp: pow_VerifyUncles_def maxUncles_def split: if_splits)
  have run: "us = [] \<or> (\<exists>old'. run_res (verify_uncle cr k512 (chainConfig chain) p t block ?anc) ?old us = Inr old')"
    using assms(1,7) by (auto simp: pow_VerifyUncles_def ga split: if_splits sum.splits)
  have "pow_number block \<noteq> 0" "uint (pow_number block) = n"
    using assms(3-5) by (auto simp: pow_number_def uint_word_of_int_eq take_bit_int_eq_self word_of_int_eq_0_iff dest: zdvd_imp_le)
  then have num: "uint (pow_number block - 1) = n - 1" by (simp add: uint_dec)
  have us: "distinct (map (Hash cr) us) \<and> set (map (Hash cr) us) \<inter> set ?old = {} \<and>
    (\<forall>u \<in> set us. map_of ?anc (Hash cr u) = None \<and> ParentHash u \<noteq> ParentHash block \<and>
      (\<exists>a. map_of ?anc (ParentHash u) = Some a \<and> pow_verifyHeader cr k512 (chainConfig chain) p u a True True t = None))"
  proof (cases "us = []")
    case False
    then show ?thesis using run verify_uncles_run by blast
  qed simp
  have age: "n - 6 \<le> the (Number u) \<and> the (Number u) < n \<and> pow_verifySeal cr k512 None p u False = None"
    if "u \<in> set us" for u
  proof -
    from us that obtain a where a: "map_of ?anc (ParentHash u) = Some a" "ParentHash u \<noteq> ParentHash block"
      and v: "pow_verifyHeader cr k512 (chainConfig chain) p u a True True t = None" by blast
    have "map_of ancestors (ParentHash u) = Some a" using a(1) assms(6) that by auto
    from gather_ancestors_number [OF assms(2) ga this] a(2) num obtain j where
      "0 < j" "j < 7" "Number a = Some (n - 1 - int j)" by auto
    then show ?thesis using pow_verifyHeader_None [OF v] by simp
  qed
  have "\<forall>u \<in> set us. n - 7 \<le> the (Number u) \<and> the (Number u) < n" using age by fastforce
  then have mint: "FerminuxBlockReward n \<le> total_supply (snd (pow_Finalize root chain block st us)) - total_supply st \<and>
    16 * (total_supply (snd (pow_Finalize root chain block st us)) - total_supply st) \<le> 45 * FerminuxBlockReward n"
    using rewards_bounds [of us block st] len assms(3) by (simp add: pow_Finalize_def Let_def)
  have fresh: "Hash cr u \<noteq> Hash cr block" "map_of ancestors (Hash cr u) = None" "Hash cr u \<notin> set old" if "u \<in> set us" for u
  proof -
    have "map_of ?anc (Hash cr u) = None" "Hash cr u \<notin> set ?old" using us that by auto
    then show "Hash cr u \<noteq> Hash cr block" "map_of ancestors (Hash cr u) = None" "Hash cr u \<notin> set old" by (auto split: if_splits)
  qed
  have new: "Hash cr u \<noteq> Hash cr a \<and> (\<exists>vs. blocks (Hash cr a) (pow_number a) = Some vs \<and> Hash cr u \<notin> Hash cr ` set vs)"
    if "u \<in> set us" and "0 < k \<and> k \<le> 7 \<and> header_ancestor chain block k = Some a" for u k a
    using gather_ancestors_covers [OF assms(2,8) ga, of "k - 1" a] that fresh [OF that(1)] by fastforce
  show ?thesis using len us age fresh(1) new mint by blast
qed

end
