(* ===== verification/Posa_Engine.thy ===== *)
theory Posa_Engine
  imports Clique_Engine Powhash_Engine
begin

text \<open>
  The dispatching engine of Ferminux (\<open>consensus/posa/posa.go\<close>, \<open>tags.go\<close>): proof-of-work below the
  fork block, authority blocks from it on, with the pinned checkpoint before the fork, the reward
  split of authority blocks and the block tags of the RPC layer.

  The engine that \<open>New\<close> returns is shown to be well formed, and every operation keeps it so. A header
  that a batch accepts is on the checkpointed chain, and the balances a producer computes for a
  block are the ones every verifier computes for the sealed block.
\<close>

section \<open>Configuration\<close>

record posa_config =
  pPeriod :: u64
  pEpoch :: u64
  InitialSigners :: "address list"
  CheckpointHash :: hash
  RewardSink :: address
  Treasury :: address
  BreakGlassOwners :: "address list"
  BreakGlassThreshold :: int

definition FerminuxConfig :: posa_config where
  "FerminuxConfig =
    \<lparr>pPeriod = FerminuxPosaPeriod, pEpoch = FerminuxPosaEpoch, InitialSigners = FerminuxInitialSigners,
     CheckpointHash = FerminuxPosaCheckpointHash, RewardSink = FerminuxRewardSink, Treasury = FerminuxTreasury,
     BreakGlassOwners = FerminuxBreakGlassOwners, BreakGlassThreshold = FerminuxBreakGlassThreshold\<rparr>"

definition ConfigFor :: "ChainConfig option \<Rightarrow> posa_config" where
  "ConfigFor config =
    (let cfg = FerminuxConfig in
     case config of None \<Rightarrow> cfg
     | Some cc \<Rightarrow>
       if CheckpointHash cfg = 0 then cfg
       else
         (let home = FerminuxChainConfig;
              sameChain = (ChainID cc \<noteq> None \<and> ChainID home \<noteq> None \<and> ChainID cc = ChainID home);
              sameFork = (PosaBlock cc \<noteq> None \<and> PosaBlock home \<noteq> None \<and> PosaBlock cc = PosaBlock home)
          in if \<not> sameChain \<or> \<not> sameFork then cfg\<lparr>CheckpointHash := 0\<rparr> else cfg))"

datatype posa_error =
    errCheckpointMismatch | errNotAuthorized
  | errNilChainConfig | errNilPowEngine | errNestedPosa | errPosaBlockSign | errNoAuthorityConfig
  | errBadPeriod u64 u64 | errNoInitialSigners | errTreasuryUnset | errSinkUnset | errBadThreshold int nat
  | errPosaBlockRange | PosaClique clique_error | PosaPow pow_error | PosaWait

text \<open>\<open>lastNotAuthWarn\<close> is the time of the last warning in nanoseconds, \<open>None\<close> for Go's zero time.\<close>

record Posa =
  forkBlock :: "int option"
  posaConfig :: "posa_config option"
  pow :: Powhash
  poa :: "Clique option"
  posaSigner :: address
  lastNotAuthWarn :: "int option"

text \<open>The engine passed to \<open>New\<close> may be nil or a dispatching engine itself.\<close>

datatype inner_engine = NilEngine | PowEngine Powhash | NestedPosa

definition posa_passthrough :: "Powhash \<Rightarrow> posa_config option \<Rightarrow> Posa" where
  "posa_passthrough pw config =
    \<lparr>forkBlock = None, posaConfig = config, pow = pw, poa = None, posaSigner = 0, lastNotAuthWarn = None\<rparr>"

definition check_posa_config :: "int \<Rightarrow> posa_config option \<Rightarrow> posa_error option" where
  "check_posa_config fork config =
    (if fork \<le> 0 then Some errPosaBlockSign
     else
       (case config of None \<Rightarrow> Some errNoAuthorityConfig
        | Some c \<Rightarrow>
          if pPeriod c = 0 \<or> pEpoch c = 0 then Some (errBadPeriod (pPeriod c) (pEpoch c))
          else if length (InitialSigners c) = 0 then Some errNoInitialSigners
          else if Treasury c = 0 then Some errTreasuryUnset
          else if RewardSink c = 0 then Some errSinkUnset
          else if length (BreakGlassOwners c) > 0 \<and>
                  (BreakGlassThreshold c \<le> 0 \<or> BreakGlassThreshold c > int (length (BreakGlassOwners c)))
            then Some (errBadThreshold (BreakGlassThreshold c) (length (BreakGlassOwners c)))
          else None))"

definition arm_authority :: "ChainConfig \<Rightarrow> int \<Rightarrow> posa_config \<Rightarrow> posa_error + Clique" where
  "arm_authority cc fork c =
    (let poa = Clique_New \<lparr>Period = pPeriod c, Epoch = pEpoch c\<rparr>;
         anchor = fork - 1
     in if \<not> IsUint64 anchor then Inl errPosaBlockRange
        else (case SetBootstrap poa (word_of_int anchor) (InitialSigners c) of Inl e \<Rightarrow> Inl (PosaClique e)
              | Inr poa \<Rightarrow>
                if length (BreakGlassOwners c) > 0
                then (case SetBreakGlass poa (Some (ChainID cc, BreakGlassOwners c, BreakGlassThreshold c)) of
                        Inl e \<Rightarrow> Inl (PosaClique e) | Inr poa \<Rightarrow> Inr poa)
                else Inr poa))"

definition posa_New :: "ChainConfig option \<Rightarrow> posa_config option \<Rightarrow> inner_engine \<Rightarrow> posa_error + Posa" where
  "posa_New config cfg inner =
    (case config of None \<Rightarrow> Inl errNilChainConfig
     | Some cc \<Rightarrow>
       (case inner of NilEngine \<Rightarrow> Inl errNilPowEngine
        | NestedPosa \<Rightarrow> Inl errNestedPosa
        | PowEngine pw \<Rightarrow>
          (let p = posa_passthrough pw cfg in
           case PosaBlock cc of None \<Rightarrow> Inr p
           | Some fork \<Rightarrow>
             (case check_posa_config fork cfg of Some e \<Rightarrow> Inl e
              | None \<Rightarrow>
                (case arm_authority cc fork (the cfg) of Inl e \<Rightarrow> Inl e
                 | Inr c \<Rightarrow> Inr (p\<lparr>forkBlock := Some fork, poa := Some c\<rparr>))))))"

text \<open>\<open>Unwrap\<close> sees through engines that expose an inner one.\<close>

datatype engine = EnginePosa Posa | EngineWrapper engine | EngineOther | EngineNil

fun Unwrap :: "engine \<Rightarrow> Posa option" where
  "Unwrap (EnginePosa p) = Some p"
| "Unwrap (EngineWrapper e) = Unwrap e"
| "Unwrap EngineOther = None"
| "Unwrap EngineNil = None"

section \<open>Dispatch\<close>

definition posa_IsPosa :: "Posa \<Rightarrow> int option \<Rightarrow> bool" where
  "posa_IsPosa p num =
    (case forkBlock p of None \<Rightarrow> False | Some f \<Rightarrow> (case num of None \<Rightarrow> False | Some n \<Rightarrow> f \<le> n))"

definition isPosaHeader :: "Posa \<Rightarrow> Header \<Rightarrow> bool" where
  "isPosaHeader p header = posa_IsPosa p (Number header)"

definition posa_Authorize :: "Posa \<Rightarrow> address \<Rightarrow> (address \<Rightarrow> bytes \<Rightarrow> bytes option) \<Rightarrow> Posa" where
  "posa_Authorize p signer signFn =
    p\<lparr>posaSigner := signer, poa := map_option (\<lambda>c. Authorize c signer signFn) (poa p)\<rparr>"

definition posa_Author :: "crypto \<Rightarrow> Posa \<Rightarrow> Header \<Rightarrow> posa_error + address" where
  "posa_Author cr p header =
    (if isPosaHeader p header then (case Author cr header of Inl e \<Rightarrow> Inl (PosaClique e) | Inr a \<Rightarrow> Inr a)
     else Inr (Coinbase header))"

definition verifyCheckpoint :: "crypto \<Rightarrow> Posa \<Rightarrow> Header \<Rightarrow> posa_error option" where
  "verifyCheckpoint cr p header =
    (case (forkBlock p, posaConfig p, Number header) of
       (Some fork, Some c, Some n) \<Rightarrow>
         if CheckpointHash c = 0 then None
         else if n + 1 = fork then (if Hash cr header \<noteq> CheckpointHash c then Some errCheckpointMismatch else None)
         else if n = fork then (if ParentHash header \<noteq> CheckpointHash c then Some errCheckpointMismatch else None)
         else None
     | _ \<Rightarrow> None)"

definition needsCheckpointFilter :: "Posa \<Rightarrow> Header list \<Rightarrow> bool" where
  "needsCheckpointFilter p headers =
    (case (forkBlock p, posaConfig p) of
       (Some fork, Some c) \<Rightarrow>
         if CheckpointHash c = 0 \<or> headers = [] then False
         else (case (Number (headers ! 0), Number (headers ! (length headers - 1))) of
                 (Some first, Some last_number) \<Rightarrow> first \<le> fork \<and> last_number \<ge> fork - 1
               | _ \<Rightarrow> False)
     | _ \<Rightarrow> False)"

text \<open>The outer \<open>None\<close> is a snapshot retrieval that does not return (see \<open>snapshot_returns\<close>).\<close>

definition posa_VerifyHeader ::
  "crypto \<Rightarrow> env \<Rightarrow> (bytes \<Rightarrow> bytes) \<Rightarrow> ChainReader \<Rightarrow> Posa \<Rightarrow> Header \<Rightarrow> bool \<Rightarrow> (posa_error option \<times> Posa) option" where
  "posa_VerifyHeader cr ev k512 chain p header seal =
    (case verifyCheckpoint cr p header of Some e \<Rightarrow> Some (Some e, p)
     | None \<Rightarrow>
       if isPosaHeader p header
       then map_option (\<lambda>(r, c). (map_option PosaClique r, p\<lparr>poa := Some c\<rparr>)) (VerifyHeader cr ev chain (the (poa p)) header)
       else Some (map_option PosaPow (pow_VerifyHeader cr k512 chain (pow p) (now ev) header seal), p))"

definition relay :: "crypto \<Rightarrow> Posa \<Rightarrow> Header list \<Rightarrow> posa_error option list \<Rightarrow> posa_error option list" where
  "relay cr p headers inner =
    map2 (\<lambda>header err. case err of Some e \<Rightarrow> Some e | None \<Rightarrow> verifyCheckpoint cr p header) headers inner"

definition posa_split :: "Posa \<Rightarrow> Header list \<Rightarrow> nat" where
  "posa_split p headers = length (takeWhile (\<lambda>header. \<not> isPosaHeader p header) headers)"

text \<open>\<open>dones\<close> is the order in which the workers of the proof-of-work engine finish.\<close>

definition posa_VerifyHeaders ::
  "crypto \<Rightarrow> env \<Rightarrow> (bytes \<Rightarrow> bytes) \<Rightarrow> ChainReader \<Rightarrow> nat list \<Rightarrow> Posa \<Rightarrow> Header list \<Rightarrow> bool list \<Rightarrow> (posa_error option list \<times> Posa) option" where
  "posa_VerifyHeaders cr ev k512 chain dones p headers seals =
    (let powVerify = (\<lambda>hs ss. map (map_option PosaPow) (pow_VerifyHeaders cr k512 chain (pow p) (now ev) dones hs ss));
         poaVerify = (\<lambda>hs ancestors. map_option (\<lambda>(rs, c). (map (map_option PosaClique) rs, p\<lparr>poa := Some c\<rparr>))
                        (VerifyHeadersWithAncestors cr ev chain (the (poa p)) hs ancestors))
     in if headers = [] then Some (powVerify headers seals, p)
        else
          (let split = posa_split p headers;
               filtered = (\<lambda>results. if needsCheckpointFilter p headers then relay cr p headers results else results)
           in if split = length headers then Some (filtered (powVerify headers seals), p)
              else if split = 0 then map_option (\<lambda>(rs, p'). (filtered rs, p')) (poaVerify headers [])
              else map_option (\<lambda>(rs, p'). (relay cr p headers (powVerify (take split headers) (take split seals) @ rs), p'))
                     (poaVerify (drop split headers) (take split headers))))"

definition posa_VerifyUncles ::
  "crypto \<Rightarrow> env \<Rightarrow> (bytes \<Rightarrow> bytes) \<Rightarrow> ChainReader \<Rightarrow> (hash \<Rightarrow> u64 \<Rightarrow> Header list option) \<Rightarrow> Posa \<Rightarrow> Header \<Rightarrow> Header list \<Rightarrow> posa_error option" where
  "posa_VerifyUncles cr ev k512 chain blocks p block uncles =
    (if isPosaHeader p block then map_option PosaClique (Clique_VerifyUncles uncles)
     else map_option PosaPow (pow_VerifyUncles cr k512 chain blocks (pow p) (now ev) block uncles))"

definition posa_Prepare ::
  "crypto \<Rightarrow> env \<Rightarrow> ChainReader \<Rightarrow> Posa \<Rightarrow> Header \<Rightarrow> ((posa_error + Header) \<times> Posa) option" where
  "posa_Prepare cr ev chain p header =
    (if isPosaHeader p header
     then map_option (\<lambda>(r, c). (map_sum PosaClique (\<lambda>h. h) r, p\<lparr>poa := Some c\<rparr>)) (Prepare cr ev chain (the (poa p)) header)
     else Some (map_sum PosaPow (\<lambda>h. h) (pow_Prepare cr chain header), p))"

section \<open>Rewards and sealing\<close>

definition posa_finalize ::
  "crypto \<Rightarrow> (ledger \<Rightarrow> bool \<Rightarrow> hash) \<Rightarrow> ChainReader \<Rightarrow> Posa \<Rightarrow> Header \<Rightarrow> ledger \<Rightarrow> address \<Rightarrow> Header \<times> ledger" where
  "posa_finalize cr intermediateRoot chain p header st signer =
    (let c = the (posaConfig p);
         st = pay_authority st (the (Number header)) signer (RewardSink c) (Treasury c)
     in (header\<lparr>Root := intermediateRoot st (IsEIP158 (chainConfig chain) (Number header)),
                UncleHash := EmptyUncleHash cr\<rparr>, st))"

definition posa_Finalize ::
  "crypto \<Rightarrow> (ledger \<Rightarrow> bool \<Rightarrow> hash) \<Rightarrow> ChainReader \<Rightarrow> Posa \<Rightarrow> Header \<Rightarrow> ledger \<Rightarrow> Header list \<Rightarrow> Header \<times> ledger" where
  "posa_Finalize cr intermediateRoot chain p header st uncles =
    (if \<not> isPosaHeader p header then pow_Finalize intermediateRoot chain header st uncles
     else (case Author cr header of
             Inl e \<Rightarrow> (header\<lparr>Root := intermediateRoot st (IsEIP158 (chainConfig chain) (Number header)),
                               UncleHash := EmptyUncleHash cr\<rparr>, st)
           | Inr signer \<Rightarrow> posa_finalize cr intermediateRoot chain p header st signer))"

definition notAuthorizedLogInterval :: int where "notAuthorizedLogInterval = 60 * 1000000000"

definition warnNotAuthorized :: "env \<Rightarrow> Posa \<Rightarrow> Posa \<times> bool" where
  "warnNotAuthorized ev p =
    (if (case lastNotAuthWarn p of None \<Rightarrow> True
         | Some t \<Rightarrow> saturate63 (now_ns ev - t) \<ge> notAuthorizedLogInterval)
     then (p\<lparr>lastNotAuthWarn := Some (now_ns ev)\<rparr>, True) else (p, False))"

text \<open>
  \<open>FinalizeAndAssemble\<close> up to the construction of the block from the header (\<open>NewBlock\<close> fills in the
  transaction, receipt and bloom fields).
\<close>

definition posa_FinalizeAndAssemble ::
  "crypto \<Rightarrow> env \<Rightarrow> (ledger \<Rightarrow> bool \<Rightarrow> hash) \<Rightarrow> ChainReader \<Rightarrow> Posa \<Rightarrow> Header \<Rightarrow> ledger \<Rightarrow> Header list \<Rightarrow>
   (posa_error + Header \<times> ledger) \<times> Posa" where
  "posa_FinalizeAndAssemble cr ev intermediateRoot chain p header st uncles =
    (if \<not> isPosaHeader p header then (Inr (pow_Finalize intermediateRoot chain header st uncles), p)
     else (case Author cr header of
             Inr signer \<Rightarrow> (Inr (posa_finalize cr intermediateRoot chain p header st signer), p)
           | Inl e \<Rightarrow>
             (let signer = posaSigner p in
              if signer = 0 then (Inl errNotAuthorized, fst (warnNotAuthorized ev p))
              else (Inr (posa_finalize cr intermediateRoot chain p header st signer), p))))"

text \<open>
  \<open>Seal\<close>: a sealed header with the delay before its release, \<open>PosaWait\<close> where Clique waits for other
  signers, and an aborted nonce search as \<open>Inr None\<close>.
\<close>

definition posa_Seal ::
  "crypto \<Rightarrow> env \<Rightarrow> (bytes \<Rightarrow> bytes) \<Rightarrow> nat list \<Rightarrow> ChainReader \<Rightarrow> Posa \<Rightarrow> Header \<Rightarrow> nat \<Rightarrow> u64 \<Rightarrow> nat \<Rightarrow>
   ((posa_error + (Header \<times> int) option) \<times> Posa) option" where
  "posa_Seal cr ev k512 order chain p header txs seed polls =
    (if isPosaHeader p header
     then map_option (\<lambda>(r, c). ((case r of SealRefused e \<Rightarrow> Inl (PosaClique e) | SealWait \<Rightarrow> Inl PosaWait
                                 | Sealed h delay \<Rightarrow> Inr (Some (h, delay))), p\<lparr>poa := Some c\<rparr>))
            (Seal cr ev chain (the (poa p)) header txs)
     else Some (map_sum PosaPow (map_option (\<lambda>h. (h, 0))) (pow_Seal cr k512 order chain (pow p) header seed polls), p))"

definition posa_SealHash :: "crypto \<Rightarrow> Posa \<Rightarrow> Header \<Rightarrow> hash option" where
  "posa_SealHash cr p header =
    (if isPosaHeader p header then SealHash cr header else Some (pow_SealHash cr header))"

definition posa_CalcDifficulty ::
  "crypto \<Rightarrow> env \<Rightarrow> ChainReader \<Rightarrow> Posa \<Rightarrow> u64 \<Rightarrow> Header \<Rightarrow> (int option \<times> Posa) option" where
  "posa_CalcDifficulty cr ev chain p time parent =
    (if (case Number parent of None \<Rightarrow> False | Some n \<Rightarrow> posa_IsPosa p (Some (n + 1)))
     then map_option (\<lambda>(d, c). (d, p\<lparr>poa := Some c\<rparr>)) (Clique_CalcDifficulty cr ev chain (the (poa p)) parent)
     else Some (Some (CalcDifficulty cr time parent), p))"

section \<open>Block tags\<close>

definition below :: "u64 \<Rightarrow> u64 \<Rightarrow> u64" where
  "below n depth = (if n < depth then 0 else n - depth)"

definition FinalizedNumber :: "Posa \<Rightarrow> Header option \<Rightarrow> int \<Rightarrow> u64 option" where
  "FinalizedNumber p hdr maxReorgDepth =
    (case hdr of None \<Rightarrow> None
     | Some h \<Rightarrow>
       if poa p = None \<or> \<not> posa_IsPosa p (Number h) \<or> maxReorgDepth \<le> 0 then None
       else Some (below (number_of h) (word_of_int maxReorgDepth)))"

definition SafeNumber :: "crypto \<Rightarrow> env \<Rightarrow> ChainReader \<Rightarrow> Posa \<Rightarrow> Header option \<Rightarrow> (u64 option \<times> Posa) option" where
  "SafeNumber cr ev chain p hdr =
    (case hdr of None \<Rightarrow> Some (None, p)
     | Some h \<Rightarrow>
       if poa p = None \<or> \<not> posa_IsPosa p (Number h) then Some (None, p)
       else map_option (\<lambda>(r, c). ((case r of Inl _ \<Rightarrow> None
                | Inr signers \<Rightarrow> if length signers = 0 then None
                    else Some (below (number_of h) (word_of_nat (length signers div 2 + 1)))), p\<lparr>poa := Some c\<rparr>))
              (SignersAt cr ev chain (the (poa p)) h))"

section \<open>Well-formed engines\<close>

text \<open>
  What \<open>New\<close> guarantees of the engine made from a chain configuration \<open>cc\<close>, an authority configuration
  \<open>cfg\<close> and a proof-of-work engine \<open>pw\<close>: it holds the last two unchanged and the fork block of the
  first; without a fork block there is no authority engine; with one, the block is positive and in
  range, the reward addresses are set, and the authority engine is anchored one block below the
  fork with the configured period and epoch, a sorted, duplicate-free, non-empty list of the
  configured signers and, where owners are configured, their break-glass rule for the chain's id,
  with a threshold within their number.
\<close>

definition authority_ok :: "int option \<Rightarrow> int \<Rightarrow> posa_config \<Rightarrow> Clique \<Rightarrow> bool" where
  "authority_ok chainID fork c k \<longleftrightarrow>
    0 < fork \<and> fork \<le> 2 ^ 64 \<and> RewardSink c \<noteq> 0 \<and> Treasury c \<noteq> 0 \<and>
    cConfig k = \<lparr>Period = pPeriod c, Epoch = pEpoch c\<rparr> \<and> pPeriod c \<noteq> 0 \<and> pEpoch c \<noteq> 0 \<and>
    (\<exists>signers. cBootstrap k = Some \<lparr>Anchor = word_of_int (fork - 1), bsSigners = signers\<rparr> \<and>
       set signers = set (InitialSigners c) \<and> sorted_wrt (<) signers \<and> signers \<noteq> [] \<and> 0 \<notin> set signers) \<and>
    (if BreakGlassOwners c = [] then cBreakGlass k = None
     else \<exists>cid. chainID = Some cid \<and>
       cBreakGlass k = Some \<lparr>bgChainID = cid, Owners = BreakGlassOwners c, Threshold = BreakGlassThreshold c\<rparr> \<and>
       0 < BreakGlassThreshold c \<and> BreakGlassThreshold c \<le> int (length (BreakGlassOwners c)))"

definition posa_wf :: "ChainConfig \<Rightarrow> posa_config option \<Rightarrow> Powhash \<Rightarrow> Posa \<Rightarrow> bool" where
  "posa_wf cc cfg pw p \<longleftrightarrow> forkBlock p = PosaBlock cc \<and> posaConfig p = cfg \<and> pow p = pw \<and>
    (case PosaBlock cc of None \<Rightarrow> poa p = None
     | Some fork \<Rightarrow> (\<exists>c k. cfg = Some c \<and> poa p = Some k \<and> authority_ok (ChainID cc) fork c k))"

lemma bootstrap_uniq_result:
  assumes "bootstrap_uniq uniq ss = Inr u" and "distinct uniq" and "0 \<notin> set uniq"
  shows "distinct u \<and> set u = set uniq \<union> set ss \<and> 0 \<notin> set u"
  using assms by (induction uniq ss rule: bootstrap_uniq.induct) (auto split: if_splits)

lemma SetBootstrap_result:
  assumes "SetBootstrap k anchor signers = Inr k'"
  shows "\<exists>l. k' = k\<lparr>cBootstrap := Some \<lparr>Anchor = anchor, bsSigners = l\<rparr>\<rparr> \<and> set l = set signers \<and> sorted_wrt (<) l \<and>
    l \<noteq> [] \<and> 0 \<notin> set l"
proof -
  from assms obtain u where u: "bootstrap_uniq [] signers = Inr u" "signers \<noteq> []"
    and k': "k' = k\<lparr>cBootstrap := Some \<lparr>Anchor = anchor, bsSigners = sort u\<rparr>\<rparr>"
    by (auto simp: SetBootstrap_def split: if_splits sum.splits)
  from bootstrap_uniq_result [OF u(1)] have "distinct u" "set u = set signers" "0 \<notin> set u" by auto
  moreover from this u(2) have "sort u \<noteq> []" by (metis set_empty set_sort)
  ultimately show ?thesis unfolding k' by (intro exI [of _ "sort u"]) (simp add: strict_sorted_iff)
qed

lemma arm_authority_ok:
  assumes "arm_authority cc fork c = Inr k" and "check_posa_config fork (Some c) = None"
  shows "authority_ok (ChainID cc) fork c k"
proof -
  let ?k = "Clique_New \<lparr>Period = pPeriod c, Epoch = pEpoch c\<rparr>"
  have ok: "0 < fork" "pPeriod c \<noteq> 0" "pEpoch c \<noteq> 0" "RewardSink c \<noteq> 0" "Treasury c \<noteq> 0"
    "BreakGlassOwners c = [] \<or> (0 < BreakGlassThreshold c \<and> BreakGlassThreshold c \<le> int (length (BreakGlassOwners c)))"
    using assms(2) by (auto simp: check_posa_config_def split: if_splits)
  from assms(1) obtain k1 where b: "SetBootstrap ?k (word_of_int (fork - 1)) (InitialSigners c) = Inr k1" "IsUint64 (fork - 1)"
    and k: "if BreakGlassOwners c = [] then k = k1
      else SetBreakGlass k1 (Some (ChainID cc, BreakGlassOwners c, BreakGlassThreshold c)) = Inr k"
    by (auto simp: arm_authority_def Let_def split: if_splits sum.splits)
  from SetBootstrap_result [OF b(1)] obtain l where
    l: "k1 = ?k\<lparr>cBootstrap := Some \<lparr>Anchor = word_of_int (fork - 1), bsSigners = l\<rparr>\<rparr>" "set l = set (InitialSigners c)"
      "sorted_wrt (<) l" "l \<noteq> []" "0 \<notin> set l" by blast
  have k1: "cConfig k1 = \<lparr>Period = pPeriod c, Epoch = pEpoch c\<rparr>" "cBreakGlass k1 = None"
    "cBootstrap k1 = Some \<lparr>Anchor = word_of_int (fork - 1), bsSigners = l\<rparr>"
    using ok(3) by (simp_all add: l(1) Clique_New_def Let_def)
  show ?thesis
  proof (cases "BreakGlassOwners c = []")
    case True
    then show ?thesis using k k1 l ok b(2) by (auto simp: authority_ok_def IsUint64_def)
  next
    case False
    with k obtain cid where "ChainID cc = Some cid"
      "k = k1\<lparr>cBreakGlass := Some \<lparr>bgChainID = cid, Owners = BreakGlassOwners c, Threshold = BreakGlassThreshold c\<rparr>\<rparr>"
      by (auto simp: SetBreakGlass_def split: option.splits if_splits)
    then show ?thesis using False k1 l ok b(2) by (auto simp: authority_ok_def IsUint64_def)
  qed
qed

lemma posa_New_wf: "posa_New (Some cc) cfg (PowEngine pw) = Inr p \<Longrightarrow> posa_wf cc cfg pw p"
  by (auto simp: posa_New_def posa_wf_def posa_passthrough_def check_posa_config_def Let_def
      split: option.splits inner_engine.splits sum.splits if_splits intro!: arm_authority_ok)

definition same_authority :: "Clique \<Rightarrow> Clique \<Rightarrow> bool" where
  "same_authority c c' \<longleftrightarrow> cConfig c' = cConfig c \<and> cBootstrap c' = cBootstrap c \<and> cBreakGlass c' = cBreakGlass c"

lemma same_authority_refl [simp]: "same_authority c c"
  by (simp add: same_authority_def)

lemma same_authority_trans: "same_authority a b \<Longrightarrow> same_authority b c \<Longrightarrow> same_authority a c"
  by (simp add: same_authority_def)

lemma snapshot_authority: "snapshot cr ev chain c n h ps = Some (r, c') \<Longrightarrow> same_authority c c'"
  using snapshot_keeps_setup by (auto simp: same_authority_def same_setup_def)

lemma verifyCascading_authority:
  assumes "verifyCascadingFields cr ev chain c x ps = Some (r, c')"
  shows "same_authority c c'"
proof -
  have "c' = c \<or> (\<exists>q. snapshot cr ev chain c (number_of x - 1) (ParentHash x) ps = Some (q, c'))"
    using assms by (auto simp: verifyCascadingFields_def Let_def split: if_splits option.splits sum.splits prod.splits)
  then show ?thesis by (auto dest: snapshot_authority)
qed

lemma verifyHeader_authority:
  assumes "Clique_Engine.verifyHeader cr ev chain c x ps = Some (r, c')"
  shows "same_authority c c'"
proof -
  have "c' = c \<or> verifyCascadingFields cr ev chain c x ps = Some (r, c')"
    using assms by (auto simp: verifyHeader_def split: if_splits option.splits)
  then show ?thesis by (auto dest: verifyCascading_authority)
qed

lemma batch_authority:
  assumes "VerifyHeadersWithAncestors cr ev chain c hs ps = Some (rs, c')"
  shows "same_authority c c' \<and> length rs = length hs"
  using assms
proof (induction hs arbitrary: c ps rs)
  case (Cons h hs)
  from Cons.prems obtain r c1 rs' where h: "Clique_Engine.verifyHeader cr ev chain c h ps = Some (r, c1)"
    and t: "VerifyHeadersWithAncestors cr ev chain c1 hs (ps @ [h]) = Some (rs', c')" and rs: "rs = r # rs'"
    by (auto split: option.splits prod.splits)
  show ?case using Cons.IH [OF t] verifyHeader_authority [OF h] rs by (auto intro: same_authority_trans)
qed simp

lemma Prepare_authority:
  assumes "Prepare cr ev chain c x = Some (r, c')"
  shows "same_authority c c'"
proof -
  have pe: "same_authority c1 (snd (prepare_header cr ev c1 snap y))" for c1 snap y
    using prepare_header_engine [of cr ev c1 snap y] by (auto simp: same_authority_def)
  from assms obtain q c1 where s: "snapshot cr ev chain c (number_of x - 1) (ParentHash x) [] = Some (q, c1)"
    by (auto simp: Prepare_def Let_def number_of_def split: option.splits)
  with assms have "c' = c1 \<or> (\<exists>snap. c' = snd (prepare_header cr ev c1 snap (x\<lparr>Coinbase := 0, Nonce := 0\<rparr>)))"
    by (auto simp: Prepare_def Let_def number_of_def split: option.splits sum.splits prod.splits) (metis snd_conv)+
  then show ?thesis using snapshot_authority [OF s] pe same_authority_trans by blast
qed

lemma Seal_authority:
  assumes "Clique_Engine.Seal cr ev chain c x txs = Some (r, c')"
  shows "same_authority c c'"
proof -
  have "c' = c \<or> (\<exists>q. snapshot cr ev chain c (number_of x - 1) (ParentHash x) [] = Some (q, c'))"
    using assms unfolding Seal_def Let_def
    by (cases "snapshot cr ev chain c (number_of x - 1) (ParentHash x) []")
      (auto split: if_splits option.splits sum.splits)
  then show ?thesis by (auto dest: snapshot_authority)
qed
text \<open>
  The engines a node can have: one that \<open>New\<close> returned, after any sequence of calls of the engine,
  of its authority engine's RPC interface and of the break-glass commands.
\<close>

inductive posa_reachable :: "crypto \<Rightarrow> ChainConfig \<Rightarrow> posa_config option \<Rightarrow> Powhash \<Rightarrow> Posa \<Rightarrow> bool" for cr cc cfg pw where
  created: "posa_New (Some cc) cfg (PowEngine pw) = Inr p \<Longrightarrow> posa_reachable cr cc cfg pw p"
| authorized: "posa_reachable cr cc cfg pw p \<Longrightarrow> posa_reachable cr cc cfg pw (posa_Authorize p a f)"
| verified: "posa_reachable cr cc cfg pw p \<Longrightarrow> posa_VerifyHeader cr ev k512 chain p h seal = Some (r, p') \<Longrightarrow> posa_reachable cr cc cfg pw p'"
| batch: "posa_reachable cr cc cfg pw p \<Longrightarrow> posa_VerifyHeaders cr ev k512 chain dones p hs seals = Some (rs, p') \<Longrightarrow> posa_reachable cr cc cfg pw p'"
| prepared: "posa_reachable cr cc cfg pw p \<Longrightarrow> posa_Prepare cr ev chain p h = Some (q, p') \<Longrightarrow> posa_reachable cr cc cfg pw p'"
| assembled: "posa_reachable cr cc cfg pw p \<Longrightarrow> posa_FinalizeAndAssemble cr ev root chain p h st us = (b, p') \<Longrightarrow> posa_reachable cr cc cfg pw p'"
| sealed: "posa_reachable cr cc cfg pw p \<Longrightarrow> posa_Seal cr ev k512 order chain p h txs seed polls = Some (s, p') \<Longrightarrow> posa_reachable cr cc cfg pw p'"
| difficulty: "posa_reachable cr cc cfg pw p \<Longrightarrow> posa_CalcDifficulty cr ev chain p t h = Some (d, p') \<Longrightarrow> posa_reachable cr cc cfg pw p'"
| tagged: "posa_reachable cr cc cfg pw p \<Longrightarrow> SafeNumber cr ev chain p hdr = Some (n, p') \<Longrightarrow> posa_reachable cr cc cfg pw p'"
| proposed: "posa_reachable cr cc cfg pw p \<Longrightarrow> poa p = Some c \<Longrightarrow> posa_reachable cr cc cfg pw (p\<lparr>poa := Some (Propose c a auth)\<rparr>)"
| discarded: "posa_reachable cr cc cfg pw p \<Longrightarrow> poa p = Some c \<Longrightarrow> posa_reachable cr cc cfg pw (p\<lparr>poa := Some (Discard c a)\<rparr>)"
| armed: "posa_reachable cr cc cfg pw p \<Longrightarrow> poa p = Some c \<Longrightarrow> ArmBreakGlass cr c n ph ss sigs = Inr c' \<Longrightarrow>
     posa_reachable cr cc cfg pw (p\<lparr>poa := Some c'\<rparr>)"
| disarmed: "posa_reachable cr cc cfg pw p \<Longrightarrow> poa p = Some c \<Longrightarrow> posa_reachable cr cc cfg pw (p\<lparr>poa := Some (DisarmBreakGlass c)\<rparr>)"

lemma posa_wf_update:
  assumes "posa_wf cc cfg pw p" and "poa p = Some c" and "same_authority c c'"
  shows "posa_wf cc cfg pw (p\<lparr>poa := Some c'\<rparr>)"
  using assms by (auto simp: posa_wf_def same_authority_def authority_ok_def split: option.splits)

lemma posa_wf_poa: "posa_wf cc cfg pw p \<Longrightarrow> posa_IsPosa p n \<Longrightarrow> poa p = Some (the (poa p))"
  by (auto simp: posa_wf_def posa_IsPosa_def split: option.splits)

lemma posa_wf_keep:
  assumes "posa_wf cc cfg pw p" and "p' = p \<or> (\<exists>n c'. posa_IsPosa p n \<and> p' = p\<lparr>poa := Some c'\<rparr> \<and> same_authority (the (poa p)) c')"
  shows "posa_wf cc cfg pw p'"
  using assms posa_wf_poa posa_wf_update by blast

lemma posa_VerifyHeader_keeps:
  assumes "posa_VerifyHeader cr ev k512 chain p h seal = Some (r, p')"
  shows "p' = p \<or> (\<exists>n c'. posa_IsPosa p n \<and> p' = p\<lparr>poa := Some c'\<rparr> \<and> same_authority (the (poa p)) c')"
  using assms verifyHeader_authority
  by (fastforce simp: posa_VerifyHeader_def VerifyHeader_def isPosaHeader_def split: option.splits if_splits)

lemma posa_split_less: "posa_split p hs < length hs \<Longrightarrow> isPosaHeader p (hs ! posa_split p hs)"
  unfolding posa_split_def using nth_length_takeWhile by blast

lemma posa_split_le: "posa_split p hs \<le> length hs"
  by (simp add: posa_split_def length_takeWhile_le)

lemma posa_VerifyHeaders_keeps:
  assumes "posa_VerifyHeaders cr ev k512 chain dones p hs seals = Some (rs, p')"
  shows "p' = p \<or> (\<exists>n c'. posa_IsPosa p n \<and> p' = p\<lparr>poa := Some c'\<rparr> \<and> same_authority (the (poa p)) c')"
proof (cases "p' = p")
  case False
  have lt: "posa_split p hs < length hs"
  proof (rule ccontr)
    assume "\<not> posa_split p hs < length hs"
    then have "posa_split p hs = length hs" using posa_split_le [of p hs] by simp
    then show False using assms False by (auto simp: posa_VerifyHeaders_def Let_def split: if_splits)
  qed
  then have "posa_IsPosa p (Number (hs ! posa_split p hs))" using posa_split_less by (simp add: isPosaHeader_def)
  moreover have "\<exists>c' hs' ps q. p' = p\<lparr>poa := Some c'\<rparr> \<and> VerifyHeadersWithAncestors cr ev chain (the (poa p)) hs' ps = Some (q, c')"
    using assms lt False unfolding posa_VerifyHeaders_def Let_def by (auto split: if_splits)
  ultimately show ?thesis using batch_authority by blast
qed simp

lemma posa_Prepare_keeps:
  assumes "posa_Prepare cr ev chain p h = Some (r, p')"
  shows "p' = p \<or> (\<exists>n c'. posa_IsPosa p n \<and> p' = p\<lparr>poa := Some c'\<rparr> \<and> same_authority (the (poa p)) c')"
  using assms Prepare_authority by (fastforce simp: posa_Prepare_def isPosaHeader_def split: if_splits)

lemma posa_Seal_keeps:
  assumes "posa_Seal cr ev k512 order chain p h txs seed polls = Some (r, p')"
  shows "p' = p \<or> (\<exists>n c'. posa_IsPosa p n \<and> p' = p\<lparr>poa := Some c'\<rparr> \<and> same_authority (the (poa p)) c')"
  using assms Seal_authority by (fastforce simp: posa_Seal_def isPosaHeader_def split: if_splits)

lemma posa_CalcDifficulty_keeps:
  assumes "posa_CalcDifficulty cr ev chain p t h = Some (r, p')"
  shows "p' = p \<or> (\<exists>n c'. posa_IsPosa p n \<and> p' = p\<lparr>poa := Some c'\<rparr> \<and> same_authority (the (poa p)) c')"
proof (cases "\<exists>n. Number h = Some n \<and> posa_IsPosa p (Some (n + 1))")
  case True
  then obtain n where n: "posa_IsPosa p (Some (n + 1))" "Number h = Some n" by blast
  have "\<exists>c' q. p' = p\<lparr>poa := Some c'\<rparr> \<and> snapshot cr ev chain (the (poa p)) (number_of h) (Hash cr h) [] = Some (q, c')"
    using assms n by (auto simp: posa_CalcDifficulty_def Clique_CalcDifficulty_def)
  then show ?thesis using n(1) snapshot_authority by blast
next
  case False
  then show ?thesis using assms by (auto simp: posa_CalcDifficulty_def split: option.splits if_splits)
qed

lemma SafeNumber_keeps:
  assumes "SafeNumber cr ev chain p hdr = Some (r, p')"
  shows "p' = p \<or> (\<exists>n c'. posa_IsPosa p n \<and> p' = p\<lparr>poa := Some c'\<rparr> \<and> same_authority (the (poa p)) c')"
proof -
  have "p' = p \<or> (\<exists>h c' q. posa_IsPosa p (Number h) \<and> p' = p\<lparr>poa := Some c'\<rparr> \<and>
      snapshot cr ev chain (the (poa p)) (number_of h) (Hash cr h) [] = Some (q, c'))"
    using assms by (auto simp: SafeNumber_def SignersAt_def split: option.splits if_splits)
  then show ?thesis using snapshot_authority by blast
qed

lemma authority_ok_same: "authority_ok cid f c k \<Longrightarrow> same_authority k k' \<Longrightarrow> authority_ok cid f c k'"
  by (auto simp: authority_ok_def same_authority_def split: if_splits)

lemma Authorize_same: "same_authority c (Authorize c a f)"
  by (simp add: same_authority_def Authorize_def)

lemma wf_ignores:
  "posa_wf cc cfg pw p \<Longrightarrow> posa_wf cc cfg pw (p\<lparr>lastNotAuthWarn := t\<rparr>)"
  "posa_wf cc cfg pw p \<Longrightarrow> posa_wf cc cfg pw (posa_Authorize p a f)"
  using authority_ok_same [OF _ Authorize_same]
  by (auto simp: posa_wf_def posa_Authorize_def split: option.splits)

text \<open>
  C26. Through every sequence of calls an engine keeps what \<open>New\<close> made it from. Its fork block is the
  chain configuration's, and its authority configuration (treasury, reward sink, pinned checkpoint
  and the rest) and its proof-of-work engine are the ones it was given. Without a fork block it has
  no authority engine; with one, the fork is a positive block number, the reward addresses are set,
  and the authority engine has the configured period and epoch, the anchor below the fork, the
  configured signers in order, and the configured owners' break-glass rule for the chain's id.
\<close>

theorem reachable_posa_wf:
  assumes "posa_reachable cr cc cfg pw p"
  shows "posa_wf cc cfg pw p"
  using assms
proof (induction rule: posa_reachable.induct)
  case (created p)
  then show ?case by (rule posa_New_wf)
next
  case (authorized p a f)
  show ?case by (rule wf_ignores(2) [OF authorized.IH])
next
  case (verified p ev k512 chain h seal r p')
  show ?case by (rule posa_wf_keep [OF verified.IH posa_VerifyHeader_keeps [OF verified.hyps(2)]])
next
  case (batch p ev k512 chain dones hs seals rs p')
  show ?case by (rule posa_wf_keep [OF batch.IH posa_VerifyHeaders_keeps [OF batch.hyps(2)]])
next
  case (prepared p ev chain h q p')
  show ?case by (rule posa_wf_keep [OF prepared.IH posa_Prepare_keeps [OF prepared.hyps(2)]])
next
  case (assembled p ev root chain h st us b p')
  then have "p' = p \<or> (\<exists>t. p' = p\<lparr>lastNotAuthWarn := t\<rparr>)"
    by (auto simp: posa_FinalizeAndAssemble_def warnNotAuthorized_def Let_def split: if_splits sum.splits)
  then show ?case using wf_ignores(1) [OF assembled.IH] assembled.IH by auto
next
  case (sealed p ev k512 order chain h txs seed polls s p')
  show ?case by (rule posa_wf_keep [OF sealed.IH posa_Seal_keeps [OF sealed.hyps(2)]])
next
  case (difficulty p ev chain t h d p')
  show ?case by (rule posa_wf_keep [OF difficulty.IH posa_CalcDifficulty_keeps [OF difficulty.hyps(2)]])
next
  case (tagged p ev chain hdr n p')
  show ?case by (rule posa_wf_keep [OF tagged.IH SafeNumber_keeps [OF tagged.hyps(2)]])
next
  case (armed p c n ph ss sigs c')
  then have "same_authority c c'" by (auto simp: ArmBreakGlass_def same_authority_def split: option.splits if_splits sum.splits)
  then show ?case using armed posa_wf_update by blast
qed (auto intro!: posa_wf_update simp: same_authority_def Propose_def Discard_def DisarmBreakGlass_def)
section \<open>The checkpoint\<close>

lemma verifyCheckpoint_None:
  assumes "forkBlock p = Some fork" and "posaConfig p = Some c" and "CheckpointHash c \<noteq> 0" and "Number h = Some n"
  shows "verifyCheckpoint cr p h = None \<longleftrightarrow>
    (n + 1 = fork \<longrightarrow> Hash cr h = CheckpointHash c) \<and> (n = fork \<longrightarrow> ParentHash h = CheckpointHash c)"
  using assms by (auto simp: verifyCheckpoint_def)

lemma needsCheckpointFilter_complete:
  assumes "forkBlock p = Some fork" and "posaConfig p = Some c" and "CheckpointHash c \<noteq> 0"
    and "\<And>j. j < length hs \<Longrightarrow> Number (hs ! j) = Some (n + int j)"
    and "\<not> needsCheckpointFilter p hs" and "i < length hs"
  shows "verifyCheckpoint cr p (hs ! i) = None"
proof -
  have "hs \<noteq> []" using assms(6) by auto
  then have "\<not> (n \<le> fork \<and> n + int (length hs - 1) \<ge> fork - 1)"
    using assms(1-3,5) assms(4) [of 0] assms(4) [of "length hs - 1"] by (simp add: needsCheckpointFilter_def)
  moreover have "int i \<le> int (length hs - 1)" using assms(6) by simp
  ultimately have "n + int i + 1 \<noteq> fork" "n + int i \<noteq> fork" by linarith+
  then show ?thesis using verifyCheckpoint_None [OF assms(1-3) assms(4) [OF assms(6)]] by simp
qed

lemma relay_nth:
  assumes "length rs = length hs" and "i < length hs" and "relay cr p hs rs ! i = None"
  shows "rs ! i = None \<and> verifyCheckpoint cr p (hs ! i) = None"
  using assms by (simp add: relay_def split: option.splits)

lemma length_relay: "length rs = length hs \<Longrightarrow> length (relay cr p hs rs) = length hs"
  by (simp add: relay_def)

lemma length_pow_results:
  assumes "mset dones = mset [0..<length hs]"
  shows "length (pow_VerifyHeaders cr k512 chain p t dones hs seals) = length hs"
proof (cases "PowMode p = ModeFullFake \<or> hs = []")
  case False
  have "set dones = {..<length hs}" using assms by (metis atLeast0LessThan mset_eq_setD set_upt)
  then show ?thesis using False by (simp add: pow_VerifyHeaders_def collect_in_order)
qed (auto simp: pow_VerifyHeaders_def)

text \<open>A batch is filtered whole, or it needs no filter.\<close>

lemma posa_VerifyHeaders_run:
  assumes "posa_VerifyHeaders cr ev k512 chain dones p hs seals = Some (rs, p')" and "hs \<noteq> []"
    and "mset dones = mset [0..<posa_split p hs]"
  shows "\<exists>inner. length inner = length hs \<and> (rs = relay cr p hs inner \<or> rs = inner \<and> \<not> needsCheckpointFilter p hs)"
proof -
  let ?s = "posa_split p hs"
  let ?pow = "\<lambda>xs ss. map (map_option PosaPow) (pow_VerifyHeaders cr k512 chain (pow p) (now ev) dones xs ss)"
  have le: "?s \<le> length hs" by (rule posa_split_le)
  consider "?s = length hs" | "?s = 0" "?s \<noteq> length hs" | "?s \<noteq> 0" "?s \<noteq> length hs" by blast
  then show ?thesis
  proof cases
    case 1
    then have "length (?pow hs seals) = length hs" using length_pow_results [of dones hs] assms(3) by simp
    moreover have "rs = (if needsCheckpointFilter p hs then relay cr p hs (?pow hs seals) else ?pow hs seals)"
      using assms(1,2) 1 by (auto simp: posa_VerifyHeaders_def Let_def)
    ultimately show ?thesis by metis
  next
    case 2
    then obtain q c where q: "VerifyHeadersWithAncestors cr ev chain (the (poa p)) hs [] = Some (q, c)"
      and rs: "rs = (if needsCheckpointFilter p hs then relay cr p hs (map (map_option PosaClique) q) else map (map_option PosaClique) q)"
      using assms(1,2) by (auto simp: posa_VerifyHeaders_def Let_def split: if_splits)
    have "length (map (map_option PosaClique) q) = length hs" using batch_authority [OF q] by simp
    with rs show ?thesis by metis
  next
    case 3
    then obtain q c where q: "VerifyHeadersWithAncestors cr ev chain (the (poa p)) (drop ?s hs) (take ?s hs) = Some (q, c)"
      and rs: "rs = relay cr p hs (?pow (take ?s hs) (take ?s seals) @ map (map_option PosaClique) q)"
      using assms(1,2) by (auto simp: posa_VerifyHeaders_def Let_def)
    have "length (?pow (take ?s hs) (take ?s seals)) = ?s"
      using length_pow_results [of dones "take ?s hs"] assms(3) le by (simp add: min_absorb2)
    then have "length (?pow (take ?s hs) (take ?s seals) @ map (map_option PosaClique) q) = length hs"
      using batch_authority [OF q] le by simp
    with rs show ?thesis by blast
  qed
qed

text \<open>
  C11. No batch gets a header past the checkpoint: in a contiguous ascending batch, wherever it
  starts and however it straddles the fork, an accepted header one block below the fork has the
  pinned hash and an accepted header at the fork is built on it. One result is delivered per header.
\<close>

theorem batch_checkpoint:
  assumes "forkBlock p = Some fork" and "posaConfig p = Some c" and "CheckpointHash c \<noteq> 0" and "hs \<noteq> []"
    and "\<And>j. j < length hs \<Longrightarrow> Number (hs ! j) = Some (n + int j)"
    and "mset dones = mset [0..<posa_split p hs]"
    and "posa_VerifyHeaders cr ev k512 chain dones p hs seals = Some (rs, p')"
  shows "length rs = length hs \<and>
    (\<forall>i < length hs. rs ! i = None \<longrightarrow>
      (n + int i + 1 = fork \<longrightarrow> Hash cr (hs ! i) = CheckpointHash c) \<and>
      (n + int i = fork \<longrightarrow> ParentHash (hs ! i) = CheckpointHash c))"
proof -
  from posa_VerifyHeaders_run [OF assms(7,4,6)] obtain inner where l: "length inner = length hs"
    and rs: "rs = relay cr p hs inner \<or> rs = inner \<and> \<not> needsCheckpointFilter p hs" by blast
  have "verifyCheckpoint cr p (hs ! i) = None" if "i < length hs" "rs ! i = None" for i
    using rs relay_nth [OF l that(1)] needsCheckpointFilter_complete [OF assms(1-3,5) _ that(1)] that(2) by blast
  then show ?thesis using rs l length_relay [OF l] verifyCheckpoint_None [OF assms(1-3) assms(5)] by blast
qed

section \<open>Producers and verifiers agree\<close>

lemma posa_sealed:
  assumes "posa_Seal cr ev k512 order chain p h txs seed polls = Some (Inr (Some (y, d)), p')" and "isPosaHeader p h"
    and "signs_for cr (the (poa p))"
  shows "\<exists>e. y = h\<lparr>Extra := e\<rparr> \<and> Author cr y = Inr (cSigner (the (poa p)))"
proof -
  let ?c = "the (poa p)"
  from assms(1,2) obtain q c' where q: "Seal cr ev chain ?c h txs = Some (q, c')"
    and "(case q of SealRefused e \<Rightarrow> Inl (PosaClique e) | SealWait \<Rightarrow> Inl PosaWait | Sealed h delay \<Rightarrow> Inr (Some (h, delay)))
      = Inr (Some (y, d))" by (auto simp: posa_Seal_def)
  then have s: "Seal cr ev chain ?c h txs = Some (Sealed y d, c')" by (cases q) simp_all
  then obtain snap c1 msg sig where r: "snapshot cr ev chain ?c (number_of h - 1) (ParentHash h) [] = Some (Inr snap, c1)"
    and msg: "encodeSigHeader h = Some msg" "cSignFn c1 (cSigner c1) msg = Some sig"
    and y: "y = h\<lparr>Extra := fill_seal (Extra h) sig\<rparr>"
    unfolding Seal_def Let_def by (auto split: if_splits option.splits sum.splits prod.splits)
  have "signs_for cr c1" "cSigner c1 = cSigner ?c"
    using snapshot_keeps_setup [OF r] assms(3) by (simp_all add: same_setup_def signs_for_def)
  then show ?thesis using ecrecover_sealed [OF _ msg] y by (auto simp: Author_def)
qed

text \<open>
  C7. Producer and verifiers agree on an authority block: when a node that is authorized with a
  key assembles a block and seals it, every node with the same fork and configuration finalizes the
  sealed header to itself, with the same state root and the same balances, and the block mints
  exactly its reward.
\<close>

theorem assembled_block_validates:
  assumes "isPosaHeader p h" and "Author cr h = Inl e" and "posaSigner p \<noteq> 0"
    and "poa p = Some k" and "signs_for cr k" and "cSigner k = posaSigner p"
    and "posa_FinalizeAndAssemble cr ev root chain p h st us = (Inr (h1, st1), p1)"
    and "posa_Seal cr ev k512 order chain p1 h1 txs seed polls = Some (Inr (Some (y, d)), p2)"
    and "forkBlock v = forkBlock p" and "posaConfig v = posaConfig p" and "chainConfig chain' = chainConfig chain"
  shows "posa_Finalize cr root chain' v y st [] = (y, st1) \<and>
    total_supply st1 = total_supply st + BlockReward (the (Number h))"
proof -
  let ?c = "the (posaConfig p)"
  have p1: "p1 = p" and f: "(h1, st1) = posa_finalize cr root chain p h st (posaSigner p)"
    using assms(1-3,7) by (auto simp: posa_FinalizeAndAssemble_def Let_def)
  have st1: "st1 = pay_authority st (the (Number h)) (posaSigner p) (RewardSink ?c) (Treasury ?c)"
    and h1: "h1 = h\<lparr>Root := root st1 (IsEIP158 (chainConfig chain) (Number h)), UncleHash := EmptyUncleHash cr\<rparr>"
    using f by (simp_all add: posa_finalize_def Let_def)
  have n: "Number h1 = Number h" by (simp add: h1)
  then have "isPosaHeader p h1" using assms(1) by (simp add: isPosaHeader_def)
  from posa_sealed [OF assms(8) [unfolded p1] this] assms(4-6) obtain x where
    y: "y = h1\<lparr>Extra := x\<rparr>" and a: "Author cr y = Inr (posaSigner p)" by auto
  have "isPosaHeader v y" using assms(1,9) by (simp add: y h1 isPosaHeader_def posa_IsPosa_def)
  then have "posa_Finalize cr root chain' v y st [] = posa_finalize cr root chain' v y st (posaSigner p)"
    using a by (simp add: posa_Finalize_def)
  also have "\<dots> = (y, st1)"
    using assms(10,11) by (simp add: posa_finalize_def Let_def st1 [symmetric] y n) (simp add: h1)
  finally show ?thesis using pay_authority_supply by (simp add: st1)
qed

end
