(* ===== verification/Clique_Examples.thy ===== *)
theory Clique_Examples
  imports Clique_Engine
begin

text \<open>
  A two-block authority chain on which the theorems about the engine are applied: a toy hash that
  adds one to the parent hash of an encoded header, a toy signature that carries the address of
  its signer, an engine bootstrapped at block 100 with signers 1 and 2, and block 101 sealed in
  turn by signer 2.
\<close>

section \<open>Headers\<close>

definition toy_crypto :: crypto where
  "toy_crypto =
    \<lparr>keccak256 = (\<lambda>b. if length b \<le> 65 then word_of_nat (be_nat b)
       else case SplitList b of Inl _ \<Rightarrow> 0 | Inr (c, _) \<Rightarrow> 1 + word_of_nat (be_nat (take 32 (drop 1 c)))),
     Ecrecover = (\<lambda>_ sig. Some (4 # sig))\<rparr>"

definition toy_header :: "int \<Rightarrow> hash \<Rightarrow> address \<Rightarrow> int \<Rightarrow> Header" where
  "toy_header n parent sealer d =
    (sample_header n)\<lparr>ParentHash := parent, UncleHash := 192, Coinbase := 0, Time := word_of_int (7 * n),
      Extra := replicate 77 0 @ address_bytes sealer, BaseFee := None, Difficulty := Some d\<rparr>"

lemma toy_header_fields [simp]:
  "Number (toy_header n p a d) = Some n" "ParentHash (toy_header n p a d) = p" "Coinbase (toy_header n p a d) = 0"
  "UncleHash (toy_header n p a d) = 192" "MixDigest (toy_header n p a d) = 0" "Nonce (toy_header n p a d) = 0"
  "Difficulty (toy_header n p a d) = Some d" "BaseFee (toy_header n p a d) = None" "Time (toy_header n p a d) = word_of_int (7 * n)"
  "Extra (toy_header n p a d) = replicate 77 0 @ address_bytes a" "GasLimit (toy_header n p a d) = 30000000"
  "GasUsed (toy_header n p a d) = 20000000" "number_of (toy_header n p a d) = word_of_int n"
  by (simp_all add: toy_header_def sample_header_def number_of_def)

lemma toy_EmptyUncleHash: "EmptyUncleHash toy_crypto = 192"
  by (simp add: EmptyUncleHash_def rlpHash_def toy_crypto_def EncodeToBytes_def makeBytes_def eb_reset_def eb_list_def
      listEnd_def eb_size_def eb_write_def listhead_encode_def puthead_def headsize_def be_nat_def Let_def)

lemma toy_sane:
  assumes "0 \<le> n" and "n < 2 ^ 64" and "d = 1 \<or> d = 2"
  shows "SanityCheck (toy_header n p a d) = None"
proof -
  have "BitLen 1 \<le> 80" "BitLen 2 \<le> 80" unfolding BitLen_le_iff by simp_all
  then show ?thesis using assms by (auto simp: SanityCheck_def IsUint64_def)
qed

lemma toy_keccak_list:
  assumes "content = (0xa0 # hash_bytes p) @ (0xa0 # hash_bytes q) @ rest" and "length content < 2 ^ 60"
  shows "keccak256 toy_crypto (rlp_list content) = p + 1"
proof -
  have "length (rlp_list content) \<le> length content + 9"
    using length_rlp_head_le [of "length content" "0xC0" "0xF7"] assms(2) by (simp add: rlp_list_def)
  with assms(2) have "length (rlp_list content @ []) < 2 ^ 63" by simp
  then have "Split (rlp_list content @ []) = Inr (List_Kind, content, [])"
    using Split_complete [of List_Kind content "[]"] by simp
  moreover have "66 \<le> length (rlp_list content)" using assms(1) by (simp add: rlp_list_def)
  moreover have "take 32 (drop 1 content) = hash_bytes p" using assms(1) by simp
  ultimately show ?thesis by (simp add: toy_crypto_def SplitList_def)
qed

lemma toy_hash:
  assumes "0 \<le> n" and "n < 2 ^ 64" and "d = 1 \<or> d = 2"
  shows "Hash toy_crypto (toy_header n p a d) = p + 1"
proof -
  let ?h = "toy_header n p a d"
  have e: "encodable ?h" using assms by (intro sane_encodable toy_sane) (auto simp: opt_nonneg_def)
  have rs: "rlp_string (hash_bytes h) = 0xa0 # hash_bytes h" for h by (simp add: rlp_string_def rlp_head_def)
  obtain rest where c: "concat (map rlp_encode (header_items ?h)) = (0xa0 # hash_bytes p) @ (0xa0 # hash_bytes 192) @ rest"
    by (simp add: header_items_def rs)
  have "length (concat (map rlp_encode (header_items ?h))) < 2 ^ 60" using e by (simp add: encodable_def rlp_list_def)
  then show ?thesis unfolding Hash_def rlpHash_def Header_EncodeRLP_items [OF e]
    using toy_keccak_list [OF c] by simp
qed

lemma toy_pubkey: "pubkey_address toy_crypto (4 # replicate 45 0 @ address_bytes a) = a"
proof -
  have lt: "unat a < 2 ^ 160" using unsigned_less [of a, where 'a = nat] by simp
  then have "unat (ucast a :: hash) = unat a"
    by (simp add: unsigned_ucast_eq unsigned_take_bit_eq take_bit_eq_mod)
  then have "bytes_address (drop 12 (hash_bytes (ucast a))) = a"
    using lt by (simp add: hash_bytes_def drop_be_bytes bytes_address_def be_nat_be_bytes)
  then show ?thesis by (simp add: toy_crypto_def pubkey_address_def)
qed

lemma toy_signer:
  assumes "0 \<le> n" and "d = 1 \<or> d = 2"
  shows "ecrecover toy_crypto (toy_header n p a d) = Inr a"
proof -
  have "drop 32 (Extra (toy_header n p a d)) = replicate 45 0 @ address_bytes a" by simp
  moreover have "Ecrecover toy_crypto h sig = Some (4 # sig)" for h sig by (simp add: toy_crypto_def)
  ultimately show ?thesis using assms toy_pubkey [of a]
    by (auto simp: ecrecover_def extraSeal_def SealHash_def encodeSigHeader_items opt_nonneg_def)
qed

section \<open>Chain and engine\<close>

definition block_a :: Header where "block_a = toy_header 100 99 1 2"

definition block_b :: Header where "block_b = toy_header 101 100 2 2"

lemma toy_blocks_ne: "toy_header 100 99 1 2 \<noteq> toy_header 101 100 2 2"
proof
  assume "toy_header 100 99 1 2 = toy_header 101 100 2 2"
  then have "Number (toy_header 100 99 1 2) = Number (toy_header 101 100 2 2)" by (rule arg_cong)
  then show False by simp
qed

lemma unat_numeral_101: "unat (101 :: u64) = 101"
  by simp

lemma toy_blocks [simp]:
  "Hash toy_crypto block_a = 100" "Hash toy_crypto block_b = 101" "number_of block_a = 100" "number_of block_b = 101"
  "ParentHash block_b = 100" "block_a \<noteq> block_b" "ecrecover toy_crypto block_b = Inr 2"
  using toy_blocks_ne by (simp_all add: block_a_def block_b_def toy_hash toy_signer)

definition toy_chain :: ChainReader where
  "toy_chain =
    \<lparr>GetHeader = (\<lambda>h n. if h = 100 \<and> n = 100 then Some block_a else if h = 101 \<and> n = 101 then Some block_b else None),
     GetHeaderByNumber = (\<lambda>n. if n = 100 then Some block_a else if n = 101 then Some block_b else None),
     GetHeaderByHash = (\<lambda>h. if h = 100 then Some block_a else if h = 101 then Some block_b else None),
     CurrentHeader = block_b, chainConfig = FerminuxChainConfig\<lparr>LondonBlock := None\<rparr>\<rparr>"

definition toy_bootstrap :: Bootstrap where "toy_bootstrap = \<lparr>Anchor = 100, bsSigners = [1, 2]\<rparr>"

definition toy_engine :: Clique where
  "toy_engine = (Clique_New \<lparr>Period = 7, Epoch = 30000\<rparr>)
    \<lparr>cBootstrap := Some toy_bootstrap, cSigner := 2, cSignFn := (\<lambda>a _. Some (replicate 45 0 @ address_bytes a))\<rparr>"

definition toy_env :: env where
  "toy_env = \<lparr>now = 10000, now_ns = 0, db_ok = True, evict = (\<lambda>_. False), rnd = (\<lambda>_. 0)\<rparr>"

abbreviation toy_headers :: "Header set" where "toy_headers \<equiv> {block_a, block_b}"

definition toy_seed :: Snapshot where
  "toy_seed = newSnapshot \<lparr>Period = 7, Epoch = 30000\<rparr> None 100 100 [1, 2]"

definition toy_next :: Snapshot where
  "toy_next = toy_seed\<lparr>Recents := [(101, 2)], sNumber := 101, sHash := 101\<rparr>"

lemma toy_engine_fields [simp]:
  "cConfig toy_engine = \<lparr>Period = 7, Epoch = 30000\<rparr>" "cBreakGlass toy_engine = None" "cBootstrap toy_engine = Some toy_bootstrap"
  "cRecents toy_engine = Map.empty" "cDb toy_engine = Map.empty" "cSigner toy_engine = 2" "bgPending toy_engine = None"
  "fakeDiff toy_engine = False" "proposals toy_engine = []"
  "cSignFn toy_engine = (\<lambda>a _. Some (replicate 45 0 @ address_bytes a))"
  by (simp_all add: toy_engine_def Clique_New_def)

lemma toy_known: "known_headers toy_crypto toy_bootstrap toy_headers"
  by (auto simp: known_headers_def toy_bootstrap_def)

lemma toy_reads: "reads toy_crypto toy_headers toy_chain"
  by (auto simp: reads_def toy_chain_def split: if_splits)

lemma toy_ready:
  assumes "x \<in> toy_headers" and "set ps \<subseteq> toy_headers"
  shows "engine_ready toy_crypto toy_bootstrap toy_headers toy_chain toy_engine ps x"
proof -
  have "no_shortcut toy_crypto toy_bootstrap toy_headers toy_chain toy_engine (number_of x)"
    unfolding no_shortcut_def
  proof (intro exI [of _ 100] conjI allI impI)
    fix n :: u64 assume "100 < n \<and> n \<le> number_of x"
    then have "unat n = 101" using assms(1) by (auto simp: word_less_nat_alt word_le_nat_alt)
    then have "n = 101" by (metis unat_numeral_101 word_unat_eq_iff)
    then show "no_gap toy_chain (Epoch (cConfig toy_engine)) n" by (simp add: no_gap_def)
  qed (use assms in \<open>auto simp: toy_bootstrap_def FullImmutabilityThreshold_def\<close>)
  then show ?thesis using assms toy_reads by (auto simp: engine_ready_def caches_ok_def)
qed

lemma toy_seed_run:
  "bootstrap_step toy_env toy_engine 100 100 = Some (Inr (toy_seed, toy_engine\<lparr>cDb := [100 \<mapsto> toy_seed]\<rparr>))"
  by (simp add: bootstrap_step_def seed_snapshot_def store_snapshot_def toy_bootstrap_def toy_env_def toy_seed_def newSnapshot_def)

lemma toy_search_a:
  "snapshot_search (Suc n) cr toy_env toy_chain toy_engine 100 100 ps hs
     = Some (Inr (toy_seed, hs, toy_engine\<lparr>cDb := [100 \<mapsto> toy_seed]\<rparr>))"
  by (simp add: snapshot_search.simps toy_seed_run checkpointInterval_def)

lemma toy_apply_b: "apply_headers toy_crypto toy_seed [block_b] = Inr toy_next"
proof -
  have l: "recent_limit (Signers toy_seed) = 2" by (simp add: toy_seed_def newSnapshot_def recent_limit_def)
  have ov: "breakGlassOverrideOf toy_crypto bg block_b = Inr None" for bg
    by (simp add: breakGlassOverrideOf_def isBreakGlassExtra_def block_b_def extraVanity_def extraSeal_def)
  have n: "sConfig toy_seed = \<lparr>Period = 7, Epoch = 30000\<rparr>" "Recents toy_seed = []" "Signers toy_seed = {1, 2}"
    "Votes toy_seed = []" "Tallies toy_seed = []" by (simp_all add: toy_seed_def newSnapshot_def)
  have b: "before_seal toy_seed None block_b = toy_seed"
    by (simp add: before_seal_def prune_recents_def Let_def l n map_del_def)
  have f: "Coinbase block_b = 0" "Nonce block_b = 0" by (simp_all add: block_b_def)
  have a: "after_seal toy_seed 2 False block_b = toy_seed\<lparr>Recents := [(101, 2)]\<rparr>"
    by (simp add: after_seal_def Let_def discard_previous_def count_vote_def cast_vote_def validVote_def settle_vote_def
        vote_passed_def n map_put_def f)
  have "apply_header toy_crypto toy_seed block_b = Inr (toy_seed\<lparr>Recents := [(101, 2)]\<rparr>)"
    unfolding apply_header_stages using ov b a n(3)
    by (intro exI [of _ None] exI [of _ 2] exI [of _ False]) (simp add: n(2) f vote_of_nonce_def nonceAuthVote_def nonceDropVote_def)
  then show ?thesis by (simp add: apply_headers_def) (simp add: toy_next_def toy_seed_def newSnapshot_def)
qed

section \<open>Runs\<close>

lemma toy_search_b:
  assumes "ps = [] \<or> ps = [block_a, block_b]"
  shows "snapshot_search (Suc (Suc n)) toy_crypto toy_env toy_chain toy_engine 101 101 ps []
     = Some (Inr (toy_seed, [block_b], toy_engine\<lparr>cDb := [100 \<mapsto> toy_seed]\<rparr>))"
proof -
  have b: "bootstrap_step toy_env toy_engine 101 101 = None" by (simp add: bootstrap_step_def toy_bootstrap_def)
  have c: "checkpoint_step toy_crypto toy_env toy_chain toy_engine 101 0 = None" by (simp add: checkpoint_step_def)
  have "\<exists>ps'. next_header toy_crypto toy_chain 101 101 ps = Some (block_b, ps')"
    using assms by (auto simp: next_header_def toy_chain_def)
  then obtain ps' where "next_header toy_crypto toy_chain 101 101 ps = Some (block_b, ps')" ..
  then show ?thesis
    by (subst snapshot_search.simps(2)) (simp add: b c checkpointInterval_def toy_search_a)
qed

lemma toy_snapshot_b:
  assumes "ps = [] \<or> ps = [block_a, block_b]"
  shows "snapshot toy_crypto toy_env toy_chain toy_engine 101 101 ps
    = Some (Inr toy_next, toy_engine\<lparr>cDb := [100 \<mapsto> toy_seed], cRecents := [101 \<mapsto> toy_next]\<rparr>)"
proof -
  have "unat (101 :: u64) + 2 = Suc (Suc 101)" by simp
  moreover have "sHash toy_next = 101" "sNumber toy_next = 101" by (simp_all add: toy_next_def)
  ultimately show ?thesis unfolding snapshot_def
    by (simp only: toy_search_b [OF assms]) (simp add: toy_apply_b checkpointInterval_def toy_env_def)
qed

lemma toy_snapshot_a:
  "snapshot cr toy_env toy_chain toy_engine 100 100 ps
    = Some (Inr toy_seed, toy_engine\<lparr>cDb := [100 \<mapsto> toy_seed], cRecents := [100 \<mapsto> toy_seed]\<rparr>)"
proof -
  have "unat (100 :: u64) + 2 = Suc 101" by simp
  moreover have "sHash toy_seed = 100" by (simp add: toy_seed_def newSnapshot_def)
  ultimately show ?thesis unfolding snapshot_def
    by (simp only: toy_search_a) (simp add: apply_headers_def toy_env_def)
qed

lemma toy_inturn: "inturn toy_seed 101 2"
proof -
  have "signers_list toy_seed = [1, 2]" by (simp add: signers_list_def toy_seed_def newSnapshot_def)
  then show ?thesis by (simp add: inturn_def)
qed

theorem snapshot_returns_witness:
  "\<exists>r. snapshot toy_crypto toy_env toy_chain toy_engine 5000 7 [] = Some r"
  by (rule snapshot_returns) simp

theorem snapshot_sound_witness:
  "snap_at toy_crypto (cConfig toy_engine) None toy_bootstrap toy_headers 101 toy_next \<and> snap_ok toy_next"
  using snapshot_sound [OF toy_known toy_ready [of block_b "[]"], of toy_env] toy_snapshot_b [of "[]"] by simp

theorem snapshot_agreement_witness:
  "\<exists>s c1 c2. snapshot toy_crypto toy_env toy_chain toy_engine 101 101 [] = Some (Inr s, c1) \<and>
    snapshot toy_crypto toy_env toy_chain toy_engine 101 101 [block_a, block_b] = Some (Inr s, c2)"
proof -
  from toy_snapshot_b obtain s1 c1 s2 c2 where
    r: "snapshot toy_crypto toy_env toy_chain toy_engine 101 101 [] = Some (Inr s1, c1)"
    "snapshot toy_crypto toy_env toy_chain toy_engine 101 101 [block_a, block_b] = Some (Inr s2, c2)" by blast
  have "s1 = s2"
    using snapshot_agreement [OF toy_known toy_ready [of block_b "[]"] toy_ready [of block_b "[block_a, block_b]"]] r by simp
  with r show ?thesis by blast
qed

lemma toy_verify:
  "verifyHeader toy_crypto toy_env toy_chain toy_engine block_b [] =
    Some (None, toy_engine\<lparr>cDb := [100 \<mapsto> toy_seed], cRecents := [100 \<mapsto> toy_seed]\<rparr>)"
proof -
  have f: "Number block_b = Some 101" "Time block_b = 707" "Coinbase block_b = 0" "Nonce block_b = 0"
    "length (Extra block_b) = 97" "MixDigest block_b = 0" "UncleHash block_b = 192" "Difficulty block_b = Some 2"
    "GasLimit block_b = 30000000" "GasUsed block_b = 20000000" "BaseFee block_b = None"
    "Time block_a = 700" "GasLimit block_a = 30000000" by (simp_all add: block_a_def block_b_def)
  have bg: "\<not> isBreakGlassExtra (Extra block_b)" by (simp add: isBreakGlassExtra_def f extraVanity_def extraSeal_def)
  have sa: "verify_standalone toy_crypto toy_env (chainConfig toy_chain) toy_engine block_b = None"
    by (simp add: verify_standalone_def Let_def f bg toy_env_def nonceAuthVote_def nonceDropVote_def extraVanity_def
        extraSeal_def toy_EmptyUncleHash diffInTurn_def MaxGasLimit_def VerifyForkHashes_def toy_chain_def FerminuxChainConfig_def)
  have fees: "verify_fees (chainConfig toy_chain) block_a block_b = None"
    by (simp add: verify_fees_def f toy_chain_def IsLondon_def isForked_def VerifyGaslimit_def GasLimitBoundDivisor_def
        MinGasLimit_def Let_def)
  have sl: "verifySeal toy_crypto False toy_seed block_b = None"
    using toy_inturn by (simp add: verifySeal_def f) (simp add: toy_seed_def newSnapshot_def diffInTurn_def)
  have "GetHeader toy_chain 100 100 = Some block_a" by (simp add: toy_chain_def)
  then show ?thesis using sa fees sl
    by (simp add: verifyHeader_def f verifyCascadingFields_def Let_def toy_snapshot_a bg)
qed

theorem accepted_header_extends_witness: "\<exists>s'. apply_headers toy_crypto toy_seed [block_b] = Inr s'"
proof -
  have "sizes_ok toy_bootstrap toy_headers" by (simp add: sizes_ok_def toy_bootstrap_def block_a_def block_b_def)
  from accepted_header_extends [OF toy_known this toy_ready [of block_a "[]"] _ _ _ toy_verify]
  show ?thesis using toy_snapshot_a [of toy_crypto "[]"] by (auto simp: toy_seed_def newSnapshot_def)
qed

lemma toy_signs_for: "signs_for toy_crypto toy_engine"
proof -
  have "Ecrecover toy_crypto h sig = Some (4 # sig)" for h sig by (simp add: toy_crypto_def)
  then show ?thesis by (simp add: signs_for_def extraSeal_def toy_pubkey)
qed

theorem Seal_verifies_witness:
  "\<exists>y d c'. Seal toy_crypto toy_env toy_chain toy_engine block_b 0 = Some (Sealed y d, c') \<and>
    verifySeal toy_crypto False toy_seed y = None"
proof -
  have f: "Difficulty block_b = Some 2" "length (Extra block_b) = 97" by (simp_all add: block_b_def)
  have bg: "\<not> isBreakGlassExtra (Extra block_b)" by (simp add: isBreakGlassExtra_def f extraVanity_def extraSeal_def)
  have "\<exists>msg. encodeSigHeader block_b = Some msg" by (simp add: encodeSigHeader_def block_b_def extraSeal_def opt_nonneg_def)
  then obtain y d c' where run: "Seal toy_crypto toy_env toy_chain toy_engine block_b 0 = Some (Sealed y d, c')"
    using bg by (auto simp: Seal_def Let_def toy_snapshot_a) (simp add: toy_seed_def newSnapshot_def)
  have "sNumber toy_seed = 100" by (simp add: toy_seed_def newSnapshot_def)
  with Seal_verifies [OF run toy_signs_for, of toy_seed] toy_snapshot_a [of toy_crypto "[]"] toy_inturn bg
  have "verifySeal toy_crypto False toy_seed y = None" by (simp add: calcDifficulty_def f diffInTurn_def)
  with run show ?thesis by blast
qed

lemma Prepare_valid_example:
  "\<exists>y c'. Prepare toy_crypto toy_env toy_chain toy_engine block_b = Some (Inr y, c') \<and>
    verify_standalone toy_crypto toy_env FerminuxChainConfig c' (Clique_Finalize toy_crypto 4 y) = None"
proof -
  let ?x = "block_b\<lparr>Coinbase := 0, Nonce := 0\<rparr>"
  let ?c = "toy_engine\<lparr>cDb := [100 \<mapsto> toy_seed], cRecents := [100 \<mapsto> toy_seed]\<rparr>"
  have b: "Number block_b = Some 101" "GasLimit block_b = 30000000" "Time block_a = 700" "number_of ?x = 101"
    by (simp_all add: block_a_def block_b_def number_of_def)
  obtain h c2 where ph: "prepare_header toy_crypto toy_env ?c toy_seed ?x = (h, c2)" by (cases "prepare_header toy_crypto toy_env ?c toy_seed ?x")
  with prepare_header_fields [of ?x toy_crypto toy_env ?c toy_seed]
  have h: "ParentHash h = 100" "GasLimit h = 30000000" "Number h = Some 101" by (auto simp: b)
  have c2: "cConfig c2 = cConfig toy_engine" using prepare_header_engine [of toy_crypto toy_env ?c toy_seed ?x] ph by auto
  have "GetHeader toy_chain 100 100 = Some block_a" by (simp add: toy_chain_def)
  then have "Prepare toy_crypto toy_env toy_chain toy_engine block_b = Some (Inr (h\<lparr>Time := 10000\<rparr>), c2)"
    by (simp add: Prepare_def Let_def b(4) toy_snapshot_a ph h c2 b(3)) (simp add: toy_env_def)
  then obtain y c' where run: "Prepare toy_crypto toy_env toy_chain toy_engine block_b = Some (Inr y, c')"
    and t: "Time y = 10000" "GasLimit y = 30000000" "Number y = Some 101" using h by simp
  have "VerifyForkHashes toy_crypto FerminuxChainConfig (Clique_Finalize toy_crypto 4 y) False = None"
    by (simp add: VerifyForkHashes_def FerminuxChainConfig_def)
  with Prepare_valid [OF run, of toy_env FerminuxChainConfig 4] t run show ?thesis
    by (auto simp: pending_ok_def toy_env_def MaxGasLimit_def)
qed

end
