(* ===== verification/Powhash_Examples.thy ===== *)
theory Powhash_Examples
  imports Powhash_Engine
begin

text \<open>
  Concrete instances of the theorems about the proof-of-work engine: a three-block chain with a
  sibling of its second block, under a toy hash that adds the parent and uncle hashes of an encoded
  header.
\<close>

section \<open>Headers\<close>

definition pow_crypto :: crypto where
  "pow_crypto =
    \<lparr>keccak256 = (\<lambda>b. if length b \<le> 65 then word_of_nat (be_nat b)
       else case SplitList b of Inl _ \<Rightarrow> 0
         | Inr (c, _) \<Rightarrow> word_of_nat (be_nat (take 32 (drop 1 c))) + word_of_nat (be_nat (take 32 (drop 34 c)))),
     Ecrecover = (\<lambda>_ _. None)\<rparr>"

definition pow_header :: "int \<Rightarrow> hash \<Rightarrow> hash \<Rightarrow> Header" where
  "pow_header n parent uncles =
    (sample_header n)\<lparr>ParentHash := parent, UncleHash := uncles, Time := word_of_int (7 * n), Extra := [],
      GasUsed := 15000000, Difficulty := Some 131072\<rparr>"

lemma pow_header_fields [simp]:
  "Number (pow_header n p q) = Some n" "ParentHash (pow_header n p q) = p" "UncleHash (pow_header n p q) = q"
  "Time (pow_header n p q) = word_of_int (7 * n)" "Extra (pow_header n p q) = []" "GasLimit (pow_header n p q) = 30000000"
  "GasUsed (pow_header n p q) = 15000000" "Difficulty (pow_header n p q) = Some 131072" "BaseFee (pow_header n p q) = Some 1000"
  "pow_number (pow_header n p q) = word_of_int n"
  by (simp_all add: pow_header_def sample_header_def pow_number_def)

lemma pow_EmptyUncleHash: "EmptyUncleHash pow_crypto = 192"
  by (simp add: EmptyUncleHash_def rlpHash_def pow_crypto_def EncodeToBytes_def makeBytes_def eb_reset_def eb_list_def
      listEnd_def eb_size_def eb_write_def listhead_encode_def puthead_def headsize_def be_nat_def Let_def)

lemma pow_keccak_list:
  assumes "content = (0xa0 # hash_bytes p) @ (0xa0 # hash_bytes q) @ rest" and "length content < 2 ^ 60"
  shows "keccak256 pow_crypto (rlp_list content) = p + q"
proof -
  have "length (rlp_list content) \<le> length content + 9"
    using length_rlp_head_le [of "length content" "0xC0" "0xF7"] assms(2) by (simp add: rlp_list_def)
  with assms(2) have "length (rlp_list content @ []) < 2 ^ 63" by simp
  then have "Split (rlp_list content @ []) = Inr (List_Kind, content, [])"
    using Split_complete [of List_Kind content "[]"] by simp
  moreover have "66 \<le> length (rlp_list content)" using assms(1) by (simp add: rlp_list_def)
  moreover have "take 32 (drop 1 content) = hash_bytes p" "take 32 (drop 34 content) = hash_bytes q"
    using assms(1) by simp_all
  ultimately show ?thesis by (simp add: pow_crypto_def SplitList_def)
qed

lemma pow_hash_sum:
  assumes "SanityCheck h = None" and "opt_nonneg (Difficulty h)" and "opt_nonneg (BaseFee h)"
  shows "Hash pow_crypto h = ParentHash h + UncleHash h"
proof -
  have e: "encodable h" by (rule sane_encodable [OF assms])
  have rs: "rlp_string (hash_bytes h) = 0xa0 # hash_bytes h" for h by (simp add: rlp_string_def rlp_head_def)
  obtain rest where c: "concat (map rlp_encode (header_items h)) = (0xa0 # hash_bytes (ParentHash h)) @ (0xa0 # hash_bytes (UncleHash h)) @ rest"
    by (simp add: header_items_def rs)
  have "length (concat (map rlp_encode (header_items h))) < 2 ^ 60" using e by (simp add: encodable_def rlp_list_def)
  then show ?thesis unfolding Hash_def rlpHash_def Header_EncodeRLP_items [OF e]
    using pow_keccak_list [OF c] by simp
qed

lemma pow_hash:
  assumes "0 \<le> n" and "n < 2 ^ 64"
  shows "Hash pow_crypto (pow_header n p q) = p + q"
proof -
  have "BitLen 131072 \<le> 80" "BitLen 1000 \<le> 256" unfolding BitLen_le_iff by simp_all
  then have "SanityCheck (pow_header n p q) = None" using assms by (auto simp: SanityCheck_def IsUint64_def)
  from pow_hash_sum [OF this] show ?thesis by (simp add: opt_nonneg_def)
qed

section \<open>A chain with an uncle\<close>

definition pow_chain :: ChainReader where
  "pow_chain = \<lparr>GetHeader = (\<lambda>h n. if h = 1192 \<and> n = 18 then Some (pow_header 18 1000 192)
       else if h = 1384 \<and> n = 19 then Some (pow_header 19 1192 192) else None),
     GetHeaderByNumber = (\<lambda>_. None), GetHeaderByHash = (\<lambda>_. None),
     CurrentHeader = pow_header 19 1192 192, chainConfig = FerminuxChainConfig\<rparr>"

lemma pow_chain_ok: "reader_ok pow_crypto pow_chain"
  by (auto simp: reader_ok_def pow_chain_def pow_hash split: if_splits)

lemma pow_uncle_verifies:
  "pow_verifyHeader pow_crypto k512 FerminuxChainConfig NewFaker (pow_header 19 1192 500) (pow_header 18 1000 192) True True t
    = (None :: pow_error option)"
  by (simp add: pow_verifyHeader_def MaximumExtraDataSize_def CalcDifficulty_def calcDifficultyFerminux_def pow_EmptyUncleHash
      ferminuxDurationLimit_def DifficultyBoundDivisor_def MinimumDifficulty_def pow_verify_limits_def MaxGasLimit_def
      pow_verify_fees_def FerminuxChainConfig_def IsLondon_def isForked_def VerifyEip1559Header_def VerifyGaslimit_def
      GasLimitBoundDivisor_def MinGasLimit_def CalcBaseFee_def ElasticityMultiplier_def pow_verifySeal_def NewFaker_def
      pow_verify_special_def VerifyDAOHeaderExtraData_def VerifyForkHashes_def Let_def)

lemma pow_block_accepted:
  "pow_VerifyUncles pow_crypto k512 pow_chain blocks NewFaker t (pow_header 20 1384 600) [pow_header 19 1192 500] = None"
  "gather_ancestors pow_crypto pow_chain blocks 7 1384 19 [] [] =
    ([(1192, pow_header 18 1000 192), (1384, pow_header 19 1192 192)], [])"
proof -
  show g: "gather_ancestors pow_crypto pow_chain blocks 7 1384 19 [] [] =
      ([(1192, pow_header 18 1000 192), (1384, pow_header 19 1192 192)], [])" for blocks
  proof -
    have "(7 :: nat) = Suc (Suc (Suc 4))" by simp
    then show ?thesis by (simp only: gather_ancestors.simps) (simp add: pow_chain_def pow_EmptyUncleHash map_put_def)
  qed
  have "chainConfig pow_chain = FerminuxChainConfig" by (simp add: pow_chain_def)
  then show "pow_VerifyUncles pow_crypto k512 pow_chain blocks NewFaker t (pow_header 20 1384 600) [pow_header 19 1192 500] = None"
    by (simp add: pow_VerifyUncles_def maxUncles_def NewFaker_def [THEN arg_cong, of PowMode] g verify_uncle_def pow_hash
        pow_uncle_verifies map_put_def)
qed

theorem VerifyUncles_sound_witness:
  "16 * total_supply (snd (pow_Finalize (\<lambda>_ _. 0) pow_chain (pow_header 20 1384 600) (\<lambda>_. 0) [pow_header 19 1192 500]))
    \<le> 45 * FerminuxBlockReward 20"
proof -
  have "PowMode NewFaker \<noteq> ModeFullFake" "Number (pow_header 20 1384 600) = Some 20" "(0 :: int) < 20" "(20 :: int) < 2 ^ 64"
    "\<forall>u \<in> set [pow_header 19 1192 500]. ParentHash u \<noteq> Hash pow_crypto (pow_header 20 1384 600)"
    "bodies_ok pow_crypto pow_chain (\<lambda>_ _. Some [])"
    by (simp_all add: NewFaker_def pow_hash bodies_ok_def)
  from VerifyUncles_sound [OF this(1) pow_chain_ok this(2-5) pow_block_accepted(1) this(6), where root = "\<lambda>_ _. 0" and st = "\<lambda>_. 0"]
  show ?thesis by (simp add: total_supply_def)
qed

section \<open>A mined block\<close>

text \<open>A sample block mined with a constant hash: the first nonce is good.\<close>

definition sample_reader :: ChainReader where
  "sample_reader = \<lparr>GetHeader = (\<lambda>_ _. None), GetHeaderByNumber = (\<lambda>_. None), GetHeaderByHash = (\<lambda>_. None),
     CurrentHeader = sample_header 0, chainConfig = FerminuxChainConfig\<rparr>"

lemma sample_order: "dataset_order 1 (unat (pow_dataset_size (delegate NewTester) number)) [0..<512]"
  by (simp add: dataset_order_def thread_items_def Let_def delegate_def NewTester_def Powhash_New_def pow_dataset_size_def
      hashBytes_def)

theorem mined_seal_verifies_witness:
  "\<exists>sealed. pow_Seal \<lparr>keccak256 = (\<lambda>_. 0), Ecrecover = (\<lambda>_ _. None)\<rparr> (\<lambda>_. replicate 64 7) [0..<512] sample_reader NewTester
      (sample_header 7) 42 1 = Inr (Some sealed) \<and>
    pow_verifySeal \<lparr>keccak256 = (\<lambda>_. 0), Ecrecover = (\<lambda>_ _. None)\<rparr> (\<lambda>_. replicate 64 7) None NewTester sealed False = None"
proof -
  let ?cr = "\<lparr>keccak256 = (\<lambda>_. 0), Ecrecover = (\<lambda>_ _. None)\<rparr> :: crypto" and ?k = "\<lambda>_ :: bytes. replicate 64 (7 :: u8)"
  let ?D = "pow_dataset ?cr ?k [0..<512] (delegate NewTester) 7" and ?h = "hash_bytes (pow_SealHash ?cr (sample_header 7))"
  have n: "pow_number (sample_header 7) = 7" by (simp add: pow_number_def sample_header_def)
  have z: "be_nat (snd (hashimotoFull ?cr ?k D h n)) = 0" for D h n
    by (simp add: hashimotoFull_def hashimoto_def Let_def case_prod_beta)
  have "mine_search ?cr ?k ?D ?h (2 ^ 256 div 2) 1 42 \<noteq> None"
    by (rule mine_search_finds [where k = 0]) (simp_all only: z, simp_all)
  then obtain x g where m: "mine_search ?cr ?k ?D ?h (2 ^ 256 div 2) 1 42 = Some (x, g)" by auto
  let ?s = "(sample_header 7)\<lparr>Nonce := x, MixDigest := bytes_hash g\<rparr>"
  have d: "Difficulty (sample_header 7) = Some 2" "Number (sample_header 7) = Some 7" by (simp_all add: sample_header_def)
  have "mine ?cr ?k ?D (sample_header 7) 42 1 = Some ?s"
    unfolding mine_def Let_def d option.sel m by (simp only: option.case prod.case)
  moreover have "refusePosa (chainConfig sample_reader) (Some 7) = None" "PowMode NewTester = ModeTest"
    by (simp_all add: refusePosa_def sample_reader_def FerminuxChainConfig_def IsPosa_def isForked_def NewTester_def Powhash_New_def)
  ultimately have s: "pow_Seal ?cr ?k [0..<512] sample_reader NewTester (sample_header 7) 42 1 = Inr (Some ?s)"
    by (simp add: pow_Seal_def n d)
  have "length (?k b) = 64" "(0 :: nat) < 1" "unat (pow_number (sample_header 7)) < 1921 * 30000" "(0 :: int) < 2"
    "PowMode NewTester \<noteq> ModeFake" "PowMode NewTester \<noteq> ModeFullFake" for b
    by (simp_all add: n NewTester_def Powhash_New_def)
  from mined_seal_verifies [OF this(1-3) sample_order this(5,6) d(1) this(4) s] have
    "pow_verifySeal ?cr ?k None NewTester ?s False = None" by blast
  with s show ?thesis by blast
qed

theorem pow_VerifyHeaders_in_order_witness:
  "pow_VerifyHeaders pow_crypto (\<lambda>_. []) pow_chain NewFaker 0 [1, 0] [pow_header 20 1384 600, pow_header 22 5 6] [True, True]
    = map (verifyHeaderWorker pow_crypto (\<lambda>_. []) pow_chain NewFaker 0 [pow_header 20 1384 600, pow_header 22 5 6] [True, True]) [0, 1]"
  using pow_VerifyHeaders_in_order [of NewFaker "[1, 0]" "[pow_header 20 1384 600, pow_header 22 5 6]"]
  by (simp add: NewFaker_def upt_rec)

end
