(* ===== verification/Posa_Examples.thy ===== *)
theory Posa_Examples
  imports Posa_Engine Clique_Examples Powhash_Examples
begin

text \<open>
  Concrete instances of the theorems about the dispatching engine: the engine of the live
  configuration, a batch at a checkpoint, and a block assembled, sealed and finalized.
\<close>

theorem reachable_posa_wf_witness:
  "\<exists>p. posa_New (Some FerminuxChainConfig) (Some FerminuxConfig) (PowEngine NewFaker) = Inr p \<and>
    posa_wf FerminuxChainConfig (Some FerminuxConfig) NewFaker (posa_Authorize p 2 (\<lambda>_ _. None))"
proof -
  have "\<exists>p. posa_New (Some FerminuxChainConfig) (Some FerminuxConfig) (PowEngine NewFaker) = Inr p"
    by (simp add: posa_New_def FerminuxChainConfig_def FerminuxConfig_def check_posa_config_def arm_authority_def Let_def
        FerminuxPosaPeriod_def FerminuxPosaEpoch_def FerminuxInitialSigners_def FerminuxTreasury_def FerminuxRewardSink_def
        FerminuxBreakGlassOwners_def FerminuxBreakGlassThreshold_def IsUint64_def SetBootstrap_def SetBreakGlass_def)
  then obtain p where p: "posa_New (Some FerminuxChainConfig) (Some FerminuxConfig) (PowEngine NewFaker) = Inr p" ..
  from reachable_posa_wf [OF posa_reachable.authorized [OF posa_reachable.created [OF this]]] p show ?thesis by blast
qed

section \<open>A batch at the checkpoint\<close>

definition checkpoint_posa :: Posa where
  "checkpoint_posa = \<lparr>forkBlock = Some 20, posaConfig = Some (FerminuxConfig\<lparr>CheckpointHash := 1384\<rparr>), pow = NewFullFaker,
     poa = None, posaSigner = 0, lastNotAuthWarn = None\<rparr>"

theorem batch_checkpoint_witness:
  "posa_VerifyHeaders pow_crypto toy_env (\<lambda>_. []) pow_chain [0] checkpoint_posa [pow_header 19 1192 192] [True] = Some ([None], checkpoint_posa) \<and>
   Hash pow_crypto (pow_header 19 1192 192) = 1384"
proof -
  let ?p = checkpoint_posa and ?hs = "[pow_header 19 1192 192]"
  have f: "forkBlock ?p = Some 20" "posaConfig ?p = Some (FerminuxConfig\<lparr>CheckpointHash := 1384\<rparr>)" "pow ?p = NewFullFaker"
    by (simp_all add: checkpoint_posa_def)
  have s: "posa_split ?p ?hs = 1" by (simp add: posa_split_def isPosaHeader_def posa_IsPosa_def f)
  have run: "posa_VerifyHeaders pow_crypto toy_env (\<lambda>_. []) pow_chain [0] ?p ?hs [True] = Some ([None], ?p)"
    by (simp add: posa_VerifyHeaders_def s Let_def relay_def pow_VerifyHeaders_def f NewFullFaker_def verifyCheckpoint_def pow_hash)
  have n: "Number (?hs ! j) = Some (19 + int j)" if "j < length ?hs" for j using that by simp
  have m: "mset [0 :: nat] = mset [0..<posa_split ?p ?hs]" by (simp add: s)
  have c: "CheckpointHash (FerminuxConfig\<lparr>CheckpointHash := 1384\<rparr>) \<noteq> 0" "?hs \<noteq> []" by simp_all
  from batch_checkpoint [OF f(1,2) c n m run] have "Hash pow_crypto (pow_header 19 1192 192) = 1384" by simp
  with run show ?thesis by simp
qed

section \<open>A block assembled and sealed\<close>

text \<open>As \<open>toy_crypto\<close>, but nothing is recovered from an empty seal.\<close>

definition seal_crypto :: crypto where
  "seal_crypto = toy_crypto\<lparr>Ecrecover := (\<lambda>_ sig. if sig = replicate 65 0 then None else Some (4 # sig))\<rparr>"

definition seal_posa :: Posa where
  "seal_posa = \<lparr>forkBlock = Some 101, posaConfig = Some FerminuxConfig, pow = NewFaker, poa = Some toy_engine, posaSigner = 2,
     lastNotAuthWarn = None\<rparr>"

definition unsealed_block :: Header where
  "unsealed_block = (toy_header 101 100 2 2)\<lparr>Extra := replicate 97 0\<rparr>"

lemma seal_signs_for: "signs_for seal_crypto toy_engine"
proof -
  have "pubkey_address seal_crypto pub = pubkey_address toy_crypto pub" for pub
    by (simp add: pubkey_address_def seal_crypto_def)
  moreover have "replicate 45 0 @ address_bytes 2 \<noteq> replicate 65 0"
  proof
    assume "replicate 45 0 @ address_bytes 2 = replicate 65 0"
    then have "be_nat (drop 45 (replicate 45 0 @ address_bytes 2)) = be_nat (drop 45 (replicate 65 0))" by (rule arg_cong)
    then show False by (simp add: be_nat_zeros)
  qed
  ultimately show ?thesis by (simp add: signs_for_def extraSeal_def toy_pubkey) (simp add: seal_crypto_def toy_pubkey)
qed

lemma unsealed_author: "Author seal_crypto unsealed_block = Inl errEcrecover"
  by (simp add: Author_def ecrecover_def unsealed_block_def extraSeal_def SealHash_def encodeSigHeader_def opt_nonneg_def
      seal_crypto_def)

lemma seal_run:
  assumes "Number h = Some 101" and "ParentHash h = 100" and "Extra h = replicate 97 0" and "Difficulty h = Some 2"
    and "BaseFee h = None"
  shows "\<exists>y d p'. posa_Seal seal_crypto toy_env k512 order toy_chain seal_posa h 0 seed polls = Some (Inr (Some (y, d)), p')"
proof -
  have n: "number_of h = 101" using assms(1) by (simp add: number_of_def)
  have bg: "\<not> isBreakGlassExtra (Extra h)" by (simp add: isBreakGlassExtra_def assms(3) extraVanity_def extraSeal_def)
  have "\<exists>msg. encodeSigHeader h = Some msg" by (simp add: encodeSigHeader_def assms extraSeal_def opt_nonneg_def)
  then have "\<exists>y d c'. Seal seal_crypto toy_env toy_chain toy_engine h 0 = Some (Sealed y d, c')"
    using bg by (auto simp: Seal_def Let_def toy_snapshot_a n assms(2)) (simp_all add: toy_seed_def newSnapshot_def)
  then show ?thesis by (auto simp: posa_Seal_def isPosaHeader_def posa_IsPosa_def seal_posa_def assms(1))
qed

theorem assembled_block_validates_witness:
  "\<exists>y st1. posa_Finalize seal_crypto (\<lambda>_ _. 7) toy_chain seal_posa y (\<lambda>_. 0) [] = (y, st1) \<and>
    total_supply st1 = total_supply (\<lambda>_. 0) + BlockReward 101"
proof -
  have p: "poa seal_posa = Some toy_engine" "posaSigner seal_posa = 2" "forkBlock seal_posa = Some 101"
    by (simp_all add: seal_posa_def)
  have h: "isPosaHeader seal_posa unsealed_block" "Number unsealed_block = Some 101"
    by (simp_all add: isPosaHeader_def posa_IsPosa_def p unsealed_block_def)
  obtain h1 st1 where fin: "posa_finalize seal_crypto (\<lambda>_ _. 7) toy_chain seal_posa unsealed_block (\<lambda>_. 0) 2 = (h1, st1)"
    by (cases "posa_finalize seal_crypto (\<lambda>_ _. 7) toy_chain seal_posa unsealed_block (\<lambda>_. 0) 2")
  then have fa: "posa_FinalizeAndAssemble seal_crypto toy_env (\<lambda>_ _. 7) toy_chain seal_posa unsealed_block (\<lambda>_. 0) [] = (Inr (h1, st1), seal_posa)"
    by (simp add: posa_FinalizeAndAssemble_def h unsealed_author p Let_def)
  have "Number h1 = Some 101" "ParentHash h1 = 100" "Extra h1 = replicate 97 0" "Difficulty h1 = Some 2" "BaseFee h1 = None"
    using fin by (auto simp: posa_finalize_def Let_def unsealed_block_def)
  from seal_run [OF this, of "\<lambda>_. []" "[]" 0 0] obtain y d p' where
    s: "posa_Seal seal_crypto toy_env (\<lambda>_. []) [] toy_chain seal_posa h1 0 0 0 = Some (Inr (Some (y, d)), p')" by blast
  have "(2 :: address) \<noteq> 0" by simp
  from assembled_block_validates [OF h(1) unsealed_author _ p(1) seal_signs_for _ fa s refl refl refl] this h(2) p(2)
  show ?thesis by auto
qed

end
