(* ===== verification/Fork_Choice.thy ===== *)
theory Fork_Choice
  imports Posa_Engine
begin

text \<open>
  Fork choice and the canonical chain (\<open>core/forkchoice.go\<close>, and of \<open>core/blockchain.go\<close> the writing of
  blocks, \<open>reorg\<close>, \<open>writeHeadBlock\<close>, \<open>writeKnownBlock\<close>, \<open>writeBlockAndSetHead\<close> and \<open>SetCanonical\<close>).

  The database is a record of maps: blocks and total difficulties by hash and number, canonical
  hashes by number, block numbers by transaction. Block numbers are natural numbers below \<open>2 ^ 64\<close>; the
  wrap-around of the source is written out. Executing blocks, committing their state and sending
  events are not modelled; whether the state commits is a parameter.

  The canonical index is shown to be the ancestry of the head in every reachable state, every
  reorganisation is shown to end, at the common ancestor or at the depth cap, and the block that
  the finalized tag names is shown to survive every change of the head.
\<close>

section \<open>Blocks and the database\<close>

record Block =
  bHeader :: Header
  bTxs :: "hash list"

definition bnum :: "Block \<Rightarrow> nat" where
  "bnum b = unat (pow_number (bHeader b))"

definition bhash :: "crypto \<Rightarrow> Block \<Rightarrow> hash" where
  "bhash cr b = Hash cr (bHeader b)"

definition bparent :: "Block \<Rightarrow> hash" where
  "bparent b = ParentHash (bHeader b)"

definition prev_number :: "nat \<Rightarrow> nat" where
  "prev_number n = (if n = 0 then 2 ^ 64 - 1 else n - 1)"

definition next_number :: "nat \<Rightarrow> nat" where
  "next_number n = (n + 1) mod 2 ^ 64"

record BlockChain =
  GetBlock :: "hash \<Rightarrow> nat \<Rightarrow> Block option"
  GetTd :: "hash \<Rightarrow> nat \<Rightarrow> int option"
  canonical :: "nat \<Rightarrow> hash option"
  txIndex :: "hash \<Rightarrow> nat option"
  CurrentBlock :: Block
  bcConfig :: ChainConfig
  maxReorgDepth :: int

datatype chain_error =
    errMissingTd | errInvalidOldChain | errInvalidNewChain | errDeepReorg nat int nat
  | chain_ErrUnknownAncestor | errStateCommit | errInsertionInterrupted

section \<open>Fork choice\<close>

text \<open>\<open>coin\<close> is the outcome of \<open>f.rand.Float64() < 0.5\<close>; \<open>preserve\<close> may be nil.\<close>

definition ReorgNeeded ::
  "crypto \<Rightarrow> BlockChain \<Rightarrow> (Header \<Rightarrow> bool) option \<Rightarrow> bool \<Rightarrow> Header \<Rightarrow> Header \<Rightarrow> chain_error + bool" where
  "ReorgNeeded cr bc preserve coin current header =
    (case (GetTd bc (Hash cr current) (unat (pow_number current)), GetTd bc (Hash cr header) (unat (pow_number header))) of
       (Some localTD, Some externTd) \<Rightarrow>
         if (case TerminalTotalDifficulty (bcConfig bc) of None \<Rightarrow> False | Some ttd \<Rightarrow> ttd \<le> externTd) then Inr True
         else
           (let localPosa = IsPosa (bcConfig bc) (Number current);
                externPosa = IsPosa (bcConfig bc) (Number header)
            in if PosaBlock (bcConfig bc) \<noteq> None \<and> localPosa \<noteq> externPosa then Inr externPosa
               else
                 (let reorg = externTd > localTD in
                  Inr (if \<not> reorg \<and> externTd = localTD then
                         (let number = pow_number header; headNumber = pow_number current in
                          if number < headNumber then True
                          else if number = headNumber then
                            (let currentPreserve = (case preserve of None \<Rightarrow> False | Some f \<Rightarrow> f current);
                                 externPreserve = (case preserve of None \<Rightarrow> False | Some f \<Rightarrow> f header)
                             in \<not> currentPreserve \<and> (externPreserve \<or> coin))
                          else reorg)
                       else reorg)))
     | _ \<Rightarrow> Inl errMissingTd)"

section \<open>Writing blocks\<close>

definition writeHeadBlock :: "crypto \<Rightarrow> BlockChain \<Rightarrow> Block \<Rightarrow> BlockChain" where
  "writeHeadBlock cr bc block =
    bc\<lparr>canonical := (canonical bc)(bnum block \<mapsto> bhash cr block),
       txIndex := foldl (\<lambda>ix tx. ix(tx \<mapsto> bnum block)) (txIndex bc) (bTxs block),
       CurrentBlock := block\<rparr>"

definition store_block :: "crypto \<Rightarrow> BlockChain \<Rightarrow> Block \<Rightarrow> int \<Rightarrow> BlockChain" where
  "store_block cr bc block td =
    bc\<lparr>GetBlock := (\<lambda>h n. if h = bhash cr block \<and> n = bnum block then Some block else GetBlock bc h n),
       GetTd := (\<lambda>h n. if h = bhash cr block \<and> n = bnum block then Some td else GetTd bc h n)\<rparr>"

definition writeBlockWithoutState :: "crypto \<Rightarrow> bool \<Rightarrow> BlockChain \<Rightarrow> Block \<Rightarrow> int \<Rightarrow> chain_error + BlockChain" where
  "writeBlockWithoutState cr stopped bc block td =
    (if stopped then Inl errInsertionInterrupted else Inr (store_block cr bc block td))"

text \<open>The block and its difficulty are written before the state is committed, also when that fails.\<close>

definition writeBlockWithState :: "crypto \<Rightarrow> bool \<Rightarrow> BlockChain \<Rightarrow> Block \<Rightarrow> chain_error option \<times> BlockChain" where
  "writeBlockWithState cr commits bc block =
    (case GetTd bc (bparent block) (prev_number (bnum block)) of None \<Rightarrow> (Some chain_ErrUnknownAncestor, bc)
     | Some ptd \<Rightarrow>
       (let externTd = the (Difficulty (bHeader block)) + ptd;
            bc = store_block cr bc block externTd
        in (if commits then None else Some errStateCommit, bc)))"

section \<open>Reorganisation\<close>

text \<open>
  The walks of \<open>reorg\<close>. Each takes fuel for its steps; the walks end after as many steps as the
  number of the block they start from.
\<close>

fun descend :: "(hash \<Rightarrow> nat \<Rightarrow> Block option) \<Rightarrow> nat \<Rightarrow> Block option \<Rightarrow> nat \<Rightarrow> Block list \<Rightarrow> (Block option \<times> Block list) option" where
  "descend gb 0 b target chain = None"
| "descend gb (Suc fuel) None target chain = Some (None, chain)"
| "descend gb (Suc fuel) (Some b) target chain =
    (if bnum b = target then Some (Some b, chain)
     else descend gb fuel (gb (bparent b) (prev_number (bnum b))) target (chain @ [b]))"

fun common_ancestor ::
  "crypto \<Rightarrow> (hash \<Rightarrow> nat \<Rightarrow> Block option) \<Rightarrow> nat \<Rightarrow> Block \<Rightarrow> Block \<Rightarrow> Block list \<Rightarrow> Block list \<Rightarrow>
   (chain_error + Block \<times> Block list \<times> Block list) option" where
  "common_ancestor cr gb 0 oldBlock newBlock oldChain newChain = None"
| "common_ancestor cr gb (Suc fuel) oldBlock newBlock oldChain newChain =
    (if bhash cr oldBlock = bhash cr newBlock then Some (Inr (oldBlock, oldChain, newChain))
     else (case gb (bparent oldBlock) (prev_number (bnum oldBlock)) of None \<Rightarrow> Some (Inl errInvalidOldChain)
           | Some old' \<Rightarrow>
             (case gb (bparent newBlock) (prev_number (bnum newBlock)) of None \<Rightarrow> Some (Inl errInvalidNewChain)
              | Some new' \<Rightarrow> common_ancestor cr gb fuel old' new' (oldChain @ [oldBlock]) (newChain @ [newBlock]))))"

definition reorg_chains ::
  "crypto \<Rightarrow> (hash \<Rightarrow> nat \<Rightarrow> Block option) \<Rightarrow> Block \<Rightarrow> Block \<Rightarrow> (chain_error + Block \<times> Block list \<times> Block list) option" where
  "reorg_chains cr gb oldBlock newBlock =
    (case (if bnum oldBlock > bnum newBlock
           then map_option (\<lambda>(b, chain). (b, Some newBlock, chain, []))
                  (descend gb (bnum oldBlock + 1) (Some oldBlock) (bnum newBlock) [])
           else map_option (\<lambda>(b, chain). (Some oldBlock, b, [], chain))
                  (descend gb (bnum newBlock + 1) (Some newBlock) (bnum oldBlock) [])) of
       None \<Rightarrow> None
     | Some (None, _, _, _) \<Rightarrow> Some (Inl errInvalidOldChain)
     | Some (Some _, None, _, _) \<Rightarrow> Some (Inl errInvalidNewChain)
     | Some (Some ob, Some nb, oldChain, newChain) \<Rightarrow> common_ancestor cr gb (bnum ob + 1) ob nb oldChain newChain)"

text \<open>Delete the canonical hashes from a number on, up to the first number for which the zero hash is read.\<close>

definition ReadCanonicalHash :: "(nat \<Rightarrow> hash option) \<Rightarrow> nat \<Rightarrow> hash" where
  "ReadCanonicalHash canon n = (case canon n of None \<Rightarrow> 0 | Some h \<Rightarrow> h)"

partial_function (option) delete_canonical :: "(nat \<Rightarrow> hash option) \<Rightarrow> nat \<Rightarrow> (nat \<Rightarrow> hash option) option" where
  "delete_canonical canon i =
    (if ReadCanonicalHash canon i = 0 then Some canon else delete_canonical (canon(i := None)) (next_number i))"

definition HashDifference :: "hash list \<Rightarrow> hash list \<Rightarrow> hash list" where
  "HashDifference a b = filter (\<lambda>h. h \<notin> set b) a"

definition exceeds_cap :: "BlockChain \<Rightarrow> Block list \<Rightarrow> bool" where
  "exceeds_cap bc oldChain \<longleftrightarrow>
    maxReorgDepth bc > 0 \<and> int (length oldChain) > maxReorgDepth bc \<and> IsPosa (bcConfig bc) (Number (bHeader (oldChain ! 0)))"

definition reorg :: "crypto \<Rightarrow> BlockChain \<Rightarrow> Block \<Rightarrow> Block \<Rightarrow> (chain_error + BlockChain) option" where
  "reorg cr bc oldBlock newBlock =
    (case reorg_chains cr (GetBlock bc) oldBlock newBlock of None \<Rightarrow> None
     | Some (Inl e) \<Rightarrow> Some (Inl e)
     | Some (Inr (commonBlock, oldChain, newChain)) \<Rightarrow>
       if exceeds_cap bc oldChain
       then Some (Inl (errDeepReorg (length oldChain) (maxReorgDepth bc) (bnum commonBlock)))
       else
         (let added = rev (tl newChain);
              bc = foldl (writeHeadBlock cr) bc added;
              deletedTxs = concat (map bTxs oldChain);
              addedTxs = concat (map bTxs added);
              bc = bc\<lparr>txIndex := foldl (\<lambda>ix tx. ix(tx := None)) (txIndex bc) (HashDifference deletedTxs addedTxs)\<rparr>;
              number = (if length newChain > 1 then bnum (newChain ! 1) else bnum commonBlock)
          in map_option (\<lambda>canon. Inr (bc\<lparr>canonical := canon\<rparr>)) (delete_canonical (canonical bc) (next_number number))))"

definition writeKnownBlock :: "crypto \<Rightarrow> BlockChain \<Rightarrow> Block \<Rightarrow> (chain_error + BlockChain) option" where
  "writeKnownBlock cr bc block =
    (case (if bparent block \<noteq> bhash cr (CurrentBlock bc) then reorg cr bc (CurrentBlock bc) block else Some (Inr bc)) of
       None \<Rightarrow> None
     | Some (Inl e) \<Rightarrow> Some (Inl e)
     | Some (Inr bc) \<Rightarrow> Some (Inr (writeHeadBlock cr bc block)))"

datatype WriteStatus = NonStatTy | CanonStatTy | SideStatTy

text \<open>
  \<open>writeBlockAndSetHead\<close>; the reorganisation and the new head are those of \<open>writeKnownBlock\<close>. The block
  stays stored when an error is returned.
\<close>

definition writeBlockAndSetHead ::
  "crypto \<Rightarrow> bool \<Rightarrow> (Header \<Rightarrow> bool) option \<Rightarrow> bool \<Rightarrow> BlockChain \<Rightarrow> Block \<Rightarrow> (WriteStatus \<times> chain_error option \<times> BlockChain) option" where
  "writeBlockAndSetHead cr commits preserve coin bc block =
    (case writeBlockWithState cr commits bc block of
       (Some e, bc) \<Rightarrow> Some (NonStatTy, Some e, bc)
     | (None, bc) \<Rightarrow>
       (case ReorgNeeded cr bc preserve coin (bHeader (CurrentBlock bc)) (bHeader block) of
          Inl e \<Rightarrow> Some (NonStatTy, Some e, bc)
        | Inr False \<Rightarrow> Some (SideStatTy, None, bc)
        | Inr True \<Rightarrow>
          (case writeKnownBlock cr bc block of None \<Rightarrow> None
           | Some (Inl e) \<Rightarrow> Some (NonStatTy, Some e, bc)
           | Some (Inr bc') \<Rightarrow> Some (CanonStatTy, None, bc'))))"

text \<open>\<open>SetCanonical\<close> for a head whose state is available.\<close>

definition SetCanonical :: "crypto \<Rightarrow> BlockChain \<Rightarrow> Block \<Rightarrow> (chain_error + BlockChain) option" where
  "SetCanonical cr bc hd_block = writeKnownBlock cr bc hd_block"

section \<open>Ancestry\<close>

fun ancestor :: "(hash \<Rightarrow> nat \<Rightarrow> Block option) \<Rightarrow> nat \<Rightarrow> Block \<Rightarrow> Block option" where
  "ancestor gb 0 b = Some b"
| "ancestor gb (Suc k) b = (case gb (bparent b) (bnum b - 1) of None \<Rightarrow> None | Some p \<Rightarrow> ancestor gb k p)"

text \<open>
  What holds of the database: blocks are stored under their hash and number, a hash has one
  number, no hash is zero, every block but the genesis \<open>g\<close> has its parent stored, the blocks are those with a total
  difficulty, and that of a block is its own difficulty and its parent's total.
\<close>

definition stored :: "crypto \<Rightarrow> (hash \<Rightarrow> nat \<Rightarrow> Block option) \<Rightarrow> Block \<Rightarrow> bool" where
  "stored cr gb b \<longleftrightarrow> gb (bhash cr b) (bnum b) = Some b"

definition blocks_ok :: "crypto \<Rightarrow> Block \<Rightarrow> BlockChain \<Rightarrow> bool" where
  "blocks_ok cr g bc \<longleftrightarrow>
    stored cr (GetBlock bc) g \<and> bnum g = 0 \<and> (\<forall>n. GetBlock bc (bparent g) n = None) \<and>
    (\<forall>h n b. GetBlock bc h n = Some b \<longrightarrow> bhash cr b = h \<and> h \<noteq> 0 \<and> bnum b = n \<and> n < 2 ^ 64 - 1 \<and>
       (n = 0 \<and> b = g \<or> 0 < n \<and> GetBlock bc (bparent b) (n - 1) \<noteq> None)) \<and>
    (\<forall>h n m b b'. GetBlock bc h n = Some b \<longrightarrow> GetBlock bc h m = Some b' \<longrightarrow> n = m) \<and>
    (\<forall>h n. GetTd bc h n = None \<longleftrightarrow> GetBlock bc h n = None) \<and>
    (\<forall>h n b. GetBlock bc h n = Some b \<longrightarrow> 0 < n \<longrightarrow>
       GetTd bc h n = map_option (\<lambda>ptd. the (Difficulty (bHeader b)) + ptd) (GetTd bc (bparent b) (n - 1)))"

lemma blocks_ok_GetBlock:
  assumes "blocks_ok cr g bc" and "GetBlock bc h n = Some b"
  shows "bhash cr b = h" and "bnum b = n" and "n < 2 ^ 64 - 1" and "stored cr (GetBlock bc) b" and "h \<noteq> 0"
  using assms unfolding blocks_ok_def stored_def by blast+

lemma stored_parent:
  assumes "blocks_ok cr g bc" and "stored cr (GetBlock bc) b" and "0 < bnum b"
  shows "\<exists>p. GetBlock bc (bparent b) (bnum b - 1) = Some p \<and> stored cr (GetBlock bc) p \<and> bnum p = bnum b - 1"
proof -
  have "GetBlock bc (bparent b) (bnum b - 1) \<noteq> None"
    using assms unfolding blocks_ok_def stored_def by (metis less_irrefl)
  then obtain p where "GetBlock bc (bparent b) (bnum b - 1) = Some p" by blast
  then show ?thesis using blocks_ok_GetBlock [OF assms(1)] by blast
qed

lemma stored_same_hash:
  assumes "blocks_ok cr g bc" and "stored cr (GetBlock bc) a" and "stored cr (GetBlock bc) b" and "bhash cr a = bhash cr b"
  shows "a = b"
proof -
  have "bnum a = bnum b" using assms unfolding blocks_ok_def stored_def by metis
  then show ?thesis using assms(2-4) by (simp add: stored_def)
qed

lemma stored_genesis:
  assumes "blocks_ok cr g bc" and "stored cr (GetBlock bc) b" and "bnum b = 0"
  shows "b = g"
  using assms unfolding blocks_ok_def stored_def by (metis less_irrefl)

lemma ancestor_exists:
  assumes "blocks_ok cr g bc" and "stored cr (GetBlock bc) b" and "k \<le> bnum b"
  shows "\<exists>a. ancestor (GetBlock bc) k b = Some a \<and> stored cr (GetBlock bc) a \<and> bnum a = bnum b - k"
  using assms(2,3)
proof (induction k arbitrary: b)
  case (Suc k)
  then obtain p where p: "GetBlock bc (bparent b) (bnum b - 1) = Some p" "stored cr (GetBlock bc) p" "bnum p = bnum b - 1"
    using stored_parent [OF assms(1), of b] by auto
  from Suc.IH [OF p(2)] Suc.prems(2) p(1,3) show ?case by auto
qed simp

lemma ancestor_add:
  "ancestor gb (j + k) b = (case ancestor gb j b of None \<Rightarrow> None | Some a \<Rightarrow> ancestor gb k a)"
  by (induction j arbitrary: b) (auto split: option.splits)

lemma descend_ancestor:
  assumes "blocks_ok cr g bc" and "stored cr (GetBlock bc) b" and "target \<le> bnum b" and "bnum b - target < fuel"
  shows "descend (GetBlock bc) fuel (Some b) target chain =
    Some (ancestor (GetBlock bc) (bnum b - target) b,
          chain @ map (\<lambda>k. the (ancestor (GetBlock bc) k b)) [0..<bnum b - target])"
  using assms(2-4)
proof (induction fuel arbitrary: b chain)
  case (Suc fuel)
  show ?case
  proof (cases "bnum b = target")
    case False
    then obtain p where p: "GetBlock bc (bparent b) (bnum b - 1) = Some p" "stored cr (GetBlock bc) p" "bnum p = bnum b - 1"
      using stored_parent [OF assms(1), of b] Suc.prems by auto
    have d: "bnum b - target = Suc (bnum p - target)" using p(3) Suc.prems(2) False by simp
    have "descend (GetBlock bc) (Suc fuel) (Some b) target chain = descend (GetBlock bc) fuel (Some p) target (chain @ [b])"
      using False p(1) Suc.prems(2) by (simp add: prev_number_def)
    also have "\<dots> = Some (ancestor (GetBlock bc) (bnum p - target) p,
        (chain @ [b]) @ map (\<lambda>k. the (ancestor (GetBlock bc) k p)) [0..<bnum p - target])"
      using p Suc.prems False by (intro Suc.IH) simp_all
    also have "ancestor (GetBlock bc) (bnum p - target) p = ancestor (GetBlock bc) (bnum b - target) b"
      unfolding d using p(1) by simp
    also have "(chain @ [b]) @ map (\<lambda>k. the (ancestor (GetBlock bc) k p)) [0..<bnum p - target] =
        chain @ map (\<lambda>k. the (ancestor (GetBlock bc) k b)) [0..<bnum b - target]"
      unfolding d using p(1) by (simp add: upt_rec [of 0] map_Suc_upt [symmetric] del: upt_Suc)
    finally show ?thesis .
  qed simp
qed simp

lemma common_ancestor_found:
  assumes "blocks_ok cr g bc" and "stored cr (GetBlock bc) a" and "stored cr (GetBlock bc) b" and "bnum a = bnum b"
    and "bnum a < fuel"
  shows "\<exists>d \<le> bnum a. ancestor (GetBlock bc) d a = ancestor (GetBlock bc) d b \<and>
    (\<forall>k < d. ancestor (GetBlock bc) k a \<noteq> ancestor (GetBlock bc) k b) \<and>
    common_ancestor cr (GetBlock bc) fuel a b oc nc =
      Some (Inr (the (ancestor (GetBlock bc) d a), oc @ map (\<lambda>k. the (ancestor (GetBlock bc) k a)) [0..<d],
        nc @ map (\<lambda>k. the (ancestor (GetBlock bc) k b)) [0..<d]))"
  using assms(2-5)
proof (induction fuel arbitrary: a b oc nc)
  case (Suc fuel)
  show ?case
  proof (cases "bhash cr a = bhash cr b")
    case True
    then have "a = b" using stored_same_hash [OF assms(1)] Suc.prems by blast
    then show ?thesis by (intro exI [of _ 0]) simp
  next
    case False
    then have "0 < bnum a" using stored_genesis [OF assms(1)] Suc.prems by (metis gr0I)
    then obtain p q where p: "GetBlock bc (bparent a) (bnum a - 1) = Some p" "stored cr (GetBlock bc) p" "bnum p = bnum a - 1"
      and q: "GetBlock bc (bparent b) (bnum b - 1) = Some q" "stored cr (GetBlock bc) q" "bnum q = bnum b - 1"
      using stored_parent [OF assms(1)] Suc.prems by metis
    have "bnum p = bnum q" "bnum p < fuel" using p(3) q(3) Suc.prems(3,4) \<open>0 < bnum a\<close> by simp_all
    from Suc.IH [OF p(2) q(2) this, of "oc @ [a]" "nc @ [b]"] obtain d where d: "d \<le> bnum p"
      "ancestor (GetBlock bc) d p = ancestor (GetBlock bc) d q"
      "\<forall>k < d. ancestor (GetBlock bc) k p \<noteq> ancestor (GetBlock bc) k q"
      "common_ancestor cr (GetBlock bc) fuel p q (oc @ [a]) (nc @ [b]) =
        Some (Inr (the (ancestor (GetBlock bc) d p), (oc @ [a]) @ map (\<lambda>k. the (ancestor (GetBlock bc) k p)) [0..<d],
          (nc @ [b]) @ map (\<lambda>k. the (ancestor (GetBlock bc) k q)) [0..<d]))" by blast
    have "Suc d \<le> bnum a" using d(1) p(3) \<open>0 < bnum a\<close> by simp
    moreover have "ancestor (GetBlock bc) (Suc d) a = ancestor (GetBlock bc) (Suc d) b" using d(2) p(1) q(1) by simp
    moreover have "map (\<lambda>k. the (ancestor (GetBlock bc) k c)) [0..<Suc d] = c # map (\<lambda>k. the (ancestor (GetBlock bc) k r)) [0..<d]"
      if "GetBlock bc (bparent c) (bnum c - 1) = Some r" for c r
      using that by (simp add: upt_rec [of 0] map_Suc_upt [symmetric] del: upt_Suc)
    moreover have "common_ancestor cr (GetBlock bc) (Suc fuel) a b oc nc = common_ancestor cr (GetBlock bc) fuel p q (oc @ [a]) (nc @ [b])"
      using False p(1) q(1) \<open>0 < bnum a\<close> Suc.prems(3) by (simp add: prev_number_def)
    moreover have "\<forall>k < Suc d. ancestor (GetBlock bc) k a \<noteq> ancestor (GetBlock bc) k b"
      using d(3) False p(1) q(1) by (auto simp: less_Suc_eq_0_disj)
    ultimately show ?thesis using d(4) p(1) q(1) by (intro exI [of _ "Suc d"]) (simp del: upt_Suc)
  qed
qed simp

section \<open>The result of a reorganisation\<close>

lemma ancestor_lists:
  assumes "ancestor gb e b = Some a"
  shows "map (\<lambda>k. the (ancestor gb k b)) [0..<e] @ map (\<lambda>k. the (ancestor gb k a)) [0..<d]
    = map (\<lambda>k. the (ancestor gb k b)) [0..<e + d]"
proof -
  have "map (\<lambda>k. the (ancestor gb k a)) [0..<d] = map (\<lambda>k. the (ancestor gb k b)) (map (\<lambda>k. k + e) [0..<d])"
    using assms by (simp add: ancestor_add add.commute [of _ e])
  also have "map (\<lambda>k. k + e) [0..<d] = [e..<e + d]" by (simp add: map_add_upt add.commute)
  finally show ?thesis by (simp add: upt_add_eq_append [of 0 e d])
qed

definition forks_at :: "(hash \<Rightarrow> nat \<Rightarrow> Block option) \<Rightarrow> Block \<Rightarrow> Block \<Rightarrow> nat \<Rightarrow> bool" where
  "forks_at gb a b n \<longleftrightarrow>
    (\<forall>k. n < k \<longrightarrow> k \<le> bnum a \<longrightarrow> k \<le> bnum b \<longrightarrow> ancestor gb (bnum a - k) a \<noteq> ancestor gb (bnum b - k) b)"

lemma forks_at_below:
  assumes "ancestor gb (bnum a - bnum b) a = Some x" and "bnum x = bnum b" and "bnum b \<le> bnum a" and "forks_at gb x b n"
  shows "forks_at gb a b n" and "forks_at gb b a n"
proof -
  have "ancestor gb (bnum a - k) a = ancestor gb (bnum x - k) x" if "k \<le> bnum b" for k
  proof -
    have "bnum a - k = (bnum a - bnum b) + (bnum x - k)" using that assms(2,3) by simp
    then show ?thesis using assms(1) by (simp add: ancestor_add)
  qed
  then show "forks_at gb a b n" "forks_at gb b a n" using assms(2,4) unfolding forks_at_def by metis+
qed

lemma forks_at_sym: "forks_at gb a b n \<Longrightarrow> forks_at gb b a n"
  unfolding forks_at_def by metis

lemma reorg_chains_found:
  assumes "blocks_ok cr g bc" and "stored cr (GetBlock bc) a" and "stored cr (GetBlock bc) b"
  shows "\<exists>i j c. i \<le> bnum a \<and> j \<le> bnum b \<and> bnum c = bnum a - i \<and> bnum c = bnum b - j \<and>
    ancestor (GetBlock bc) i a = Some c \<and> ancestor (GetBlock bc) j b = Some c \<and> forks_at (GetBlock bc) a b (bnum c) \<and>
    reorg_chains cr (GetBlock bc) a b =
      Some (Inr (c, map (\<lambda>k. the (ancestor (GetBlock bc) k a)) [0..<i], map (\<lambda>k. the (ancestor (GetBlock bc) k b)) [0..<j]))"
proof -
  let ?gb = "GetBlock bc"
  have walk: "\<exists>d c. d \<le> bnum x \<and> ancestor ?gb d x = Some c \<and> ancestor ?gb d y = Some c \<and> bnum x - d = bnum c \<and> forks_at ?gb x y (bnum c) \<and>
      common_ancestor cr ?gb (bnum x + 1) x y oc nc =
        Some (Inr (c, oc @ map (\<lambda>k. the (ancestor ?gb k x)) [0..<d], nc @ map (\<lambda>k. the (ancestor ?gb k y)) [0..<d]))"
    if s: "stored cr ?gb x" "stored cr ?gb y" "bnum x = bnum y" for x y oc nc
  proof -
    from common_ancestor_found [OF assms(1) s, of "bnum x + 1" oc nc] obtain d where d: "d \<le> bnum x"
      "ancestor ?gb d x = ancestor ?gb d y" "\<forall>k < d. ancestor ?gb k x \<noteq> ancestor ?gb k y"
      "common_ancestor cr ?gb (bnum x + 1) x y oc nc =
        Some (Inr (the (ancestor ?gb d x), oc @ map (\<lambda>k. the (ancestor ?gb k x)) [0..<d], nc @ map (\<lambda>k. the (ancestor ?gb k y)) [0..<d]))"
      by auto
    moreover obtain c where c: "ancestor ?gb d x = Some c" "bnum c = bnum x - d"
      using ancestor_exists [OF assms(1) s(1) d(1)] by blast
    moreover have "forks_at ?gb x y (bnum c)" using d(3) c(2) s(3) d(1) unfolding forks_at_def by (metis diff_less_mono2 diff_diff_cancel le_neq_implies_less less_le_trans nat_less_le)
    ultimately show ?thesis by (intro exI [of _ d] exI [of _ c]) (metis option.sel)
  qed
  show ?thesis
  proof (cases "bnum a > bnum b")
    case True
    let ?e = "bnum a - bnum b"
    obtain x where x: "ancestor ?gb ?e a = Some x" "stored cr ?gb x" "bnum x = bnum b"
      using ancestor_exists [OF assms(1,2), of ?e] True by auto
    from walk [OF x(2) assms(3) x(3), of "map (\<lambda>k. the (ancestor ?gb k a)) [0..<?e]" "[]"] obtain d c where
      d: "d \<le> bnum x" "ancestor ?gb d x = Some c" "ancestor ?gb d b = Some c" "bnum x - d = bnum c" "forks_at ?gb x b (bnum c)"
      "common_ancestor cr ?gb (bnum x + 1) x b (map (\<lambda>k. the (ancestor ?gb k a)) [0..<?e]) [] =
        Some (Inr (c, map (\<lambda>k. the (ancestor ?gb k a)) [0..<?e] @ map (\<lambda>k. the (ancestor ?gb k x)) [0..<d],
          map (\<lambda>k. the (ancestor ?gb k b)) [0..<d]))" by auto
    have "ancestor ?gb (?e + d) a = Some c" using x(1) d(2) by (simp add: ancestor_add)
    moreover have "reorg_chains cr ?gb a b =
        Some (Inr (c, map (\<lambda>k. the (ancestor ?gb k a)) [0..<?e + d], map (\<lambda>k. the (ancestor ?gb k b)) [0..<d]))"
      unfolding reorg_chains_def ancestor_lists [OF x(1), symmetric]
      using True descend_ancestor [OF assms(1,2), of "bnum b" "bnum a + 1" "[]"] x(1) d(6) by simp
    ultimately show ?thesis using d(1-4) x(3) True forks_at_below(1) [OF x(1,3) _ d(5)] by (intro exI [of _ "?e + d"] exI [of _ d] exI [of _ c]) simp
  next
    case False
    let ?e = "bnum b - bnum a"
    obtain x where x: "ancestor ?gb ?e b = Some x" "stored cr ?gb x" "bnum a = bnum x"
      using ancestor_exists [OF assms(1,3), of ?e] False by (auto dest: sym)
    from walk [OF assms(2) x(2,3), of "[]" "map (\<lambda>k. the (ancestor ?gb k b)) [0..<?e]"] obtain d c where
      d: "d \<le> bnum a" "ancestor ?gb d a = Some c" "ancestor ?gb d x = Some c" "bnum a - d = bnum c" "forks_at ?gb a x (bnum c)"
      "common_ancestor cr ?gb (bnum a + 1) a x [] (map (\<lambda>k. the (ancestor ?gb k b)) [0..<?e]) =
        Some (Inr (c, map (\<lambda>k. the (ancestor ?gb k a)) [0..<d],
          map (\<lambda>k. the (ancestor ?gb k b)) [0..<?e] @ map (\<lambda>k. the (ancestor ?gb k x)) [0..<d]))" by auto
    have "ancestor ?gb (?e + d) b = Some c" using x(1) d(3) by (simp add: ancestor_add)
    moreover have "reorg_chains cr ?gb a b =
        Some (Inr (c, map (\<lambda>k. the (ancestor ?gb k a)) [0..<d], map (\<lambda>k. the (ancestor ?gb k b)) [0..<?e + d]))"
      unfolding reorg_chains_def ancestor_lists [OF x(1), symmetric]
      using False descend_ancestor [OF assms(1,3), of "bnum a" "bnum b + 1" "[]"] x(1) d(6) by simp
    ultimately show ?thesis using d(1-4) x(3) False forks_at_below(2) [OF x(1) x(3) [symmetric] _ forks_at_sym [OF d(5)]] by (intro exI [of _ d] exI [of _ "?e + d"] exI [of _ c]) simp
  qed
qed

lemma delete_canonical_dense:
  assumes "\<And>m. canon m \<noteq> None \<longleftrightarrow> m \<le> M \<and> (m < lo \<or> i \<le> m)" and "lo \<le> i" and "i \<le> M + 1" and "M < 2 ^ 64 - 1"
    and "\<And>m. canon m \<noteq> Some 0"
  shows "delete_canonical canon i = Some (\<lambda>m. if lo \<le> m then None else canon m)"
  using assms
proof (induction "M + 1 - i" arbitrary: i canon)
  case 0
  then have "canon i = None" by (metis add_diff_inverse_nat diff_is_0_eq' le_antisym not_less_eq_eq Suc_eq_plus1 zero_less_diff nat_neq_iff)
  moreover have "canon = (\<lambda>m. if lo \<le> m then None else canon m)"
  proof
    fix m
    show "canon m = (if lo \<le> m then None else canon m)"
      using "0.prems"(1) [of m] "0.hyps" "0.prems"(3) by (cases "canon m") auto
  qed
  ultimately show ?case by (subst delete_canonical.simps) (simp add: ReadCanonicalHash_def)
next
  case (Suc d)
  then have i: "i \<le> M" by simp
  then have "canon i \<noteq> None" using Suc.prems(1) [of i] by simp
  then have "ReadCanonicalHash canon i \<noteq> 0" using Suc.prems(5) [of i] by (auto simp: ReadCanonicalHash_def)
  moreover have "next_number i = i + 1" using i Suc.prems(4) by (simp add: next_number_def)
  moreover have "delete_canonical (canon(i := None)) (i + 1) = Some (\<lambda>m. if lo \<le> m then None else (canon(i := None)) m)"
  proof (rule Suc.hyps(1))
    show "((canon(i := None)) m \<noteq> None) \<longleftrightarrow> m \<le> M \<and> (m < lo \<or> i + 1 \<le> m)" for m
      using Suc.prems(1) [of m] Suc.prems(2) by (cases "m = i") auto
  qed (use Suc i in auto)
  moreover have "(\<lambda>m. if lo \<le> m then None else (canon(i := None)) m) = (\<lambda>m. if lo \<le> m then None else canon m)"
    using Suc.prems(2) by auto
  ultimately show ?case by (subst delete_canonical.simps) (simp only: if_False Suc_eq_plus1)
qed

lemma write_head [simp]:
  "canonical (writeHeadBlock cr bc x) = (canonical bc)(bnum x \<mapsto> bhash cr x)"
  "CurrentBlock (writeHeadBlock cr bc x) = x"
  "GetBlock (writeHeadBlock cr bc x) = GetBlock bc"
  "GetTd (writeHeadBlock cr bc x) = GetTd bc"
  "bcConfig (writeHeadBlock cr bc x) = bcConfig bc"
  "maxReorgDepth (writeHeadBlock cr bc x) = maxReorgDepth bc"
  by (simp_all add: writeHeadBlock_def)

lemma write_heads [simp]:
  "GetBlock (foldl (writeHeadBlock cr) bc xs) = GetBlock bc"
  "GetTd (foldl (writeHeadBlock cr) bc xs) = GetTd bc"
  "bcConfig (foldl (writeHeadBlock cr) bc xs) = bcConfig bc"
  "maxReorgDepth (foldl (writeHeadBlock cr) bc xs) = maxReorgDepth bc"
  by (induction xs arbitrary: bc) simp_all

lemma write_heads_canonical:
  assumes "distinct (map bnum xs)"
  shows "canonical (foldl (writeHeadBlock cr) bc xs) n =
    (case find (\<lambda>x. bnum x = n) xs of None \<Rightarrow> canonical bc n | Some x \<Rightarrow> Some (bhash cr x))"
  using assms
proof (induction xs arbitrary: bc)
  case (Cons x xs)
  have "find (\<lambda>y. bnum y = bnum x) xs = None" using Cons.prems by (auto simp: find_None_iff) (metis image_eqI)
  then have "canonical (foldl (writeHeadBlock cr) (writeHeadBlock cr bc x) xs) n =
      (case find (\<lambda>x. bnum x = n) (x # xs) of None \<Rightarrow> canonical bc n | Some x \<Rightarrow> Some (bhash cr x))"
    using Cons.IH [of "writeHeadBlock cr bc x"] Cons.prems by (auto split: option.split)
  then show ?case by simp
qed simp

section \<open>The canonical index is the ancestry of the head\<close>

definition canonical_ok :: "crypto \<Rightarrow> BlockChain \<Rightarrow> bool" where
  "canonical_ok cr bc \<longleftrightarrow>
    stored cr (GetBlock bc) (CurrentBlock bc) \<and>
    (\<forall>n. canonical bc n =
      (if n \<le> bnum (CurrentBlock bc)
       then map_option (bhash cr) (ancestor (GetBlock bc) (bnum (CurrentBlock bc) - n) (CurrentBlock bc)) else None))"

lemma find_ancestor:
  assumes "blocks_ok cr g bc" and "stored cr (GetBlock bc) b" and "j \<le> bnum b"
  shows "find (\<lambda>x. bnum x = n) (rev (map (\<lambda>k. the (ancestor (GetBlock bc) k b)) [i..<j])) =
    (if bnum b - j < n \<and> n \<le> bnum b - i \<and> n \<le> bnum b then ancestor (GetBlock bc) (bnum b - n) b else None)"
  using assms(3)
proof (induction j)
  case (Suc j)
  obtain a where a: "ancestor (GetBlock bc) j b = Some a" "bnum a = bnum b - j"
    using ancestor_exists [OF assms(1,2), of j] Suc.prems by auto
  show ?case
  proof (cases "i \<le> j")
    case True
    show ?thesis
    proof (cases "n = bnum b - j")
      case True
      then have "bnum b - n = j" using Suc.prems by simp
      then show ?thesis using a True \<open>i \<le> j\<close> Suc.prems by (simp add: diff_le_mono2)
    next
      case False
      then have "(bnum b - Suc j < n) = (bnum b - j < n)" using Suc.prems by auto
      then show ?thesis using a False \<open>i \<le> j\<close> Suc by auto
    qed
  qed (use Suc.prems in auto)
qed simp

lemma distinct_ancestors:
  assumes "blocks_ok cr g bc" and "stored cr (GetBlock bc) b" and "j \<le> bnum b"
  shows "distinct (map bnum (rev (map (\<lambda>k. the (ancestor (GetBlock bc) k b)) [i..<j])))"
proof -
  have "map bnum (map (\<lambda>k. the (ancestor (GetBlock bc) k b)) [i..<j]) = map (\<lambda>k. bnum b - k) [i..<j]"
  proof (simp, rule ballI)
    fix k
    assume "k \<in> {i..<j}"
    then show "bnum (the (ancestor (GetBlock bc) k b)) = bnum b - k"
      using ancestor_exists [OF assms(1,2), of k] assms(3) by auto
  qed
  moreover have "inj_on (\<lambda>k. bnum b - k) {i..<j}" using assms(3) by (auto simp: inj_on_def)
  ultimately have "distinct (map bnum (map (\<lambda>k. the (ancestor (GetBlock bc) k b)) [i..<j]))" by (simp only: distinct_map distinct_upt set_upt)
  then show ?thesis by (metis distinct_rev rev_map)
qed

lemma canonical_dense:
  assumes "blocks_ok cr g bc" and "canonical_ok cr bc"
  shows "canonical bc n \<noteq> None \<longleftrightarrow> n \<le> bnum (CurrentBlock bc)"
  using assms(2) ancestor_exists [OF assms(1), of "CurrentBlock bc" "bnum (CurrentBlock bc) - n"] by (auto simp: canonical_ok_def)

lemma stored_nonzero: "blocks_ok cr g bc \<Longrightarrow> stored cr (GetBlock bc) b \<Longrightarrow> bhash cr b \<noteq> 0"
  using blocks_ok_GetBlock(5) by (fastforce simp: stored_def)

lemma canonical_nonzero:
  assumes "blocks_ok cr g bc" and "canonical_ok cr bc"
  shows "canonical bc n \<noteq> Some 0"
  using assms(2) ancestor_exists [OF assms(1), of "CurrentBlock bc" "bnum (CurrentBlock bc) - n"] stored_nonzero [OF assms(1)]
  by (auto simp: canonical_ok_def)

lemma reorg_writes:
  assumes "blocks_ok cr g bc" and "stored cr (GetBlock bc) b" and "j \<le> bnum b"
  shows "canonical (foldl (writeHeadBlock cr) bc (rev (tl (map (\<lambda>k. the (ancestor (GetBlock bc) k b)) [0..<j])))) n =
    (if bnum b - j < n \<and> n < bnum b then map_option (bhash cr) (ancestor (GetBlock bc) (bnum b - n) b) else canonical bc n)"
proof -
  let ?xs = "rev (map (\<lambda>k. the (ancestor (GetBlock bc) k b)) [1..<j])"
  have "find (\<lambda>x. bnum x = n) ?xs = (if bnum b - j < n \<and> n < bnum b then ancestor (GetBlock bc) (bnum b - n) b else None)"
    unfolding find_ancestor [OF assms] using assms(3) by auto
  then have "canonical (foldl (writeHeadBlock cr) bc ?xs) n =
    (if bnum b - j < n \<and> n < bnum b then map_option (bhash cr) (ancestor (GetBlock bc) (bnum b - n) b) else canonical bc n)"
    unfolding write_heads_canonical [OF distinct_ancestors [OF assms]]
    using ancestor_exists [OF assms(1,2), of "bnum b - n"] by auto
  moreover have "rev (tl (map (\<lambda>k. the (ancestor (GetBlock bc) k b)) [0..<j])) = ?xs" by (simp add: map_tl [symmetric])
  ultimately show ?thesis by simp
qed

lemma reorg_first_deleted:
  assumes "blocks_ok cr g bc" and "stored cr (GetBlock bc) b" and "j \<le> bnum b" and "bnum c = bnum b - j"
    and "xs = map (\<lambda>k. the (ancestor (GetBlock bc) k b)) [0..<j]"
  shows "next_number (if length xs > 1 then bnum (xs ! 1) else bnum c) = max (bnum c) (bnum b - 1) + 1"
proof -
  have "bnum b < 2 ^ 64 - 1" using blocks_ok_GetBlock(3) [OF assms(1)] assms(2) by (simp add: stored_def)
  moreover have "(if length xs > 1 then bnum (xs ! 1) else bnum c) = max (bnum c) (bnum b - 1)"
  proof (cases "j > 1")
    case True
    then have "bnum (xs ! 1) = bnum b - 1" using ancestor_exists [OF assms(1,2), of 1] assms(3,5) by (auto simp del: ancestor.simps)
    then show ?thesis using True assms(3-5) by auto
  qed (use assms(3-5) in \<open>cases j; simp\<close>)
  moreover have "max (bnum c) (bnum b - 1) + 1 < 2 ^ 64" using calculation(1) assms(4) by (auto simp: max_def)
  ultimately show ?thesis by (simp add: next_number_def del: max_less_iff_conj)
qed

text \<open>
  A reorganisation from the head to a stored block: how many blocks leave, and the index it leaves
  behind, unless more than the cap of them are dropped while authority holds.
\<close>

definition reorg_sound :: "crypto \<Rightarrow> BlockChain \<Rightarrow> Block \<Rightarrow> nat \<Rightarrow> Block \<Rightarrow> bool" where
  "reorg_sound cr bc b i c \<longleftrightarrow>
    (if 0 < maxReorgDepth bc \<and> maxReorgDepth bc < int i \<and> IsPosa (bcConfig bc) (Number (bHeader (CurrentBlock bc)))
     then reorg cr bc (CurrentBlock bc) b = Some (Inl (errDeepReorg i (maxReorgDepth bc) (bnum c)))
     else \<exists>bc'. reorg cr bc (CurrentBlock bc) b = Some (Inr bc') \<and> GetBlock bc' = GetBlock bc \<and> GetTd bc' = GetTd bc \<and>
       bcConfig bc' = bcConfig bc \<and> maxReorgDepth bc' = maxReorgDepth bc \<and>
       canonical_ok cr (writeHeadBlock cr bc' b))"

lemma reorg_new_index:
  assumes db: "blocks_ok cr g bc" and ok: "canonical_ok cr bc" and st: "stored cr (GetBlock bc) b"
    and i: "i \<le> bnum (CurrentBlock bc)" "bnum c = bnum (CurrentBlock bc) - i" "ancestor (GetBlock bc) i (CurrentBlock bc) = Some c"
    and j: "j \<le> bnum b" "bnum c = bnum b - j" "ancestor (GetBlock bc) j b = Some c"
    and same: "GetBlock bc' = GetBlock bc"
    and new: "\<And>n. canonical bc' n = (if max (bnum c) (bnum b - 1) + 1 \<le> n then None
      else if bnum b - j < n \<and> n < bnum b then map_option (bhash cr) (ancestor (GetBlock bc) (bnum b - n) b) else canonical bc n)"
  shows "canonical_ok cr (writeHeadBlock cr bc' b)"
proof -
  let ?anc = "\<lambda>n. map_option (bhash cr) (ancestor (GetBlock bc) (bnum b - n) b)"
  have below: "canonical bc n = ?anc n" if "n \<le> bnum c" for n
  proof -
    have "bnum (CurrentBlock bc) - n = i + (bnum c - n)" "bnum b - n = j + (bnum c - n)" "n \<le> bnum (CurrentBlock bc)"
      using that i(1,2) j(1,2) by auto
    moreover have "ancestor (GetBlock bc) (i + (bnum c - n)) (CurrentBlock bc) = ancestor (GetBlock bc) (j + (bnum c - n)) b"
      by (simp only: ancestor_add i(3) j(3))
    ultimately show ?thesis using ok by (simp only: canonical_ok_def if_True)
  qed
  have "((canonical bc')(bnum b \<mapsto> bhash cr b)) n = (if n \<le> bnum b then ?anc n else None)" for n
  proof (cases n "bnum b" rule: linorder_cases)
    case less
    then show ?thesis using below [of n] j(2) by (auto simp: new)
  qed (use j(2) in \<open>auto simp: new\<close>)
  then show ?thesis using st same by (simp add: canonical_ok_def)
qed

lemma reorg_result:
  assumes db: "blocks_ok cr g bc" and ok: "canonical_ok cr bc" and st: "stored cr (GetBlock bc) b"
  shows "\<exists>i j c. i \<le> bnum (CurrentBlock bc) \<and> j \<le> bnum b \<and> bnum c = bnum (CurrentBlock bc) - i \<and> bnum c = bnum b - j \<and>
    ancestor (GetBlock bc) i (CurrentBlock bc) = Some c \<and> ancestor (GetBlock bc) j b = Some c \<and>
    forks_at (GetBlock bc) (CurrentBlock bc) b (bnum c) \<and> reorg_sound cr bc b i c"
proof -
  let ?gb = "GetBlock bc" and ?cur = "CurrentBlock bc"
  have cur: "stored cr ?gb ?cur" using ok by (simp add: canonical_ok_def)
  from reorg_chains_found [OF db cur st] obtain i j c where
    i: "i \<le> bnum ?cur" "bnum c = bnum ?cur - i" "ancestor ?gb i ?cur = Some c" and
    j: "j \<le> bnum b" "bnum c = bnum b - j" "ancestor ?gb j b = Some c" and
    f: "forks_at ?gb ?cur b (bnum c)" and
    rc: "reorg_chains cr ?gb ?cur b = Some (Inr (c, map (\<lambda>k. the (ancestor ?gb k ?cur)) [0..<i], map (\<lambda>k. the (ancestor ?gb k b)) [0..<j]))"
    by blast
  define old where "old = map (\<lambda>k. the (ancestor ?gb k ?cur)) [0..<i]"
  define new where "new = map (\<lambda>k. the (ancestor ?gb k b)) [0..<j]"
  have cap: "exceeds_cap bc old \<longleftrightarrow>
      0 < maxReorgDepth bc \<and> maxReorgDepth bc < int i \<and> IsPosa (bcConfig bc) (Number (bHeader ?cur))"
    unfolding exceeds_cap_def old_def by (cases i) (auto simp del: upt_Suc)
  have "reorg_sound cr bc b i c"
  proof (cases "exceeds_cap bc old")
    case True
    then have "reorg cr bc ?cur b = Some (Inl (errDeepReorg i (maxReorgDepth bc) (bnum c)))"
      by (simp add: reorg_def rc [folded old_def new_def]) (simp add: old_def)
    then show ?thesis using cap True by (simp add: reorg_sound_def)
  next
    case False
    let ?bc = "foldl (writeHeadBlock cr) bc (rev (tl new))"
    let ?lo = "max (bnum c) (bnum b - 1) + 1" and ?M = "max (bnum ?cur) (bnum b - 1)"
    have "canonical ?bc n \<noteq> None \<longleftrightarrow> n \<le> ?M \<and> (n < ?lo \<or> ?lo \<le> n)" for n
    proof (cases "bnum b - j < n \<and> n < bnum b")
      case True
      then have "ancestor ?gb (bnum b - n) b \<noteq> None" using ancestor_exists [OF db st, of "bnum b - n"] by auto
      moreover have "n \<le> ?M" using True by linarith
      ultimately show ?thesis unfolding reorg_writes [OF db st j(1), folded new_def] using True by simp linarith
    next
      case F: False
      then have "canonical ?bc n = canonical bc n" unfolding reorg_writes [OF db st j(1), folded new_def] by (simp only: if_False)
      moreover have "n \<le> bnum ?cur \<longleftrightarrow> n \<le> ?M" using F i(1,2) j(1,2) by linarith
      ultimately show ?thesis using canonical_dense [OF db ok, of n] not_less [of n ?lo] by metis
    qed
    moreover have "?M < 2 ^ 64 - 1" using blocks_ok_GetBlock(3) [OF db] cur st by (fastforce simp: stored_def)
    moreover have "canonical ?bc n \<noteq> Some 0" for n
      unfolding reorg_writes [OF db st j(1), folded new_def]
      using canonical_nonzero [OF db ok, of n] ancestor_exists [OF db st, of "bnum b - n"] stored_nonzero [OF db] by auto
    ultimately have "delete_canonical (canonical ?bc) ?lo = Some (\<lambda>n. if ?lo \<le> n then None else canonical ?bc n)"
      by (intro delete_canonical_dense) (use i(2) in auto)
    then obtain bc' where r: "reorg cr bc ?cur b = Some (Inr bc')" "GetBlock bc' = ?gb" "GetTd bc' = GetTd bc" "bcConfig bc' = bcConfig bc"
      "maxReorgDepth bc' = maxReorgDepth bc" "canonical bc' = (\<lambda>n. if ?lo \<le> n then None else canonical ?bc n)"
      unfolding reorg_def rc [folded old_def new_def] Let_def
      using False reorg_first_deleted [OF db st j(1,2) new_def] by simp
    have "canonical_ok cr (writeHeadBlock cr bc' b)"
      by (rule reorg_new_index [OF db ok st i j r(2)]) (simp only: r(6) reorg_writes [OF db st j(1), folded new_def])
    then show ?thesis using r(1-5) cap False by (simp add: reorg_sound_def)
  qed
  then show ?thesis using i j f by (intro exI [of _ i] exI [of _ j] exI [of _ c]) simp
qed

section \<open>Storing blocks\<close>

text \<open>
  A block that may be stored: its hash is not zero, the hash of no other stored block and not the
  parent hash of the genesis, and its number has a successor in 64 bits.
\<close>

definition storable :: "crypto \<Rightarrow> Block \<Rightarrow> BlockChain \<Rightarrow> Block \<Rightarrow> bool" where
  "storable cr g bc b \<longleftrightarrow>
    bnum b < 2 ^ 64 - 1 \<and> bhash cr b \<noteq> 0 \<and> bhash cr b \<noteq> bparent g \<and>
    (\<forall>m x. GetBlock bc (bhash cr b) m = Some x \<longrightarrow> x = b)"

lemma parent_td:
  assumes "blocks_ok cr g bc" and "GetTd bc (bparent b) (prev_number (bnum b)) = Some ptd"
  shows "0 < bnum b" and "GetTd bc (bparent b) (bnum b - 1) = Some ptd" and "GetBlock bc (bparent b) (bnum b - 1) \<noteq> None"
proof -
  have "GetBlock bc (bparent b) (prev_number (bnum b)) \<noteq> None" using assms unfolding blocks_ok_def by (metis option.distinct(1))
  moreover then have "prev_number (bnum b) < 2 ^ 64 - 1" using blocks_ok_GetBlock(3) [OF assms(1)] by blast
  ultimately show "0 < bnum b" "GetTd bc (bparent b) (bnum b - 1) = Some ptd" "GetBlock bc (bparent b) (bnum b - 1) \<noteq> None"
    using assms(2) by (auto simp: prev_number_def split: if_splits)
qed

lemma store_known:
  assumes "blocks_ok cr g bc" and "stored cr (GetBlock bc) b" and "GetTd bc (bparent b) (prev_number (bnum b)) = Some ptd"
  shows "store_block cr bc b (the (Difficulty (bHeader b)) + ptd) = bc"
proof -
  have "GetTd bc (bhash cr b) (bnum b) = Some (the (Difficulty (bHeader b)) + ptd)"
    using assms(1,2) parent_td [OF assms(1,3)] unfolding blocks_ok_def stored_def by (metis option.map(2))
  then have "(\<lambda>h n. if h = bhash cr b \<and> n = bnum b then Some (the (Difficulty (bHeader b)) + ptd) else GetTd bc h n) = GetTd bc"
    "(\<lambda>h n. if h = bhash cr b \<and> n = bnum b then Some b else GetBlock bc h n) = GetBlock bc"
    using assms(2) by (auto simp: stored_def fun_eq_iff)
  then show ?thesis by (simp add: store_block_def)
qed

lemma blocks_ok_entry:
  assumes "blocks_ok cr g bc" and "GetBlock bc h n = Some x"
  shows "n = 0 \<and> x = g \<or> 0 < n \<and> GetBlock bc (bparent x) (n - 1) \<noteq> None \<and>
    GetTd bc h n = map_option (\<lambda>ptd. the (Difficulty (bHeader x)) + ptd) (GetTd bc (bparent x) (n - 1))"
proof -
  have "\<forall>h n b. GetBlock bc h n = Some b \<longrightarrow> n = 0 \<and> b = g \<or> 0 < n \<and> GetBlock bc (bparent b) (n - 1) \<noteq> None"
    and "\<forall>h n b. GetBlock bc h n = Some b \<longrightarrow> 0 < n \<longrightarrow>
       GetTd bc h n = map_option (\<lambda>ptd. the (Difficulty (bHeader b)) + ptd) (GetTd bc (bparent b) (n - 1))"
    using assms(1) unfolding blocks_ok_def by simp_all
  then show ?thesis using assms(2) by fast
qed

lemma blocks_okI:
  assumes "stored cr (GetBlock bc) g" and "bnum g = 0" and "\<And>n. GetBlock bc (bparent g) n = None"
    and "\<And>h n b. GetBlock bc h n = Some b \<Longrightarrow> bhash cr b = h \<and> h \<noteq> 0 \<and> bnum b = n \<and> n < 2 ^ 64 - 1"
    and "\<And>h n b. GetBlock bc h n = Some b \<Longrightarrow> n = 0 \<and> b = g \<or> 0 < n \<and> GetBlock bc (bparent b) (n - 1) \<noteq> None \<and>
      GetTd bc h n = map_option (\<lambda>ptd. the (Difficulty (bHeader b)) + ptd) (GetTd bc (bparent b) (n - 1))"
    and "\<And>h n m b b'. GetBlock bc h n = Some b \<Longrightarrow> GetBlock bc h m = Some b' \<Longrightarrow> n = m"
    and "\<And>h n. GetTd bc h n = None \<longleftrightarrow> GetBlock bc h n = None"
  shows "blocks_ok cr g bc"
  unfolding blocks_ok_def using assms by (intro conjI allI impI) (blast+)

lemma store_new:
  assumes "\<And>m. GetBlock bc (bhash cr b) m = None" and "\<And>m. GetTd bc (bhash cr b) m = None"
  shows "GetBlock (store_block cr bc b t) h n = (if h = bhash cr b then (if n = bnum b then Some b else None) else GetBlock bc h n)"
    and "GetTd (store_block cr bc b t) h n = (if h = bhash cr b then (if n = bnum b then Some t else None) else GetTd bc h n)"
  using assms by (simp_all add: store_block_def)

lemma blocks_ok_store:
  assumes db: "blocks_ok cr g bc" and b: "storable cr g bc b" and td: "GetTd bc (bparent b) (prev_number (bnum b)) = Some ptd"
  shows "blocks_ok cr g (store_block cr bc b (the (Difficulty (bHeader b)) + ptd))"
proof (cases "GetBlock bc (bhash cr b) (bnum b)")
  case (Some x)
  then have "stored cr (GetBlock bc) b" using b by (auto simp: storable_def stored_def)
  then show ?thesis using store_known [OF db _ td] db by simp
next
  case None
  let ?bc = "store_block cr bc b (the (Difficulty (bHeader b)) + ptd)"
  have fresh: "GetBlock bc (bhash cr b) m = None" for m
    using b None blocks_ok_GetBlock(2) [OF db] unfolding storable_def by (metis option.exhaust)
  then have "GetTd bc (bhash cr b) m = None" for m using db by (simp add: blocks_ok_def)
  note new = store_new [of bc cr b, OF fresh this]
  have g: "stored cr (GetBlock bc) g" "bnum g = 0" "\<And>n. GetBlock bc (bparent g) n = None" using db by (simp_all add: blocks_ok_def)
  note p = parent_td [OF db td]
  have np: "bparent b \<noteq> bhash cr b" using p(3) fresh by metis
  show ?thesis
  proof (rule blocks_okI)
    show "stored cr (GetBlock ?bc) g" using g(1) fresh by (auto simp: stored_def new)
    show "GetBlock ?bc (bparent g) n = None" for n using g(3) b by (auto simp: new storable_def)
    show "bhash cr x = h \<and> h \<noteq> 0 \<and> bnum x = n \<and> n < 2 ^ 64 - 1" if "GetBlock ?bc h n = Some x" for h n x
    proof (cases "h = bhash cr b")
      case True
      then show ?thesis using that b by (simp add: new storable_def split: if_splits)
    next
      case False
      then show ?thesis using that blocks_ok_GetBlock [OF db, of h n x] by (simp add: new)
    qed
    show "n = 0 \<and> x = g \<or> 0 < n \<and> GetBlock ?bc (bparent x) (n - 1) \<noteq> None \<and>
      GetTd ?bc h n = map_option (\<lambda>ptd. the (Difficulty (bHeader x)) + ptd) (GetTd ?bc (bparent x) (n - 1))"
      if "GetBlock ?bc h n = Some x" for h n x
    proof (cases "h = bhash cr b")
      case True
      then have "x = b" "n = bnum b" using that by (simp_all add: new split: if_splits)
      then show ?thesis using p np True by (simp add: new)
    next
      case False
      then have "GetBlock bc h n = Some x" using that by (simp add: new)
      from blocks_ok_entry [OF db this] show ?thesis
      proof
        assume *: "0 < n \<and> GetBlock bc (bparent x) (n - 1) \<noteq> None \<and>
          GetTd bc h n = map_option (\<lambda>ptd. the (Difficulty (bHeader x)) + ptd) (GetTd bc (bparent x) (n - 1))"
        then have "bparent x \<noteq> bhash cr b" using fresh by metis
        then show ?thesis using * False by (simp add: new)
      qed simp
    qed
    show "n = m" if "GetBlock ?bc h n = Some x" "GetBlock ?bc h m = Some y" for h n m x y
    proof (cases "h = bhash cr b")
      case True
      then show ?thesis using that by (simp add: new split: if_splits)
    next
      case False
      then show ?thesis using that db unfolding blocks_ok_def by (simp add: new) blast
    qed
    show "GetTd ?bc h n = None \<longleftrightarrow> GetBlock ?bc h n = None" for h n using db by (simp add: new blocks_ok_def)
  qed (rule g(2))
qed

lemma ancestor_mono:
  assumes "\<And>h n x. gb h n = Some x \<Longrightarrow> gb' h n = Some x" and "ancestor gb k b = Some a"
  shows "ancestor gb' k b = Some a"
  using assms(2) by (induction k arbitrary: b) (auto split: option.splits dest: assms(1))

lemma store_extends:
  assumes "storable cr g bc b" and "GetBlock bc h n = Some x"
  shows "GetBlock (store_block cr bc b td) h n = Some x"
  using assms by (auto simp: store_block_def storable_def)

lemma canonical_ok_store:
  assumes "blocks_ok cr g bc" and "canonical_ok cr bc" and "storable cr g bc b"
  shows "canonical_ok cr (store_block cr bc b td)"
proof -
  let ?bc = "store_block cr bc b td" and ?cur = "CurrentBlock bc"
  have cur: "stored cr (GetBlock bc) ?cur" using assms(2) by (simp add: canonical_ok_def)
  have "ancestor (GetBlock ?bc) (bnum ?cur - n) ?cur = ancestor (GetBlock bc) (bnum ?cur - n) ?cur" for n
    using ancestor_exists [OF assms(1) cur, of "bnum ?cur - n"] ancestor_mono [OF store_extends [OF assms(3)]] by fastforce
  moreover have "stored cr (GetBlock ?bc) ?cur" using cur store_extends [OF assms(3)] by (simp add: stored_def)
  moreover have "canonical ?bc = canonical bc" "CurrentBlock ?bc = ?cur" by (simp_all add: store_block_def)
  ultimately show ?thesis using assms(2) by (simp add: canonical_ok_def)
qed

section \<open>Reachable chains\<close>

definition genesis_chain :: "crypto \<Rightarrow> ChainConfig \<Rightarrow> int \<Rightarrow> Block \<Rightarrow> BlockChain" where
  "genesis_chain cr cfg m g =
    \<lparr>GetBlock = (\<lambda>h n. if h = bhash cr g \<and> n = bnum g then Some g else None),
     GetTd = (\<lambda>h n. if h = bhash cr g \<and> n = bnum g then Difficulty (bHeader g) else None),
     canonical = [bnum g \<mapsto> bhash cr g], txIndex = Map.empty, CurrentBlock = g, bcConfig = cfg, maxReorgDepth = m\<rparr>"

text \<open>
  A step of the node: it stores a block of a side chain, imports a block, or adopts a block that is
  already stored.
\<close>

inductive chain_step :: "crypto \<Rightarrow> Block \<Rightarrow> BlockChain \<Rightarrow> BlockChain \<Rightarrow> bool" for cr g where
  side: "storable cr g bc b \<Longrightarrow> GetTd bc (bparent b) (prev_number (bnum b)) = Some ptd \<Longrightarrow>
     writeBlockWithoutState cr stopped bc b (the (Difficulty (bHeader b)) + ptd) = Inr bc' \<Longrightarrow> chain_step cr g bc bc'"
| imported: "storable cr g bc b \<Longrightarrow>
     writeBlockAndSetHead cr commits preserve coin bc b = Some (st, e, bc') \<Longrightarrow> chain_step cr g bc bc'"
| known: "stored cr (GetBlock bc) b \<Longrightarrow> writeKnownBlock cr bc b = Some (Inr bc') \<Longrightarrow> chain_step cr g bc bc'"
| set_canonical: "stored cr (GetBlock bc) b \<Longrightarrow> SetCanonical cr bc b = Some (Inr bc') \<Longrightarrow> chain_step cr g bc bc'"

inductive chain_reachable :: "crypto \<Rightarrow> ChainConfig \<Rightarrow> int \<Rightarrow> Block \<Rightarrow> BlockChain \<Rightarrow> bool" for cr cfg m g where
  genesis: "bnum g = 0 \<Longrightarrow> bhash cr g \<noteq> 0 \<Longrightarrow> bhash cr g \<noteq> bparent g \<Longrightarrow> Difficulty (bHeader g) \<noteq> None \<Longrightarrow>
     chain_reachable cr cfg m g (genesis_chain cr cfg m g)"
| step: "chain_reachable cr cfg m g bc \<Longrightarrow> chain_step cr g bc bc' \<Longrightarrow> chain_reachable cr cfg m g bc'"

definition chain_ok :: "crypto \<Rightarrow> ChainConfig \<Rightarrow> int \<Rightarrow> Block \<Rightarrow> BlockChain \<Rightarrow> bool" where
  "chain_ok cr cfg m g bc \<longleftrightarrow> blocks_ok cr g bc \<and> canonical_ok cr bc \<and> bcConfig bc = cfg \<and> maxReorgDepth bc = m"

lemma blocks_ok_same: "GetBlock bc' = GetBlock bc \<Longrightarrow> GetTd bc' = GetTd bc \<Longrightarrow> blocks_ok cr g bc' \<longleftrightarrow> blocks_ok cr g bc"
  by (simp add: blocks_ok_def)

text \<open>A block on top of the head becomes the head without a reorganisation.\<close>

lemma canonical_ok_extend:
  assumes db: "blocks_ok cr g bc" and ok: "canonical_ok cr bc" and st: "stored cr (GetBlock bc) b"
    and up: "bparent b = bhash cr (CurrentBlock bc)"
  shows "canonical_ok cr (writeHeadBlock cr bc b)" and "bnum b = bnum (CurrentBlock bc) + 1"
    and "GetBlock bc (bparent b) (bnum b - 1) = Some (CurrentBlock bc)"
proof -
  have cur: "stored cr (GetBlock bc) (CurrentBlock bc)" using ok by (simp add: canonical_ok_def)
  have "GetBlock bc (bparent g) (bnum (CurrentBlock bc)) = None" using db by (simp add: blocks_ok_def)
  then have "b \<noteq> g" using up cur by (auto simp: stored_def)
  then have "0 < bnum b" using stored_genesis [OF db st] by blast
  then obtain p where p: "GetBlock bc (bparent b) (bnum b - 1) = Some p" "stored cr (GetBlock bc) p" "bnum p = bnum b - 1"
    using stored_parent [OF db st] by blast
  have "bhash cr p = bhash cr (CurrentBlock bc)" using blocks_ok_GetBlock(1) [OF db p(1)] up by simp
  then have eq: "p = CurrentBlock bc" using stored_same_hash [OF db p(2) cur] by simp
  then show n: "bnum b = bnum (CurrentBlock bc) + 1" and q: "GetBlock bc (bparent b) (bnum b - 1) = Some (CurrentBlock bc)"
    using p \<open>0 < bnum b\<close> by simp_all
  have "((canonical bc)(bnum b \<mapsto> bhash cr b)) k =
      (if k \<le> bnum b then map_option (bhash cr) (ancestor (GetBlock bc) (bnum b - k) b) else None)" for k
  proof (cases "k \<le> bnum (CurrentBlock bc)")
    case True
    then have "bnum b - k = Suc (bnum (CurrentBlock bc) - k)" using n by simp
    then show ?thesis using True n q ok by (simp add: canonical_ok_def)
  qed (use n ok in \<open>auto simp: canonical_ok_def\<close>)
  then show "canonical_ok cr (writeHeadBlock cr bc b)" using st by (simp add: canonical_ok_def)
qed

text \<open>
  Adopting a stored block: the new chain shares with the old one everything but its last \<open>i\<close> blocks,
  and the only refusal is that of more than the cap of them.
\<close>

lemma writeKnownBlock_result:
  assumes ok: "chain_ok cr cfg m g bc" and st: "stored cr (GetBlock bc) b"
  shows "\<exists>i j c. i \<le> bnum (CurrentBlock bc) \<and> j \<le> bnum b \<and> bnum c = bnum (CurrentBlock bc) - i \<and> bnum c = bnum b - j \<and>
    ancestor (GetBlock bc) i (CurrentBlock bc) = Some c \<and> ancestor (GetBlock bc) j b = Some c \<and>
    forks_at (GetBlock bc) (CurrentBlock bc) b (bnum c) \<and>
    (if 0 < m \<and> m < int i \<and> IsPosa cfg (Number (bHeader (CurrentBlock bc)))
     then writeKnownBlock cr bc b = Some (Inl (errDeepReorg i m (bnum c)))
     else \<exists>bc'. writeKnownBlock cr bc b = Some (Inr bc') \<and> GetBlock bc' = GetBlock bc \<and> GetTd bc' = GetTd bc \<and>
       CurrentBlock bc' = b \<and> chain_ok cr cfg m g bc')"
proof (cases "bparent b = bhash cr (CurrentBlock bc)")
  case True
  have db: "blocks_ok cr g bc" "canonical_ok cr bc" using ok by (simp_all add: chain_ok_def)
  note e = canonical_ok_extend [OF db st True]
  have "chain_ok cr cfg m g (writeHeadBlock cr bc b)" using ok e(1) blocks_ok_same [of "writeHeadBlock cr bc b" bc] by (simp add: chain_ok_def)
  moreover have "writeKnownBlock cr bc b = Some (Inr (writeHeadBlock cr bc b))" using True by (simp add: writeKnownBlock_def)
  moreover have "forks_at (GetBlock bc) (CurrentBlock bc) b (bnum (CurrentBlock bc))" by (simp add: forks_at_def)
  ultimately show ?thesis using e(2,3) by (intro exI [of _ 0] exI [of _ 1] exI [of _ "CurrentBlock bc"]) simp
next
  case False
  have db: "blocks_ok cr g bc" "canonical_ok cr bc" and cfg: "bcConfig bc = cfg" "maxReorgDepth bc = m" using ok by (simp_all add: chain_ok_def)
  from reorg_result [OF db st] obtain i j c where
    r: "i \<le> bnum (CurrentBlock bc)" "j \<le> bnum b" "bnum c = bnum (CurrentBlock bc) - i" "bnum c = bnum b - j"
      "ancestor (GetBlock bc) i (CurrentBlock bc) = Some c" "ancestor (GetBlock bc) j b = Some c"
      "forks_at (GetBlock bc) (CurrentBlock bc) b (bnum c)" "reorg_sound cr bc b i c" by blast
  have "if 0 < m \<and> m < int i \<and> IsPosa cfg (Number (bHeader (CurrentBlock bc)))
     then writeKnownBlock cr bc b = Some (Inl (errDeepReorg i m (bnum c)))
     else \<exists>bc'. writeKnownBlock cr bc b = Some (Inr bc') \<and> GetBlock bc' = GetBlock bc \<and> GetTd bc' = GetTd bc \<and>
       CurrentBlock bc' = b \<and> chain_ok cr cfg m g bc'"
  proof (cases "0 < m \<and> m < int i \<and> IsPosa cfg (Number (bHeader (CurrentBlock bc)))")
    case True
    then show ?thesis using r(8) False by (simp add: reorg_sound_def cfg writeKnownBlock_def)
  next
    case F: False
    then obtain bc' where *: "reorg cr bc (CurrentBlock bc) b = Some (Inr bc')" "GetBlock bc' = GetBlock bc" "GetTd bc' = GetTd bc"
       "bcConfig bc' = bcConfig bc" "maxReorgDepth bc' = maxReorgDepth bc" "canonical_ok cr (writeHeadBlock cr bc' b)"
      using r(8) unfolding reorg_sound_def cfg by (auto split: if_splits)
    then have "chain_ok cr cfg m g (writeHeadBlock cr bc' b)" using ok blocks_ok_same [of "writeHeadBlock cr bc' b" bc] by (simp add: chain_ok_def)
    then show ?thesis using F False * by (simp add: writeKnownBlock_def)
  qed
  then show ?thesis using r(1-7) by blast
qed

lemma writeKnownBlock_keeps:
  assumes "chain_ok cr cfg m g bc" and "stored cr (GetBlock bc) b" and "writeKnownBlock cr bc b = Some (Inr bc')"
  shows "chain_ok cr cfg m g bc'" and "GetBlock bc' = GetBlock bc" and "GetTd bc' = GetTd bc" and "CurrentBlock bc' = b"
  using writeKnownBlock_result [OF assms(1,2)] assms(3) by (auto split: if_splits)

lemma chain_ok_store:
  assumes "chain_ok cr cfg m g bc" and "storable cr g bc b" and "GetTd bc (bparent b) (prev_number (bnum b)) = Some ptd"
  shows "chain_ok cr cfg m g (store_block cr bc b (the (Difficulty (bHeader b)) + ptd))"
  using assms blocks_ok_store [of cr g bc b ptd] canonical_ok_store [of cr g bc b]
  by (simp add: chain_ok_def) (simp add: store_block_def)

text \<open>What an import does: it stores the block, and adopts it when the fork choice says so.\<close>

lemma writeBlockAndSetHead_cases:
  assumes "writeBlockAndSetHead cr commits preserve coin bc b = Some (st, e, bc')"
  obtains (unknown) "e = Some chain_ErrUnknownAncestor" "st = NonStatTy" "bc' = bc"
  | (kept) ptd s where "GetTd bc (bparent b) (prev_number (bnum b)) = Some ptd" "s = store_block cr bc b (the (Difficulty (bHeader b)) + ptd)"
      "st \<noteq> CanonStatTy" "bc' = s"
  | (adopted) ptd s where "GetTd bc (bparent b) (prev_number (bnum b)) = Some ptd" "s = store_block cr bc b (the (Difficulty (bHeader b)) + ptd)"
      "st = CanonStatTy" "e = None" "ReorgNeeded cr s preserve coin (bHeader (CurrentBlock bc)) (bHeader b) = Inr True"
      "writeKnownBlock cr s b = Some (Inr bc')"
proof (cases "GetTd bc (bparent b) (prev_number (bnum b))")
  case None
  then show ?thesis using assms unknown by (simp add: writeBlockAndSetHead_def writeBlockWithState_def)
next
  case (Some ptd)
  define s where "s = store_block cr bc b (the (Difficulty (bHeader b)) + ptd)"
  have "CurrentBlock s = CurrentBlock bc" by (simp add: s_def store_block_def)
  then have w: "writeBlockAndSetHead cr commits preserve coin bc b =
    (if commits then
       (case ReorgNeeded cr s preserve coin (bHeader (CurrentBlock bc)) (bHeader b) of
          Inl e \<Rightarrow> Some (NonStatTy, Some e, s)
        | Inr False \<Rightarrow> Some (SideStatTy, None, s)
        | Inr True \<Rightarrow> (case writeKnownBlock cr s b of None \<Rightarrow> None
           | Some (Inl e) \<Rightarrow> Some (NonStatTy, Some e, s)
           | Some (Inr bc') \<Rightarrow> Some (CanonStatTy, None, bc')))
     else Some (NonStatTy, Some errStateCommit, s))"
    using Some by (simp add: writeBlockAndSetHead_def writeBlockWithState_def Let_def s_def [symmetric])
  show ?thesis
    using assms unfolding w
    by (auto split: if_splits sum.splits bool.splits option.splits intro: kept [OF Some s_def] adopted [OF Some s_def])
qed

lemma stored_store: "stored cr (GetBlock (store_block cr bc b td)) b"
  by (simp add: stored_def store_block_def)

lemma chain_ok_genesis:
  assumes "bnum g = 0" and "bhash cr g \<noteq> 0" and "bhash cr g \<noteq> bparent g" and "Difficulty (bHeader g) \<noteq> None"
  shows "chain_ok cr cfg m g (genesis_chain cr cfg m g)"
proof -
  have "blocks_ok cr g (genesis_chain cr cfg m g)"
    by (rule blocks_okI) (use assms in \<open>auto simp: genesis_chain_def stored_def split: if_splits\<close>)
  then show ?thesis by (auto simp: chain_ok_def canonical_ok_def genesis_chain_def stored_def assms(1))
qed

text \<open>Every step is a sequence of two: storing a block, and adopting a stored one.\<close>

lemma chain_step_cases:
  assumes "chain_step cr g bc bc'"
  obtains (same) "bc' = bc"
  | (store) b ptd where "storable cr g bc b" "GetTd bc (bparent b) (prev_number (bnum b)) = Some ptd"
      "bc' = store_block cr bc b (the (Difficulty (bHeader b)) + ptd)"
  | (adopt) b where "stored cr (GetBlock bc) b" "writeKnownBlock cr bc b = Some (Inr bc')"
  | (both) b ptd s where "storable cr g bc b" "GetTd bc (bparent b) (prev_number (bnum b)) = Some ptd"
      "s = store_block cr bc b (the (Difficulty (bHeader b)) + ptd)" "stored cr (GetBlock s) b" "writeKnownBlock cr s b = Some (Inr bc')"
  using assms
proof (cases rule: chain_step.cases)
  case (side b ptd stopped)
  then show ?thesis using store by (auto simp: writeBlockWithoutState_def split: if_splits)
next
  case (imported b commits preserve coin st e)
  from imported(2) show ?thesis
    by (cases rule: writeBlockAndSetHead_cases) (use imported(1) same store both stored_store in blast)+
qed (use adopt in \<open>simp_all add: SetCanonical_def\<close>)

lemma chain_ok_step:
  assumes "chain_ok cr cfg m g bc" and "chain_step cr g bc bc'"
  shows "chain_ok cr cfg m g bc'"
  using assms(2)
proof (cases rule: chain_step_cases)
  case (both b ptd s)
  then show ?thesis using writeKnownBlock_keeps(1) chain_ok_store [OF assms(1)] by blast
qed (use assms(1) chain_ok_store writeKnownBlock_keeps(1) in blast)+

lemma reachable_chain_ok: "chain_reachable cr cfg m g bc \<Longrightarrow> chain_ok cr cfg m g bc"
  by (induction rule: chain_reachable.induct) (blast intro: chain_ok_genesis chain_ok_step)+

section \<open>What the chain promises\<close>

text \<open>
  C3. In every reachable state the canonical index is the ancestry of the head and nothing else: a
  number up to the head's has the hash of the head's ancestor of that number, which is stored, and
  a number above it has none. No sequence of imports, side chains, reorganisations and refused
  blocks leaves a stale or a missing entry.
\<close>

theorem canonical_is_ancestry:
  assumes "chain_reachable cr cfg m g bc"
  shows "if n \<le> bnum (CurrentBlock bc)
    then \<exists>b. ancestor (GetBlock bc) (bnum (CurrentBlock bc) - n) (CurrentBlock bc) = Some b \<and> bnum b = n \<and>
      GetBlock bc (bhash cr b) n = Some b \<and> canonical bc n = Some (bhash cr b)
    else canonical bc n = None"
proof -
  have ok: "blocks_ok cr g bc" "canonical_ok cr bc" using reachable_chain_ok [OF assms] by (simp_all add: chain_ok_def)
  then have "stored cr (GetBlock bc) (CurrentBlock bc)" by (simp add: canonical_ok_def)
  from ancestor_exists [OF ok(1) this, of "bnum (CurrentBlock bc) - n"] ok(2) show ?thesis
    by (auto simp: canonical_ok_def stored_def)
qed

lemma canonical_below_fork:
  assumes "canonical_ok cr bc" and "canonical_ok cr bc'" and "GetBlock bc' = GetBlock bc"
    and "ancestor (GetBlock bc) i (CurrentBlock bc) = Some c" and "ancestor (GetBlock bc) j (CurrentBlock bc') = Some c"
    and "i \<le> bnum (CurrentBlock bc)" and "j \<le> bnum (CurrentBlock bc')"
    and "bnum c = bnum (CurrentBlock bc) - i" and "bnum c = bnum (CurrentBlock bc') - j" and "n \<le> bnum c"
  shows "canonical bc' n = canonical bc n"
proof -
  have "bnum (CurrentBlock bc) - n = i + (bnum c - n)" "bnum (CurrentBlock bc') - n = j + (bnum c - n)"
    "n \<le> bnum (CurrentBlock bc)" "n \<le> bnum (CurrentBlock bc')" using assms(6-10) by auto
  moreover have "ancestor (GetBlock bc) (i + (bnum c - n)) (CurrentBlock bc) = ancestor (GetBlock bc) (j + (bnum c - n)) (CurrentBlock bc')"
    by (simp only: ancestor_add assms(4,5))
  ultimately show ?thesis using assms(1-3) by (simp only: canonical_ok_def if_True)
qed

text \<open>
  C9. Adopting a stored block in a reachable state always returns. The walk finds the highest common
  ancestor of the head and the block. If the head is an authority block and more than the cap of
  blocks lie above that ancestor, the block is refused with exactly that depth; otherwise it
  becomes the head, and the index up to the common ancestor is unchanged.
\<close>

theorem adoption_decides:
  assumes "chain_reachable cr cfg m g bc" and "stored cr (GetBlock bc) b"
  shows "\<exists>c. let depth = bnum (CurrentBlock bc) - bnum c in
    bnum c \<le> bnum (CurrentBlock bc) \<and> ancestor (GetBlock bc) depth (CurrentBlock bc) = Some c \<and>
    bnum c \<le> bnum b \<and> ancestor (GetBlock bc) (bnum b - bnum c) b = Some c \<and>
    forks_at (GetBlock bc) (CurrentBlock bc) b (bnum c) \<and>
    (if 0 < m \<and> m < int depth \<and> IsPosa cfg (Number (bHeader (CurrentBlock bc)))
     then writeKnownBlock cr bc b = Some (Inl (errDeepReorg depth m (bnum c)))
     else \<exists>bc'. writeKnownBlock cr bc b = Some (Inr bc') \<and> CurrentBlock bc' = b \<and>
       (\<forall>n \<le> bnum c. canonical bc' n = canonical bc n))"
proof -
  have ok: "chain_ok cr cfg m g bc" by (rule reachable_chain_ok [OF assms(1)])
  then have c0: "canonical_ok cr bc" by (simp add: chain_ok_def)
  from writeKnownBlock_result [OF ok assms(2)] obtain i j c where
    r: "i \<le> bnum (CurrentBlock bc)" "j \<le> bnum b" "bnum c = bnum (CurrentBlock bc) - i" "bnum c = bnum b - j"
      "ancestor (GetBlock bc) i (CurrentBlock bc) = Some c" "ancestor (GetBlock bc) j b = Some c"
      "forks_at (GetBlock bc) (CurrentBlock bc) b (bnum c)"
    and w: "if 0 < m \<and> m < int i \<and> IsPosa cfg (Number (bHeader (CurrentBlock bc)))
     then writeKnownBlock cr bc b = Some (Inl (errDeepReorg i m (bnum c)))
     else \<exists>bc'. writeKnownBlock cr bc b = Some (Inr bc') \<and> GetBlock bc' = GetBlock bc \<and> GetTd bc' = GetTd bc \<and>
       CurrentBlock bc' = b \<and> chain_ok cr cfg m g bc'" by blast
  have i: "i = bnum (CurrentBlock bc) - bnum c" "j = bnum b - bnum c" using r(1-4) by simp_all
  have "canonical bc' n = canonical bc n" if "GetBlock bc' = GetBlock bc" "CurrentBlock bc' = b" "chain_ok cr cfg m g bc'" "n \<le> bnum c" for bc' n
    using canonical_below_fork [OF c0 _ that(1) r(5), of j n] r that by (simp add: chain_ok_def)
  then show ?thesis using r w unfolding i by (intro exI [of _ c]) (auto simp: Let_def split: if_splits)
qed

definition follows_config :: "Posa \<Rightarrow> ChainConfig \<Rightarrow> bool" where
  "follows_config p cfg \<longleftrightarrow> forkBlock p = PosaBlock cfg"

lemma follows_config_IsPosa: "follows_config p cfg \<Longrightarrow> posa_IsPosa p n = IsPosa cfg n"
  by (auto simp: follows_config_def posa_IsPosa_def IsPosa_def isForked_def split: option.splits)

lemma finalized_depth:
  assumes "FinalizedNumber p (Some h) m = Some f" and "follows_config p cfg" and "m < 2 ^ 63"
  shows "0 < m" and "IsPosa cfg (Number h)" and "unat f = unat (number_of h) - nat m"
proof -
  have "0 < m" "IsPosa cfg (Number h)" "f = below (number_of h) (word_of_int m)"
    using assms(1) follows_config_IsPosa [OF assms(2)] by (auto simp: FinalizedNumber_def split: if_splits)
  moreover from this have "unat (word_of_int m :: u64) = nat m" using assms(3) by (simp add: unat_eq_nat_uint uint_word_of_int)
  ultimately show "0 < m" "IsPosa cfg (Number h)" "unat f = unat (number_of h) - nat m"
    by (auto simp: below_def word_less_nat_alt unat_sub word_le_nat_alt)
qed

lemma finalized_survives_adoption:
  assumes "chain_ok cr cfg m g bc" and "stored cr (GetBlock bc) b" and "writeKnownBlock cr bc b = Some (Inr bc')"
    and "0 < m" and "IsPosa cfg (Number (bHeader (CurrentBlock bc)))" and "n + nat m \<le> bnum (CurrentBlock bc) \<or> n = 0"
  shows "canonical bc' n = canonical bc n"
proof -
  from writeKnownBlock_result [OF assms(1,2)] assms(3-5) obtain i j c where
    r: "i \<le> bnum (CurrentBlock bc)" "j \<le> bnum b" "bnum c = bnum (CurrentBlock bc) - i" "bnum c = bnum b - j"
      "ancestor (GetBlock bc) i (CurrentBlock bc) = Some c" "ancestor (GetBlock bc) j b = Some c" "int i \<le> m"
      "GetBlock bc' = GetBlock bc" "CurrentBlock bc' = b" "chain_ok cr cfg m g bc'" by (auto split: if_splits)
  have "n \<le> bnum c" using assms(4,6) r(1,3,7) by auto
  then show ?thesis using canonical_below_fork [OF _ _ r(8,5), of cr j n] r assms(1) by (simp add: chain_ok_def)
qed

text \<open>
  C5. The finalized tag is honoured step by step: in a reachable state with an authority head, the
  block the tag names, and every block below it, keep their place in the canonical chain through
  every import, side chain and adoption of a stored block that the node carries out. (The rewind
  by \<open>SetHead\<close> is no such step.)
\<close>

theorem finalized_block_stays:
  assumes "chain_reachable cr cfg m g bc" and "chain_step cr g bc bc'" and "follows_config p cfg" and "m < 2 ^ 63"
    and "FinalizedNumber p (Some (bHeader (CurrentBlock bc))) m = Some f" and "n \<le> unat f"
  shows "canonical bc' n = canonical bc n"
proof -
  have ok: "chain_ok cr cfg m g bc" by (rule reachable_chain_ok [OF assms(1)])
  note f = finalized_depth [OF assms(5,3,4)]
  have n: "n + nat m \<le> bnum (CurrentBlock bc) \<or> n = 0" using assms(6) f(3) by (auto simp: bnum_def pow_number_def number_of_def)
  from assms(2) show ?thesis
  proof (cases rule: chain_step_cases)
    case (adopt b)
    then show ?thesis using finalized_survives_adoption [OF ok] f(1,2) n by blast
  next
    case (both b ptd s)
    have same: "canonical s = canonical bc" "CurrentBlock s = CurrentBlock bc" using both(3) by (simp_all add: store_block_def)
    have "chain_ok cr cfg m g s" using chain_ok_store [OF ok both(1,2)] both(3) by simp
    from finalized_survives_adoption [OF this both(4,5) f(1)] show ?thesis using f(2) n same by simp
  qed (simp_all add: store_block_def)
qed

definition head_td :: "crypto \<Rightarrow> BlockChain \<Rightarrow> int" where
  "head_td cr bc = the (GetTd bc (bhash cr (CurrentBlock bc)) (bnum (CurrentBlock bc)))"

definition terminal :: "ChainConfig \<Rightarrow> int \<Rightarrow> bool" where
  "terminal cfg td \<longleftrightarrow> (\<exists>ttd. TerminalTotalDifficulty cfg = Some ttd \<and> ttd \<le> td)"

lemma ReorgNeeded_improves:
  assumes "ReorgNeeded cr bc preserve coin old new = Inr True"
  shows "terminal (bcConfig bc) (the (GetTd bc (Hash cr new) (unat (pow_number new)))) \<or>
    (if IsPosa (bcConfig bc) (Number old) = IsPosa (bcConfig bc) (Number new)
     then the (GetTd bc (Hash cr old) (unat (pow_number old))) \<le> the (GetTd bc (Hash cr new) (unat (pow_number new)))
     else IsPosa (bcConfig bc) (Number new))"
proof -
  have "PosaBlock (bcConfig bc) = None \<Longrightarrow> \<not> IsPosa (bcConfig bc) x" for x by (simp add: IsPosa_def isForked_def)
  then show ?thesis using assms
    by (cases "PosaBlock (bcConfig bc)") (auto simp: ReorgNeeded_def terminal_def Let_def split: option.splits if_splits)
qed

text \<open>
  C12. Importing a block does not make the head worse, as long as the new head has not reached a
  configured terminal total difficulty. An authority head is then only replaced by an authority
  block, whatever the total difficulty of a proof-of-work branch; a proof-of-work head may be
  replaced by an authority block; and within one kind the total difficulty of the head does not
  fall. An import that does not report a new canonical block keeps the head, in every case.
\<close>

theorem import_improves_head:
  assumes "chain_reachable cr cfg m g bc" and "storable cr g bc b"
    and "writeBlockAndSetHead cr commits preserve coin bc b = Some (st, e, bc')"
  shows "if st = CanonStatTy
    then CurrentBlock bc' = b \<and> e = None \<and>
      (terminal cfg (head_td cr bc') \<or>
       (if IsPosa cfg (Number (bHeader (CurrentBlock bc))) = IsPosa cfg (Number (bHeader b))
        then head_td cr bc \<le> head_td cr bc' else IsPosa cfg (Number (bHeader b))))
    else CurrentBlock bc' = CurrentBlock bc"
proof -
  have ok: "chain_ok cr cfg m g bc" by (rule reachable_chain_ok [OF assms(1)])
  from assms(3) show ?thesis
  proof (cases rule: writeBlockAndSetHead_cases)
    case (adopted ptd s)
    have s: "chain_ok cr cfg m g s" using chain_ok_store [OF ok assms(2) adopted(1)] adopted(2) by simp
    have "stored cr (GetBlock s) b" using adopted(2) stored_store by simp
    note k = writeKnownBlock_keeps [OF s this adopted(6)]
    have cur: "stored cr (GetBlock bc) (CurrentBlock bc)" using ok by (simp add: chain_ok_def canonical_ok_def)
    have "GetTd s (bhash cr (CurrentBlock bc)) (bnum (CurrentBlock bc)) = GetTd bc (bhash cr (CurrentBlock bc)) (bnum (CurrentBlock bc))"
    proof (cases "bhash cr (CurrentBlock bc) = bhash cr b")
      case True
      then have "stored cr (GetBlock bc) b" using cur assms(2) by (auto simp: storable_def stored_def)
      then show ?thesis using store_known [of cr g, OF _ _ adopted(1)] ok adopted(2) by (simp add: chain_ok_def)
    qed (simp add: adopted(2) store_block_def)
    then show ?thesis
      using ReorgNeeded_improves [OF adopted(5)] s k(3,4) adopted(3,4)
      by (auto simp: chain_ok_def head_td_def bhash_def bnum_def)
  qed (simp_all add: store_block_def)
qed

text \<open>An import of a block on a known parent returns, and adopts the block when the fork is not deeper than the cap.\<close>

lemma forks_at_le:
  assumes "forks_at gb a b k" and "n \<le> bnum a" and "n \<le> bnum b" and "ancestor gb (bnum a - n) a = ancestor gb (bnum b - n) b"
  shows "n \<le> k"
  using assms unfolding forks_at_def by (metis not_le)

lemma import_returns:
  assumes bc: "chain_reachable cr cfg m g bc" and b: "storable cr g bc b"
    and td: "GetTd bc (bparent b) (prev_number (bnum b)) = Some ptd" and s: "s = store_block cr bc b (the (Difficulty (bHeader b)) + ptd)"
    and r: "ReorgNeeded cr s preserve coin (bHeader (CurrentBlock bc)) (bHeader b) = Inr r"
    and shallow: "n \<le> bnum (CurrentBlock bc) \<and> n \<le> bnum b \<and> bnum (CurrentBlock bc) \<le> n + nat m \<and>
      ancestor (GetBlock s) (bnum (CurrentBlock bc) - n) (CurrentBlock bc) = ancestor (GetBlock s) (bnum b - n) b"
  shows "\<exists>bc'. writeBlockAndSetHead cr True preserve coin bc b = Some (if r then CanonStatTy else SideStatTy, None, bc') \<and>
    chain_reachable cr cfg m g bc' \<and> GetBlock bc' = GetBlock s \<and> GetTd bc' = GetTd s \<and>
    CurrentBlock bc' = (if r then b else CurrentBlock bc)"
proof -
  have cur: "CurrentBlock s = CurrentBlock bc" by (simp add: s store_block_def)
  have ok: "chain_ok cr cfg m g s" using chain_ok_store [OF reachable_chain_ok [OF bc] b td] s by simp
  have "\<exists>bc'. writeKnownBlock cr s b = Some (Inr bc') \<and> GetBlock bc' = GetBlock s \<and> GetTd bc' = GetTd s \<and> CurrentBlock bc' = b"
  proof -
    have "stored cr (GetBlock s) b" by (simp add: s stored_store)
    from writeKnownBlock_result [OF ok this] obtain i j c where
      w: "i \<le> bnum (CurrentBlock bc)" "bnum c = bnum (CurrentBlock bc) - i" "forks_at (GetBlock s) (CurrentBlock bc) b (bnum c)"
        "if 0 < m \<and> m < int i \<and> IsPosa cfg (Number (bHeader (CurrentBlock bc)))
         then writeKnownBlock cr s b = Some (Inl (errDeepReorg i m (bnum c)))
         else \<exists>bc'. writeKnownBlock cr s b = Some (Inr bc') \<and> GetBlock bc' = GetBlock s \<and> GetTd bc' = GetTd s \<and>
           CurrentBlock bc' = b \<and> chain_ok cr cfg m g bc'" unfolding cur by blast
    have "n \<le> bnum c" using forks_at_le [OF w(3)] shallow by blast
    then have "\<not> (0 < m \<and> m < int i)" using w(1,2) shallow by auto
    then show ?thesis using w(4) by auto
  qed
  then obtain k where k: "writeKnownBlock cr s b = Some (Inr k)" "GetBlock k = GetBlock s" "GetTd k = GetTd s" "CurrentBlock k = b" by blast
  have "writeBlockAndSetHead cr True preserve coin bc b = Some (if r then CanonStatTy else SideStatTy, None, if r then k else s)"
    unfolding writeBlockAndSetHead_def writeBlockWithState_def Let_def using td r cur k(1) by (cases r) (simp_all add: s [symmetric])
  then obtain bc' where "writeBlockAndSetHead cr True preserve coin bc b = Some (if r then CanonStatTy else SideStatTy, None, bc')"
    "GetBlock bc' = GetBlock s" "GetTd bc' = GetTd s" "CurrentBlock bc' = (if r then b else CurrentBlock bc)"
    using k cur by (cases r) simp_all
  then show ?thesis using chain_reachable.step [OF bc chain_step.imported [OF b]] by blast
qed

end
