(* ===== verification/Fork_Examples.thy ===== *)
theory Fork_Examples
  imports Posa_Examples Fork_Choice
begin

text \<open>
  Concrete instances of the theorems about the canonical chain, on a chain of authority blocks with
  a reorganisation cap of two, and a sequence of allowed reorganisations by which a block that the
  finalized tag named leaves the canonical chain.
\<close>

section \<open>Blocks\<close>

definition fork_block :: "int \<Rightarrow> hash \<Rightarrow> hash \<Rightarrow> int \<Rightarrow> Block" where
  "fork_block n parent uncles d = \<lparr>bHeader = (pow_header n parent uncles)\<lparr>Difficulty := Some d\<rparr>, bTxs = []\<rparr>"

lemma fork_block_fields [simp]:
  "bnum (fork_block n p q d) = unat (word_of_int n :: u64)" "bparent (fork_block n p q d) = p"
  "Difficulty (bHeader (fork_block n p q d)) = Some d" "Number (bHeader (fork_block n p q d)) = Some n"
  "pow_number (bHeader (fork_block n p q d)) = word_of_int n" "number_of (bHeader (fork_block n p q d)) = word_of_int n"
  by (simp_all add: fork_block_def bnum_def bparent_def pow_number_def number_of_def)

lemma fork_block_hash:
  assumes "0 \<le> n" and "n < 2 ^ 64" and "0 \<le> d" and "d < 2 ^ 80"
  shows "Hash pow_crypto (bHeader (fork_block n p q d)) = p + q"
proof -
  have "BitLen (nat d) \<le> 80" "BitLen 1000 \<le> 256" unfolding BitLen_le_iff using assms(3,4) by (simp_all add: nat_less_iff)
  then have "SanityCheck (bHeader (fork_block n p q d)) = None"
    using assms by (auto simp: fork_block_def SanityCheck_def IsUint64_def)
  from pow_hash_sum [OF this] show ?thesis using assms(3) by (simp add: fork_block_def opt_nonneg_def)
qed

definition fork_cfg :: ChainConfig where
  "fork_cfg = FerminuxChainConfig\<lparr>PosaBlock := Some 1\<rparr>"

lemma fork_cfg_fields [simp]:
  "PosaBlock fork_cfg = Some 1" "TerminalTotalDifficulty fork_cfg = None" "IsPosa fork_cfg (Some n) \<longleftrightarrow> 1 \<le> n"
  by (simp_all add: fork_cfg_def FerminuxChainConfig_def IsPosa_def isForked_def)

definition fork_posa :: Posa where
  "fork_posa = seal_posa\<lparr>forkBlock := Some 1\<rparr>"

text \<open>The genesis, four blocks on it, a sibling of the third of difficulty two, and a branch from the first.\<close>

definition fork_g :: Block where "fork_g = fork_block 0 0 1000 1"

definition fork_a1 :: Block where "fork_a1 = fork_block 1 1000 1 1"

definition fork_a2 :: Block where "fork_a2 = fork_block 2 1001 1 1"

definition fork_a3 :: Block where "fork_a3 = fork_block 3 1002 1 1"

definition fork_a4 :: Block where "fork_a4 = fork_block 4 1003 1 1"

definition fork_b3 :: Block where "fork_b3 = fork_block 3 1002 100 2"

definition fork_c2 :: Block where "fork_c2 = fork_block 2 1001 200 2"

definition fork_c3 :: Block where "fork_c3 = fork_block 3 1201 1 2"

lemmas fork_blocks = fork_g_def fork_a1_def fork_a2_def fork_a3_def fork_a4_def fork_b3_def fork_c2_def fork_c3_def

lemma fork_bhash [simp]:
  "bhash pow_crypto fork_g = 1000" "bhash pow_crypto fork_a1 = 1001" "bhash pow_crypto fork_a2 = 1002"
  "bhash pow_crypto fork_a3 = 1003" "bhash pow_crypto fork_a4 = 1004" "bhash pow_crypto fork_b3 = 1102"
  "bhash pow_crypto fork_c2 = 1201" "bhash pow_crypto fork_c3 = 1202"
  by (simp_all add: fork_blocks bhash_def fork_block_hash)

lemma fork_numbers [simp]:
  "bnum fork_g = 0" "bnum fork_a1 = 1" "bnum fork_a2 = 2" "bnum fork_a3 = 3" "bnum fork_a4 = 4" "bnum fork_b3 = 3"
  "bnum fork_c2 = 2" "bnum fork_c3 = 3"
  by (simp_all add: fork_blocks)

lemma fork_parents [simp]:
  "bparent fork_g = 0" "bparent fork_a1 = 1000" "bparent fork_a2 = 1001" "bparent fork_a3 = 1002" "bparent fork_a4 = 1003"
  "bparent fork_b3 = 1002" "bparent fork_c2 = 1001" "bparent fork_c3 = 1201"
  by (simp_all add: fork_blocks)

section \<open>States\<close>

text \<open>A state given by its blocks with their total difficulties and its head.\<close>

definition fork_look :: "(Block \<times> int) list \<Rightarrow> hash \<Rightarrow> nat \<Rightarrow> (Block \<times> int) option" where
  "fork_look xs h n = find (\<lambda>(b, _). h = bhash pow_crypto b \<and> n = bnum b) xs"

definition fork_state :: "(Block \<times> int) list \<Rightarrow> Block \<Rightarrow> BlockChain \<Rightarrow> bool" where
  "fork_state xs b bc \<longleftrightarrow> chain_reachable pow_crypto fork_cfg 2 fork_g bc \<and> CurrentBlock bc = b \<and>
    GetBlock bc = (\<lambda>h n. map_option fst (fork_look xs h n)) \<and> GetTd bc = (\<lambda>h n. map_option snd (fork_look xs h n))"

lemma fork_start: "fork_state [(fork_g, 1)] fork_g (genesis_chain pow_crypto fork_cfg 2 fork_g)"
proof -
  have "Difficulty (bHeader fork_g) = Some 1" by (simp add: fork_g_def)
  then show ?thesis using chain_reachable.genesis [of fork_g pow_crypto fork_cfg 2]
    by (auto simp: fork_state_def fork_look_def genesis_chain_def fun_eq_iff)
qed

lemma fork_import:
  assumes "fork_state xs a bc" and "map_option snd (fork_look xs (bparent b) (prev_number (bnum b))) = Some ptd"
    and "Difficulty (bHeader b) = Some d" and "ys = (b, d + ptd) # xs"
    and "bnum b < 2 ^ 64 - 1" and "bhash pow_crypto b \<noteq> 0" and "\<forall>(x, _) \<in> set xs. bhash pow_crypto x \<noteq> bhash pow_crypto b"
    and "\<And>s. GetTd s = (\<lambda>h n. map_option snd (fork_look ys h n)) \<Longrightarrow> bcConfig s = fork_cfg \<Longrightarrow>
      ReorgNeeded pow_crypto s None False (bHeader a) (bHeader b) = Inr r"
    and "n \<le> bnum a" and "n \<le> bnum b" and "bnum a \<le> n + 2"
    and "ancestor (\<lambda>h n. map_option fst (fork_look ys h n)) (bnum a - n) a = ancestor (\<lambda>h n. map_option fst (fork_look ys h n)) (bnum b - n) b"
  shows "\<exists>bc'. fork_state ys (if r then b else a) bc' \<and> chain_step pow_crypto fork_g bc bc' \<and>
    writeBlockAndSetHead pow_crypto True None False bc b = Some (if r then CanonStatTy else SideStatTy, None, bc')"
proof -
  define s where "s = store_block pow_crypto bc b (the (Difficulty (bHeader b)) + ptd)"
  have bc: "chain_reachable pow_crypto fork_cfg 2 fork_g bc" "CurrentBlock bc = a"
    "GetBlock bc = (\<lambda>h n. map_option fst (fork_look xs h n))" "GetTd bc = (\<lambda>h n. map_option snd (fork_look xs h n))"
    using assms(1) by (auto simp: fork_state_def)
  have "fork_look xs (bhash pow_crypto b) m = None" for m
    using assms(7) by (auto simp: fork_look_def find_None_iff)
  then have st: "storable pow_crypto fork_g bc b" using assms(5,6) bc(3) by (simp add: storable_def)
  have td: "GetTd bc (bparent b) (prev_number (bnum b)) = Some ptd" using assms(2) bc(4) by simp
  have s: "GetBlock s = (\<lambda>h n. map_option fst (fork_look ys h n))" "GetTd s = (\<lambda>h n. map_option snd (fork_look ys h n))"
    by (auto simp: s_def store_block_def assms(3,4) bc fork_look_def fun_eq_iff)
  have "bcConfig s = fork_cfg" using reachable_chain_ok [OF bc(1)] by (simp add: chain_ok_def s_def store_block_def)
  then have "ReorgNeeded pow_crypto s None False (bHeader (CurrentBlock bc)) (bHeader b) = Inr r" using assms(8) s(2) bc(2) by simp
  from import_returns [OF bc(1) st td s_def this, of n] assms(9-12) bc(2) s show ?thesis
    by (auto simp: fork_state_def intro: chain_step.imported [OF st])
qed

section \<open>A run\<close>

lemma fork_header_fields [simp]:
  "Number (bHeader fork_g) = Some 0" "Number (bHeader fork_a1) = Some 1" "Number (bHeader fork_a2) = Some 2"
  "Number (bHeader fork_a3) = Some 3" "Number (bHeader fork_a4) = Some 4" "Number (bHeader fork_b3) = Some 3"
  "Number (bHeader fork_c2) = Some 2" "Number (bHeader fork_c3) = Some 3"
  "Difficulty (bHeader fork_a1) = Some 1" "Difficulty (bHeader fork_a2) = Some 1" "Difficulty (bHeader fork_a3) = Some 1"
  "Difficulty (bHeader fork_a4) = Some 1" "Difficulty (bHeader fork_b3) = Some 2" "Difficulty (bHeader fork_c2) = Some 2"
  "Difficulty (bHeader fork_c3) = Some 2"
  by (simp_all add: fork_blocks)

lemma fork_distinct: "fork_a2 \<noteq> fork_c2"
  using fork_bhash(3,7) by fastforce

text \<open>Fork choice between two authority blocks of the state, or a genesis and an authority block.\<close>

lemma fork_choice:
  assumes "GetTd s (bhash pow_crypto a) (bnum a) = Some x" and "GetTd s (bhash pow_crypto b) (bnum b) = Some y"
    and "bcConfig s = fork_cfg" and "Number (bHeader a) = Some m" and "Number (bHeader b) = Some n" and "1 \<le> n" and "bnum a \<noteq> bnum b \<or> x \<noteq> y"
  shows "ReorgNeeded pow_crypto s None False (bHeader a) (bHeader b) = Inr (m < 1 \<or> x < y \<or> x = y \<and> bnum b < bnum a)"
  using assms unfolding ReorgNeeded_def bhash_def bnum_def
  by (auto simp: Let_def word_less_nat_alt)

definition fork_db :: "(Block \<times> int) list" where
  "fork_db = [(fork_a4, 5), (fork_a3, 4), (fork_a2, 3), (fork_a1, 2), (fork_g, 1)]"

lemma fork_head_a4: "\<exists>bc. fork_state fork_db fork_a4 bc"
proof -
  from fork_import [OF fork_start, of fork_a1 1 1 "[(fork_a1, 2), (fork_g, 1)]" True 0] obtain s1 where
    s1: "fork_state [(fork_a1, 2), (fork_g, 1)] fork_a1 s1"
    by (auto simp: fork_choice [of _ fork_g 1 fork_a1 2] fork_look_def prev_number_def)
  from fork_import [OF s1, of fork_a2 2 1 "[(fork_a2, 3), (fork_a1, 2), (fork_g, 1)]" True 1] obtain s2 where
    s2: "fork_state [(fork_a2, 3), (fork_a1, 2), (fork_g, 1)] fork_a2 s2"
    by (auto simp: fork_choice [of _ fork_a1 2 fork_a2 3] fork_look_def prev_number_def)
  from fork_import [OF s2, of fork_a3 3 1 "[(fork_a3, 4), (fork_a2, 3), (fork_a1, 2), (fork_g, 1)]" True 2] obtain s3 where
    s3: "fork_state [(fork_a3, 4), (fork_a2, 3), (fork_a1, 2), (fork_g, 1)] fork_a3 s3"
    by (auto simp: fork_choice [of _ fork_a2 3 fork_a3 4] fork_look_def prev_number_def)
  from fork_import [OF s3, of fork_a4 4 1 fork_db True 3] show ?thesis
    by (auto simp: fork_choice [of _ fork_a3 4 fork_a4 5] fork_look_def prev_number_def fork_db_def)
qed

lemma ancestor_numeral [simp]:
  "ancestor gb (numeral k) b = (case gb (bparent b) (bnum b - 1) of None \<Rightarrow> None | Some p \<Rightarrow> ancestor gb (pred_numeral k) p)"
  by (simp add: numeral_eq_Suc)

lemma fork_import_b3:
  assumes "fork_state fork_db fork_a4 bc"
  shows "\<exists>bc'. fork_state ((fork_b3, 5) # fork_db) fork_b3 bc' \<and> chain_step pow_crypto fork_g bc bc' \<and>
    writeBlockAndSetHead pow_crypto True None False bc fork_b3 = Some (CanonStatTy, None, bc')"
  using fork_import [OF assms, of fork_b3 3 2 "(fork_b3, 5) # fork_db" True 2]
  by (auto simp: fork_choice [of _ fork_a4 5 fork_b3 5] fork_look_def prev_number_def fork_db_def)

lemma fork_import_c2:
  assumes "fork_state fork_db fork_a4 bc"
  shows "\<exists>bc'. fork_state ((fork_c2, 4) # fork_db) fork_a4 bc' \<and> chain_step pow_crypto fork_g bc bc'"
proof -
  have bc: "chain_reachable pow_crypto fork_cfg 2 fork_g bc" "CurrentBlock bc = fork_a4"
    "GetBlock bc = (\<lambda>h n. map_option fst (fork_look fork_db h n))" "GetTd bc = (\<lambda>h n. map_option snd (fork_look fork_db h n))"
    using assms by (auto simp: fork_state_def)
  have "fork_look fork_db 1201 m = None" for m by (simp add: fork_look_def fork_db_def)
  then have "storable pow_crypto fork_g bc fork_c2" by (simp add: storable_def bc(3))
  moreover have "GetTd bc (bparent fork_c2) (prev_number (bnum fork_c2)) = Some 2"
    by (simp add: bc(4) fork_look_def fork_db_def prev_number_def)
  ultimately have step: "chain_step pow_crypto fork_g bc (store_block pow_crypto bc fork_c2 4)"
    by (rule chain_step.side [where stopped = False]) (simp add: writeBlockWithoutState_def)
  moreover have "fork_state ((fork_c2, 4) # fork_db) fork_a4 (store_block pow_crypto bc fork_c2 4)"
    using chain_reachable.step [OF bc(1) step] by (auto simp: fork_state_def store_block_def bc fork_look_def fun_eq_iff)
  ultimately show ?thesis by blast
qed

lemma fork_import_branch:
  assumes "fork_state ((fork_b3, 5) # fork_db) fork_b3 bc"
  shows "\<exists>bc1 bc2. writeBlockAndSetHead pow_crypto True None False bc fork_c2 = Some (SideStatTy, None, bc1) \<and>
    fork_state ((fork_c2, 4) # (fork_b3, 5) # fork_db) fork_b3 bc1 \<and>
    writeBlockAndSetHead pow_crypto True None False bc1 fork_c3 = Some (CanonStatTy, None, bc2) \<and>
    fork_state ((fork_c3, 6) # (fork_c2, 4) # (fork_b3, 5) # fork_db) fork_c3 bc2"
proof -
  from fork_import [OF assms, of fork_c2 2 2 "(fork_c2, 4) # (fork_b3, 5) # fork_db" False 1] obtain bc1 where
    1: "fork_state ((fork_c2, 4) # (fork_b3, 5) # fork_db) fork_b3 bc1"
      "writeBlockAndSetHead pow_crypto True None False bc fork_c2 = Some (SideStatTy, None, bc1)"
    by (auto simp: fork_choice [of _ fork_b3 5 fork_c2 4] fork_look_def prev_number_def fork_db_def)
  from fork_import [OF 1(1), of fork_c3 4 2 "(fork_c3, 6) # (fork_c2, 4) # (fork_b3, 5) # fork_db" True 1] 1 show ?thesis
    by (auto simp: fork_choice [of _ fork_b3 5 fork_c3 6] fork_look_def prev_number_def fork_db_def)
qed

lemma fork_canonical_2:
  assumes "fork_state xs b bc" and "2 \<le> bnum b"
  shows "canonical bc 2 = map_option (bhash pow_crypto) (ancestor (\<lambda>h n. map_option fst (fork_look xs h n)) (bnum b - 2) b)"
  using assms reachable_chain_ok [of pow_crypto fork_cfg 2 fork_g bc] by (auto simp: fork_state_def chain_ok_def canonical_ok_def)

section \<open>Instances\<close>

theorem canonical_is_ancestry_witness:
  "\<exists>bc. fork_state fork_db fork_a4 bc \<and> canonical bc 2 = Some 1002 \<and> canonical bc 5 = None"
proof -
  obtain bc where bc: "fork_state fork_db fork_a4 bc" using fork_head_a4 by blast
  then have r: "chain_reachable pow_crypto fork_cfg 2 fork_g bc" "CurrentBlock bc = fork_a4"
    "GetBlock bc = (\<lambda>h n. map_option fst (fork_look fork_db h n))" by (auto simp: fork_state_def)
  show ?thesis
    using bc canonical_is_ancestry [OF r(1), of 2] canonical_is_ancestry [OF r(1), of 5]
    by (intro exI [of _ bc]) (simp add: r(2,3) fork_look_def fork_db_def)
qed

theorem adoption_decides_witness:
  "\<exists>bc. fork_state ((fork_c2, 4) # fork_db) fork_a4 bc \<and>
    writeKnownBlock pow_crypto bc fork_c2 = Some (Inl (errDeepReorg 3 2 1))"
proof -
  obtain bc0 where "fork_state fork_db fork_a4 bc0" using fork_head_a4 by blast
  then obtain bc where bc: "fork_state ((fork_c2, 4) # fork_db) fork_a4 bc" using fork_import_c2 by blast
  then have r: "chain_reachable pow_crypto fork_cfg 2 fork_g bc" "CurrentBlock bc = fork_a4"
    "GetBlock bc = (\<lambda>h n. map_option fst (fork_look ((fork_c2, 4) # fork_db) h n))" by (auto simp: fork_state_def)
  have st: "stored pow_crypto (GetBlock bc) fork_c2" by (simp add: stored_def r(3) fork_look_def)
  have a: "ancestor (GetBlock bc) 3 fork_a4 = Some fork_a1" "ancestor (GetBlock bc) 2 fork_a4 = Some fork_a2"
    "ancestor (GetBlock bc) 1 fork_c2 = Some fork_a1"
    by (simp_all add: r(3) fork_look_def fork_db_def)
  from adoption_decides [OF r(1) st] obtain c where
    c: "bnum c \<le> 4" "ancestor (GetBlock bc) (4 - bnum c) fork_a4 = Some c" "bnum c \<le> 2"
      "ancestor (GetBlock bc) (2 - bnum c) fork_c2 = Some c" "forks_at (GetBlock bc) fork_a4 fork_c2 (bnum c)"
      "2 < int (4 - bnum c) \<Longrightarrow> writeKnownBlock pow_crypto bc fork_c2 = Some (Inl (errDeepReorg (4 - bnum c) 2 (bnum c)))"
    by (auto simp: r(2) Let_def)
  have "1 \<le> bnum c" by (rule forks_at_le [OF c(5)]) (simp_all add: a [simplified])
  moreover have "bnum c \<noteq> 2" using c(2,4) a(2) fork_distinct by auto
  ultimately have "bnum c = 1" using c(3) by simp
  then show ?thesis using bc c(6) by auto
qed

theorem finalized_block_stays_witness:
  "\<exists>bc bc'. fork_state fork_db fork_a4 bc \<and> fork_state ((fork_b3, 5) # fork_db) fork_b3 bc' \<and> chain_step pow_crypto fork_g bc bc' \<and>
    FinalizedNumber fork_posa (Some (bHeader fork_a4)) 2 = Some 2 \<and> canonical bc' 2 = canonical bc 2"
proof -
  obtain bc where bc: "fork_state fork_db fork_a4 bc" using fork_head_a4 by blast
  then obtain bc' where bc': "fork_state ((fork_b3, 5) # fork_db) fork_b3 bc'" "chain_step pow_crypto fork_g bc bc'"
    using fork_import_b3 by blast
  have r: "chain_reachable pow_crypto fork_cfg 2 fork_g bc" "CurrentBlock bc = fork_a4" using bc by (auto simp: fork_state_def)
  have "FinalizedNumber fork_posa (Some (bHeader fork_a4)) 2 = Some 2"
    by (simp add: FinalizedNumber_def fork_posa_def seal_posa_def posa_IsPosa_def below_def number_of_def)
  moreover have "follows_config fork_posa fork_cfg" by (simp add: follows_config_def fork_posa_def)
  ultimately show ?thesis
    using finalized_block_stays [OF r(1) bc'(2), of fork_posa 2 2] bc bc' r(2) by auto
qed

theorem import_improves_head_witness:
  "\<exists>bc bc'. fork_state fork_db fork_a4 bc \<and>
    writeBlockAndSetHead pow_crypto True None False bc fork_b3 = Some (CanonStatTy, None, bc') \<and>
    CurrentBlock bc' = fork_b3 \<and> head_td pow_crypto bc \<le> head_td pow_crypto bc'"
proof -
  obtain bc where bc: "fork_state fork_db fork_a4 bc" using fork_head_a4 by blast
  then obtain bc' where bc': "writeBlockAndSetHead pow_crypto True None False bc fork_b3 = Some (CanonStatTy, None, bc')"
    using fork_import_b3 by blast
  have r: "chain_reachable pow_crypto fork_cfg 2 fork_g bc" "CurrentBlock bc = fork_a4"
    "GetBlock bc = (\<lambda>h n. map_option fst (fork_look fork_db h n))" using bc by (auto simp: fork_state_def)
  have "fork_look fork_db 1102 m = None" for m by (simp add: fork_look_def fork_db_def)
  then have "storable pow_crypto fork_g bc fork_b3" by (simp add: storable_def r(3))
  from import_improves_head [OF r(1) this bc'] bc bc' r(2) show ?thesis by (auto simp: terminal_def)
qed

text \<open>
  C37. Finality holds for one step and not for ever: with a cap of two, a chain whose head is block four
  reports block two as finalized; the import of a sibling of block three with the same total
  difficulty and a lower number then changes the head, and the import of a branch of two blocks
  from block one changes it again. Either change drops two blocks, which the cap allows. The
  finalized block two has left the canonical chain by three imports alone, and the head was an
  authority block before and after each of them.
\<close>

theorem finalized_block_can_leave:
  "\<exists>bc0 bc1 bc2 bc3.
    chain_reachable pow_crypto fork_cfg 2 fork_g bc0 \<and>
    writeBlockAndSetHead pow_crypto True None False bc0 fork_b3 = Some (CanonStatTy, None, bc1) \<and>
    chain_reachable pow_crypto fork_cfg 2 fork_g bc1 \<and>
    writeBlockAndSetHead pow_crypto True None False bc1 fork_c2 = Some (SideStatTy, None, bc2) \<and>
    chain_reachable pow_crypto fork_cfg 2 fork_g bc2 \<and>
    writeBlockAndSetHead pow_crypto True None False bc2 fork_c3 = Some (CanonStatTy, None, bc3) \<and>
    chain_reachable pow_crypto fork_cfg 2 fork_g bc3 \<and>
    IsPosa fork_cfg (Number (bHeader (CurrentBlock bc0))) \<and> IsPosa fork_cfg (Number (bHeader (CurrentBlock bc1))) \<and>
    IsPosa fork_cfg (Number (bHeader (CurrentBlock bc2))) \<and> IsPosa fork_cfg (Number (bHeader (CurrentBlock bc3))) \<and>
    FinalizedNumber fork_posa (Some (bHeader (CurrentBlock bc0))) 2 = Some 2 \<and>
    canonical bc0 2 = Some (bhash pow_crypto fork_a2) \<and> canonical bc3 2 = Some (bhash pow_crypto fork_c2) \<and>
    bhash pow_crypto fork_a2 \<noteq> bhash pow_crypto fork_c2"
proof -
  obtain bc0 where bc0: "fork_state fork_db fork_a4 bc0" using fork_head_a4 by blast
  then obtain bc1 where bc1: "fork_state ((fork_b3, 5) # fork_db) fork_b3 bc1"
    "writeBlockAndSetHead pow_crypto True None False bc0 fork_b3 = Some (CanonStatTy, None, bc1)"
    using fork_import_b3 by blast
  then obtain bc2 bc3 where bc2: "writeBlockAndSetHead pow_crypto True None False bc1 fork_c2 = Some (SideStatTy, None, bc2)"
      "fork_state ((fork_c2, 4) # (fork_b3, 5) # fork_db) fork_b3 bc2"
    and bc3: "writeBlockAndSetHead pow_crypto True None False bc2 fork_c3 = Some (CanonStatTy, None, bc3)"
      "fork_state ((fork_c3, 6) # (fork_c2, 4) # (fork_b3, 5) # fork_db) fork_c3 bc3" using fork_import_branch by blast
  have r: "CurrentBlock bc0 = fork_a4" "CurrentBlock bc1 = fork_b3" "CurrentBlock bc2 = fork_b3" "CurrentBlock bc3 = fork_c3"
    "chain_reachable pow_crypto fork_cfg 2 fork_g bc0" "chain_reachable pow_crypto fork_cfg 2 fork_g bc1"
    "chain_reachable pow_crypto fork_cfg 2 fork_g bc2" "chain_reachable pow_crypto fork_cfg 2 fork_g bc3"
    using bc0 bc1(1) bc2(2) bc3(2) by (auto simp: fork_state_def)
  have can: "canonical bc0 2 = Some (bhash pow_crypto fork_a2)" "canonical bc3 2 = Some (bhash pow_crypto fork_c2)"
    using fork_canonical_2 [OF bc0] fork_canonical_2 [OF bc3(2)]
    by (simp_all add: fork_look_def fork_db_def)
  have "FinalizedNumber fork_posa (Some (bHeader fork_a4)) 2 = Some 2"
    by (simp add: FinalizedNumber_def fork_posa_def seal_posa_def posa_IsPosa_def below_def number_of_def)
  then show ?thesis using r can bc1(2) bc2(1) bc3(1)
    by (intro exI [of _ bc0] exI [of _ bc1] exI [of _ bc2] exI [of _ bc3]) simp
qed

end
