(* ===== verification/Go_Text.thy ===== *)
theory Go_Text
  imports Ferminux_Prelude
begin

text \<open>
  The text functions of the Go library that the validator's record file is written and read with:
  decimal and hexadecimal numbers, fields, lines and the CRC-32C checksum, and the hexadecimal
  helpers of \<open>common\<close>. A Go string is a list of bytes, modelled by \<open>char\<close>. Every printer is shown to be
  read back by its parser.
\<close>

section \<open>Numbers\<close>

definition digit_val :: "char \<Rightarrow> nat option" where
  "digit_val c =
    (let n = of_char c :: nat in
     if 48 \<le> n \<and> n \<le> 57 then Some (n - 48)
     else if 97 \<le> n \<and> n \<le> 122 then Some (n - 87)
     else if 65 \<le> n \<and> n \<le> 90 then Some (n - 55)
     else None)"

fun parse_digits :: "nat \<Rightarrow> nat \<Rightarrow> nat \<Rightarrow> string \<Rightarrow> nat option" where
  "parse_digits base limit n [] = Some n"
| "parse_digits base limit n (c # cs) =
    (case digit_val c of None \<Rightarrow> None
     | Some d \<Rightarrow> if base \<le> d then None
                 else if limit \<le> n * base + d then None
                 else parse_digits base limit (n * base + d) cs)"

text \<open>\<open>strconv.ParseUint\<close> and \<open>strconv.ParseInt\<close> for a given base; every error is \<open>None\<close>.\<close>

definition ParseUint :: "nat \<Rightarrow> nat \<Rightarrow> string \<Rightarrow> nat option" where
  "ParseUint base bits s = (if s = [] then None else parse_digits base (2 ^ bits) 0 s)"

definition ParseInt64 :: "string \<Rightarrow> int option" where
  "ParseInt64 s =
    (let neg = (s \<noteq> [] \<and> hd s = CHR ''-'');
         t = (if s \<noteq> [] \<and> (hd s = CHR ''-'' \<or> hd s = CHR ''+'') then tl s else s)
     in case ParseUint 10 64 t of None \<Rightarrow> None
        | Some un \<Rightarrow>
          if \<not> neg \<and> 2 ^ 63 \<le> un then None
          else if neg \<and> 2 ^ 63 < un then None
          else Some (if neg then - int un else int un))"

fun dec :: "nat \<Rightarrow> string" where
  "dec n = (if n < 10 then [char_of (48 + n)] else dec (n div 10) @ [char_of (48 + n mod 10)])"

declare dec.simps [simp del]

definition dec_int :: "int \<Rightarrow> string" where
  "dec_int i = (if i < 0 then CHR ''-'' # dec (nat (- i)) else dec (nat i))"

section \<open>Hexadecimal\<close>

definition nibble :: "nat \<Rightarrow> char" where
  "nibble d = char_of (if d < 10 then 48 + d else 87 + d)"

definition hex_encode :: "bytes \<Rightarrow> string" where
  "hex_encode bs = concat (map (\<lambda>b. [nibble (unat b div 16), nibble (unat b mod 16)]) bs)"

definition hex_val :: "char \<Rightarrow> nat option" where
  "hex_val c = (case digit_val c of None \<Rightarrow> None | Some d \<Rightarrow> if d < 16 then Some d else None)"

text \<open>\<open>hex.DecodeString\<close>: the bytes before the first error, and whether there was none.\<close>

fun DecodeString :: "string \<Rightarrow> bytes \<times> bool" where
  "DecodeString [] = ([], True)"
| "DecodeString [c] = ([], False)"
| "DecodeString (a # b # s) =
    (case (hex_val a, hex_val b) of
       (Some x, Some y) \<Rightarrow> (let (bs, ok) = DecodeString s in (word_of_nat (x * 16 + y) # bs, ok))
     | _ \<Rightarrow> ([], False))"

definition has0xPrefix :: "string \<Rightarrow> bool" where
  "has0xPrefix s \<longleftrightarrow> 2 \<le> length s \<and> s ! 0 = CHR ''0'' \<and> (s ! 1 = CHR ''x'' \<or> s ! 1 = CHR ''X'')"

definition isHex :: "string \<Rightarrow> bool" where
  "isHex s \<longleftrightarrow> length s mod 2 = 0 \<and> list_all (\<lambda>c. hex_val c \<noteq> None) s"

definition FromHex :: "string \<Rightarrow> bytes" where
  "FromHex s =
    (let s = (if has0xPrefix s then drop 2 s else s);
         s = (if length s mod 2 = 1 then CHR ''0'' # s else s)
     in fst (DecodeString s))"

definition IsHexAddress :: "string \<Rightarrow> bool" where
  "IsHexAddress s = (let s = (if has0xPrefix s then drop 2 s else s) in length s = 40 \<and> isHex s)"

definition BytesToAddress :: "bytes \<Rightarrow> address" where
  "BytesToAddress b = bytes_address (if 20 < length b then drop (length b - 20) b else b)"

definition HexToAddress :: "string \<Rightarrow> address" where
  "HexToAddress s = BytesToAddress (FromHex s)"

definition hexutil_Encode :: "bytes \<Rightarrow> string" where
  "hexutil_Encode b = ''0x'' @ hex_encode b"

section \<open>Fields and lines\<close>

text \<open>
  The length of the white space a string starts with, zero if it starts with none: the ASCII spaces
  and the UTF-8 encodings of the others. Their first bytes do not occur inside an encoded
  character, so a string can be scanned byte by byte.
\<close>

definition space_len :: "string \<Rightarrow> nat" where
  "space_len s =
    (case map of_char (take 3 s) :: nat list of
       c # r \<Rightarrow>
         if (9 \<le> c \<and> c \<le> 13) \<or> c = 32 then 1
         else if c = 0xC2 \<and> (take 1 r = [0x85] \<or> take 1 r = [0xA0]) then 2
         else if c = 0xE1 \<and> r = [0x9A, 0x80] then 3
         else if c = 0xE2 \<and> (\<exists>x \<in> set ([0x80..<0x8B] @ [0xA8, 0xA9, 0xAF]). r = [0x80, x]) then 3
         else if c = 0xE2 \<and> r = [0x81, 0x9F] then 3
         else if c = 0xE3 \<and> r = [0x80, 0x80] then 3
         else 0
     | [] \<Rightarrow> 0)"

function Fields_loop :: "string \<Rightarrow> string \<Rightarrow> string list" where
  "Fields_loop acc [] = (if acc = [] then [] else [acc])"
| "Fields_loop acc (c # cs) =
    (if space_len (c # cs) = 0 then Fields_loop (acc @ [c]) cs
     else (if acc = [] then [] else [acc]) @ Fields_loop [] (drop (space_len (c # cs)) (c # cs)))"
  by pat_completeness auto
termination
  by (relation "measure (\<lambda>(acc, s). length s)") auto

definition Fields :: "string \<Rightarrow> string list" where
  "Fields s = Fields_loop [] s"

fun Join :: "string list \<Rightarrow> string" where
  "Join [] = []"
| "Join [f] = f"
| "Join (f # fs) = f @ '' '' @ Join fs"

text \<open>\<open>strings.TrimRight(s, "\r\n")\<close> and \<open>strings.TrimSpace\<close>.\<close>

definition newline :: char where "newline = char_of (10 :: nat)"

definition TrimRight_crlf :: "string \<Rightarrow> string" where
  "TrimRight_crlf s = rev (dropWhile (\<lambda>c. c = newline \<or> c = char_of (13 :: nat)) (rev s))"

function trim_left_space :: "string \<Rightarrow> string" where
  "trim_left_space s = (if space_len s = 0 then s else trim_left_space (drop (space_len s) s))"
  by pat_completeness auto
termination
proof (relation "measure length")
  fix s :: string
  assume "space_len s \<noteq> 0"
  moreover from this have "s \<noteq> []" by (auto simp: space_len_def)
  ultimately show "(drop (space_len s) s, s) \<in> measure length" by simp
qed simp

function trim_right_space :: "string \<Rightarrow> string" where
  "trim_right_space s =
    (case find (\<lambda>k. k \<le> length s \<and> space_len (drop (length s - k) s) = k) [1, 2, 3] of
       None \<Rightarrow> s | Some k \<Rightarrow> trim_right_space (take (length s - k) s))"
  by pat_completeness auto
termination
  by (relation "measure length") (auto split: if_splits)

definition TrimSpace :: "string \<Rightarrow> string" where
  "TrimSpace s = trim_right_space (trim_left_space s)"

text \<open>\<open>bytes.SplitAfter(data, "\n")\<close> without the empty last piece.\<close>

fun split_lines :: "string \<Rightarrow> string \<Rightarrow> string list" where
  "split_lines acc [] = (if acc = [] then [] else [acc])"
| "split_lines acc (c # cs) =
    (if c = newline then (acc @ [c]) # split_lines [] cs else split_lines (acc @ [c]) cs)"

section \<open>CRC-32C\<close>

unbundle bit_operations_syntax

fun crc_bits :: "nat \<Rightarrow> 32 word \<Rightarrow> 32 word" where
  "crc_bits 0 c = c"
| "crc_bits (Suc k) c = crc_bits k (if bit c 0 then drop_bit 1 c XOR 0x82F63B78 else drop_bit 1 c)"

definition crc_update :: "32 word \<Rightarrow> char \<Rightarrow> 32 word" where
  "crc_update c x = crc_bits 8 (c XOR word_of_nat (of_char x))"

definition crc32c :: "string \<Rightarrow> 32 word" where
  "crc32c s = NOT (foldl crc_update (NOT 0) s)"

section \<open>Printers are read back\<close>

text \<open>The characters that records are printed with: ASCII, and not white space.\<close>

definition graphic :: "char \<Rightarrow> bool" where
  "graphic c \<longleftrightarrow> 33 \<le> (of_char c :: nat) \<and> (of_char c :: nat) \<le> 126"

lemma of_char_small: "n < 256 \<Longrightarrow> (of_char (char_of n) :: nat) = n"
  by simp

lemma digit_val_dec: "d < 10 \<Longrightarrow> digit_val (char_of (48 + d)) = Some d"
  by (simp add: digit_val_def)

lemma parse_digits_snoc:
  "parse_digits base limit n (cs @ [c]) =
    (case parse_digits base limit n cs of None \<Rightarrow> None
     | Some m \<Rightarrow> parse_digits base limit m [c])"
  by (induction cs arbitrary: n) (auto split: option.split)

lemma dec_not_Nil [simp]: "dec n \<noteq> []"
  by (subst dec.simps) simp

lemma parse_digits_dec: "n < limit \<Longrightarrow> parse_digits 10 limit 0 (dec n) = Some n"
proof (induction n rule: less_induct)
  case (less n)
  show ?case
  proof (cases "n < 10")
    case True
    then show ?thesis using less.prems by (subst dec.simps) (simp add: digit_val_dec)
  next
    case False
    then have "parse_digits 10 limit 0 (dec (n div 10)) = Some (n div 10)" using less by simp
    then show ?thesis using False less.prems by (subst dec.simps) (simp add: parse_digits_snoc digit_val_dec)
  qed
qed

lemma ParseUint_dec [simp]: "n < 2 ^ bits \<Longrightarrow> ParseUint 10 bits (dec n) = Some n"
  by (simp add: ParseUint_def parse_digits_dec)

lemma graphic_dec: "c \<in> set (dec n) \<Longrightarrow> graphic c \<and> c \<noteq> CHR ''-'' \<and> c \<noteq> CHR ''+''"
proof (induction n rule: less_induct)
  case (less n)
  have d: "graphic (char_of (48 + d)) \<and> char_of (48 + d) \<noteq> CHR ''-'' \<and> char_of (48 + d) \<noteq> CHR ''+''" if "d < 10" for d :: nat
    using that arg_cong [of "char_of (48 + d)" _ "of_char :: char \<Rightarrow> nat"] by (auto simp: graphic_def dest: arg_cong [of _ _ "of_char :: char \<Rightarrow> nat"])
  show ?case
  proof (cases "n < 10")
    case True
    then show ?thesis using less.prems d [of n] by (subst (asm) dec.simps) auto
  next
    case False
    have "c \<in> set (dec (n div 10)) \<or> c = char_of (48 + n mod 10)" using less.prems False by (subst (asm) dec.simps) auto
    then show ?thesis using less.IH [of "n div 10"] False d [of "n mod 10"] by auto
  qed
qed

lemma ParseInt64_dec_int:
  assumes "- (2 ^ 63) \<le> i" and "i < 2 ^ 63"
  shows "ParseInt64 (dec_int i) = Some i"
proof (cases "i < 0")
  case True
  then have "nat (- i) < 2 ^ 64" "\<not> 2 ^ 63 < nat (- i)" using assms(1) by (simp_all add: nat_less_iff zless_nat_eq_int_zless)
  then show ?thesis using True by (simp add: ParseInt64_def dec_int_def)
next
  case False
  then have "nat i < 2 ^ 64" "\<not> 2 ^ 63 \<le> nat i" using assms(2) by (simp_all add: nat_less_iff nat_le_iff le_nat_iff)
  moreover have "hd (dec (nat i)) \<noteq> CHR ''-''" "hd (dec (nat i)) \<noteq> CHR ''+''"
    using graphic_dec [of "hd (dec (nat i))" "nat i"] by simp_all
  ultimately show ?thesis using False by (simp add: ParseInt64_def dec_int_def)
qed

lemma graphic_dec_int: "c \<in> set (dec_int i) \<Longrightarrow> graphic c"
  using graphic_dec by (auto simp: dec_int_def graphic_def split: if_splits)

lemma dec_int_not_Nil [simp]: "dec_int i \<noteq> []"
  by (simp add: dec_int_def)

lemma digit_val_nibble: "d < 16 \<Longrightarrow> digit_val (nibble d) = Some d"
  by (auto simp: nibble_def digit_val_def Let_def)

lemma hex_val_nibble: "d < 16 \<Longrightarrow> hex_val (nibble d) = Some d"
  by (simp add: hex_val_def digit_val_nibble)

lemma graphic_nibble: "d < 16 \<Longrightarrow> graphic (nibble d)"
  by (auto simp: nibble_def graphic_def)

lemma unat_u8_nibbles: "unat (b :: u8) div 16 < 16" "unat b mod 16 < 16"
  using unat_u8_less [of b] by simp_all

lemma hex_encode_Cons: "hex_encode (b # bs) = nibble (unat b div 16) # nibble (unat b mod 16) # hex_encode bs"
  by (simp add: hex_encode_def)

lemma hex_encode_Nil [simp]: "hex_encode [] = []"
  by (simp add: hex_encode_def)

lemma DecodeString_hex_encode [simp]: "DecodeString (hex_encode bs) = (bs, True)"
  by (induction bs) (simp_all add: hex_encode_Cons hex_val_nibble unat_u8_nibbles)

lemma length_hex_encode [simp]: "length (hex_encode bs) = 2 * length bs"
  by (induction bs) (simp_all add: hex_encode_Cons)

lemma graphic_hex_encode: "c \<in> set (hex_encode bs) \<Longrightarrow> graphic c \<and> hex_val c \<noteq> None"
  by (induction bs) (auto simp: hex_encode_Cons graphic_nibble hex_val_nibble unat_u8_nibbles)

lemma isHex_hex_encode: "isHex (hex_encode bs)"
  using graphic_hex_encode by (auto simp: isHex_def list_all_iff)

lemma hexutil_Encode_prefix [simp]: "has0xPrefix (hexutil_Encode bs)" "drop 2 (hexutil_Encode bs) = hex_encode bs"
  by (simp_all add: has0xPrefix_def hexutil_Encode_def)

lemma graphic_hexutil_Encode: "c \<in> set (hexutil_Encode bs) \<Longrightarrow> graphic c"
  using graphic_hex_encode by (auto simp: hexutil_Encode_def graphic_def)

lemma IsHexAddress_Encode: "length bs = 20 \<Longrightarrow> IsHexAddress (hexutil_Encode bs)"
  by (simp add: IsHexAddress_def isHex_hex_encode)

lemma HexToAddress_Encode: "HexToAddress (hexutil_Encode (address_bytes a)) = a"
  by (simp add: HexToAddress_def FromHex_def BytesToAddress_def)

lemma parse_digits_hex:
  assumes "a * 256 ^ length bs + be_nat bs < limit"
  shows "parse_digits 16 limit a (hex_encode bs) = Some (a * 256 ^ length bs + be_nat bs)"
  using assms
proof (induction bs arbitrary: a)
  case (Cons b bs)
  have eq: "(a * 16 + unat b div 16) * 16 + unat b mod 16 = a * 256 + unat b" by simp
  have "(a * 256 + unat b) * 256 ^ length bs + be_nat bs < limit"
    using Cons.prems by (simp add: be_nat_Cons algebra_simps)
  note l = this
  have "a * 256 + unat b \<le> (a * 256 + unat b) * 256 ^ length bs" by simp
  with l have l1: "a * 256 + unat b < limit" by linarith
  have "unat b div 16 \<le> unat b" by simp
  with l1 have l2: "a * 16 + unat b div 16 < limit" by linarith
  have "parse_digits 16 limit a (hex_encode (b # bs)) = parse_digits 16 limit (a * 256 + unat b) (hex_encode bs)"
    using l1 l2 unfolding eq [symmetric] using unat_u8_nibbles [of b] by (simp add: hex_encode_Cons digit_val_nibble not_le [symmetric])
  then show ?case using Cons.IH [OF l] by (simp add: be_nat_Cons algebra_simps)
qed simp

lemma ParseUint_hex: "bs \<noteq> [] \<Longrightarrow> be_nat bs < 2 ^ bits \<Longrightarrow> ParseUint 16 bits (hex_encode bs) = Some (be_nat bs)"
  using parse_digits_hex [of 0 bs "2 ^ bits"] by (cases bs) (auto simp: ParseUint_def hex_encode_Cons)
lemma space_len_graphic: "graphic c \<Longrightarrow> space_len (c # s) = 0"
  by (auto simp: space_len_def graphic_def)

lemma space_len_blank: "space_len (CHR '' '' # s) = 1"
  by (simp add: space_len_def)

lemma Fields_loop_field:
  "(\<And>c. c \<in> set f \<Longrightarrow> graphic c) \<Longrightarrow> Fields_loop acc (f @ s) = Fields_loop (acc @ f) s"
  by (induction f arbitrary: acc) (simp_all add: space_len_graphic)

lemma Fields_Join:
  assumes "\<And>f c. f \<in> set fs \<Longrightarrow> c \<in> set f \<Longrightarrow> graphic c" and "[] \<notin> set fs"
  shows "Fields (Join fs) = fs"
proof -
  have "Fields_loop [] (Join fs) = fs" using assms
  proof (induction fs rule: Join.induct)
    case (2 f)
    then show ?case using Fields_loop_field [of f "[]" "[]"] by simp
  next
    case (3 f g fs)
    have "graphic c" if "c \<in> set f" for c using "3.prems"(1) [of f] that by simp
    from Fields_loop_field [of f "[]" "'' '' @ Join (g # fs)", OF this]
    have "Fields_loop [] (f @ '' '' @ Join (g # fs)) = Fields_loop f ('' '' @ Join (g # fs))" by (simp only: append_Nil)
    also have "\<dots> = f # Fields_loop [] (Join (g # fs))" using "3.prems"(2) by (auto simp: space_len_blank)
    finally show ?case using 3 by auto
  qed simp
  then show ?thesis by (simp add: Fields_def)
qed

lemma Join_snoc: "fs \<noteq> [] \<Longrightarrow> Join (fs @ [f]) = Join fs @ '' '' @ f"
  by (induction fs rule: Join.induct) simp_all

lemma set_Join: "set (Join fs) \<subseteq> insert (CHR '' '') (\<Union> (set ` set fs))"
  by (induction fs rule: Join.induct) auto

lemma graphic_not_newline: "graphic c \<Longrightarrow> c \<noteq> newline \<and> c \<noteq> char_of (13 :: nat)"
  by (auto simp: graphic_def newline_def)

lemma TrimRight_crlf_line:
  assumes "s \<noteq> []" and "graphic (last s)"
  shows "TrimRight_crlf (s @ [newline]) = s"
  using assms graphic_not_newline [of "last s"] by (cases s rule: rev_cases) (auto simp: TrimRight_crlf_def)

text \<open>Text that ends with a newline splits on its own; a line without an inner newline is one piece.\<close>

lemma split_lines_append:
  assumes "s = [] \<or> last s = newline" and "s = [] \<Longrightarrow> acc = []"
  shows "split_lines acc (s @ t) = split_lines acc s @ split_lines [] t"
  using assms
proof (induction s arbitrary: acc)
  case (Cons c s)
  then show ?case by (cases "c = newline"; cases "s = []") auto
qed simp

lemma split_lines_piece:
  assumes "newline \<notin> set p"
  shows "split_lines acc (p @ [newline]) = [acc @ p @ [newline]]"
    and "split_lines acc p = (if acc @ p = [] then [] else [acc @ p])"
  using assms by (induction p arbitrary: acc) auto

lemma concat_split_lines: "concat (split_lines acc s) = acc @ s"
  by (induction s arbitrary: acc) auto

lemma split_lines_complete:
  assumes "l \<in> set (split_lines acc s)" and "s = [] \<or> last s = newline" and "s = [] \<Longrightarrow> acc = []"
  shows "l \<noteq> [] \<and> last l = newline"
  using assms
proof (induction s arbitrary: acc)
  case (Cons c s)
  then show ?case by (cases "c = newline"; cases "s = []") auto
qed simp

end
