(* ===== verification/Protect_DB.thy ===== *)
theory Protect_DB
  imports Go_Text
begin

text \<open>
  The slashing-protection database of the validator (\<open>validator/internal/protect/protect.go\<close>): the
  record file with its checksummed lines, the database in memory, and every operation that reads
  or writes them, with the I/O errors each call may meet as arguments.

  \<open>Protect_Log\<close> shows that the file is a log of entries that every operation extends, and \<open>Protect_Life\<close> what
  that gives across restarts and crashes.
\<close>

section \<open>Records\<close>

record Scope =
  scChainID :: u64
  scHub :: address
  scAttester :: address

type_synonym key = "Scope \<times> u64"

record Record =
  rScope :: Scope
  rHeight :: u64
  rBlockHash :: hash
  rTime :: u64

record ExportRecord =
  eChainID :: u64
  eHub :: address
  eAttester :: address
  eHeight :: u64
  eBlockHash :: hash
  eWatermark :: bool
  eTime :: u64

text \<open>
  \<open>rTime\<close> and \<open>eTime\<close> are Go \<open>int64\<close> values, read with \<open>sint\<close>. \<open>DB\<close> holds the maps of the open database,
  the cut bytes that are still to be handled, whether a failed write could not be undone, and
  whether the file is open.
\<close>

record DB =
  records :: "(key \<times> Record) list"
  watermarks :: "(Scope \<times> u64) list"
  repaired :: int
  broken :: bool
  isOpen :: bool

record Disk =
  dFile :: "string option"
  dMarker :: "string option"

datatype protect_error =
    ErrConflict | ErrBelowWatermark | ErrCorrupt | ErrZeroHash | ErrNoHash | ErrClosed | ErrBroken | ErrIO | ErrLocked

datatype line_error = BadLine | Contradiction

definition wm_of :: "DB \<Rightarrow> Scope \<Rightarrow> u64" where
  "wm_of db sc = (case map_of (watermarks db) sc of None \<Rightarrow> 0 | Some h \<Rightarrow> h)"

section \<open>Lines\<close>

text \<open>\<open>lower\<close> prints the checksummed address in lower case, which is its plain hexadecimal form.\<close>

definition lower :: "address \<Rightarrow> string" where
  "lower a = hexutil_Encode (address_bytes a)"

definition line :: "string \<Rightarrow> string" where
  "line body = body @ '' '' @ hex_encode (be_bytes 4 (unat (crc32c body))) @ [newline]"

definition record_body :: "Scope \<Rightarrow> u64 \<Rightarrow> hash \<Rightarrow> u64 \<Rightarrow> string" where
  "record_body sc height h ts =
    Join [''A1'', dec (unat (scChainID sc)), lower (scHub sc), lower (scAttester sc), dec (unat height),
      hexutil_Encode (hash_bytes h), dec_int (sint ts)]"

definition watermark_body :: "Scope \<Rightarrow> u64 \<Rightarrow> u64 \<Rightarrow> string" where
  "watermark_body sc height ts =
    Join [''W1'', dec (unat (scChainID sc)), lower (scHub sc), lower (scAttester sc), dec (unat height), dec_int (sint ts)]"

definition parseScope :: "string \<Rightarrow> string \<Rightarrow> string \<Rightarrow> Scope option" where
  "parseScope chain hub att =
    (case ParseUint 10 64 chain of None \<Rightarrow> None
     | Some c \<Rightarrow>
       if \<not> IsHexAddress hub \<or> \<not> IsHexAddress att then None
       else Some \<lparr>scChainID = word_of_nat c, scHub = HexToAddress hub, scAttester = HexToAddress att\<rparr>)"

definition parseHash :: "string \<Rightarrow> hash option" where
  "parseHash s =
    (if length s \<noteq> 66 \<or> take 2 s \<noteq> ''0x'' then None
     else (let (b, ok) = DecodeString (drop 2 s) in if ok then Some (bytes_hash b) else None))"

definition apply_record :: "DB \<Rightarrow> string list \<Rightarrow> line_error + DB" where
  "apply_record db fs =
    (if length fs \<noteq> 7 then Inl BadLine
     else (case (parseScope (fs ! 1) (fs ! 2) (fs ! 3), ParseUint 10 64 (fs ! 4), parseHash (fs ! 5),
                 ParseInt64 (fs ! 6)) of
             (Some sc, Some h, Some hash, Some ts) \<Rightarrow>
               (let k = (sc, word_of_nat h) in
                if (case map_of (records db) k of None \<Rightarrow> False | Some prev \<Rightarrow> rBlockHash prev \<noteq> hash)
                then Inl Contradiction
                else Inr (db\<lparr>records := map_put k
                       \<lparr>rScope = sc, rHeight = word_of_nat h, rBlockHash = hash, rTime = word_of_int ts\<rparr> (records db)\<rparr>))
           | _ \<Rightarrow> Inl BadLine))"

definition apply_watermark :: "DB \<Rightarrow> string list \<Rightarrow> line_error + DB" where
  "apply_watermark db fs =
    (if length fs \<noteq> 6 then Inl BadLine
     else (case (parseScope (fs ! 1) (fs ! 2) (fs ! 3), ParseUint 10 64 (fs ! 4)) of
             (Some sc, Some h) \<Rightarrow>
               Inr (if word_of_nat h > wm_of db sc then db\<lparr>watermarks := map_put sc (word_of_nat h) (watermarks db)\<rparr> else db)
           | _ \<Rightarrow> Inl BadLine))"

definition apply_line :: "DB \<Rightarrow> string \<Rightarrow> line_error + DB" where
  "apply_line db text =
    (let fs = Fields text in
     if length fs < 2 then Inl BadLine
     else
       (let body = Join (butlast fs) in
        case ParseUint 16 32 (last fs) of None \<Rightarrow> Inl BadLine
        | Some want \<Rightarrow>
          if unat (crc32c body) \<noteq> want then Inl BadLine
          else if hd fs = ''A1'' then apply_record db (butlast fs)
          else if hd fs = ''W1'' then apply_watermark db (butlast fs)
          else Inl BadLine))"

section \<open>Opening\<close>

datatype load_result = Whole DB | Torn DB nat | Damaged

fun load_lines :: "DB \<Rightarrow> string list \<Rightarrow> nat \<Rightarrow> load_result" where
  "load_lines db [] good = Whole db"
| "load_lines db (raw # rest) good =
    (let text = TrimRight_crlf raw in
     case (if last raw \<noteq> newline then Inl BadLine
           else if text = [] then Inr db
           else apply_line db text) of
       Inr db \<Rightarrow> load_lines db rest (good + length raw)
     | Inl e \<Rightarrow> if rest = [] \<and> e \<noteq> Contradiction then Torn db good else Damaged)"

record load_io =
  marker_readable :: bool
  openable :: bool
  readable :: bool
  marker_written :: bool
  marker_left :: "string option"
  truncated :: bool
  synced :: bool
  seeked :: bool

definition empty_DB :: DB where
  "empty_DB = \<lparr>records = [], watermarks = [], repaired = 0, broken = False, isOpen = True\<rparr>"

definition marker_value :: "string \<Rightarrow> int" where
  "marker_value b = (case ParseInt64 (TrimSpace b) of None \<Rightarrow> 1 | Some n \<Rightarrow> if n \<le> 0 then 1 else n)"

definition repair_tail :: "load_io \<Rightarrow> Disk \<Rightarrow> DB \<Rightarrow> string \<Rightarrow> nat \<Rightarrow> (protect_error + DB) \<times> Disk" where
  "repair_tail io disk db data good =
    (let n = repaired db + int (length data - good) in
     if \<not> marker_written io then (Inl ErrIO, disk\<lparr>dMarker := marker_left io\<rparr>)
     else
       (let disk = disk\<lparr>dMarker := Some (dec_int n @ [newline])\<rparr> in
        if \<not> truncated io then (Inl ErrIO, disk)
        else
          (let disk = disk\<lparr>dFile := Some (take good data)\<rparr> in
           if \<not> synced io \<or> \<not> seeked io then (Inl ErrIO, disk) else (Inr (db\<lparr>repaired := n\<rparr>), disk))))"

definition load :: "load_io \<Rightarrow> Disk \<Rightarrow> (protect_error + DB) \<times> Disk" where
  "load io disk =
    (if dMarker disk \<noteq> None \<and> \<not> marker_readable io then (Inl ErrIO, disk)
     else if \<not> openable io then (Inl ErrIO, disk)
     else
       (let db = empty_DB\<lparr>repaired := (case dMarker disk of None \<Rightarrow> 0 | Some b \<Rightarrow> marker_value b)\<rparr>;
            data = (case dFile disk of None \<Rightarrow> [] | Some s \<Rightarrow> s);
            disk = disk\<lparr>dFile := Some data\<rparr>
        in if \<not> readable io then (Inl ErrIO, disk)
           else (case load_lines db (split_lines [] data) 0 of
                   Damaged \<Rightarrow> (Inl ErrCorrupt, disk)
                 | Torn db good \<Rightarrow> repair_tail io disk db data good
                 | Whole db \<Rightarrow> if seeked io then (Inr db, disk) else (Inl ErrIO, disk))))"

definition Open :: "bool \<Rightarrow> load_io \<Rightarrow> Disk \<Rightarrow> (protect_error + DB) \<times> Disk" where
  "Open locked io disk = (if locked then (Inl ErrLocked, disk) else load io disk)"

section \<open>Writing\<close>

text \<open>What each call of an append may meet; \<open>wrote\<close> is the number of bytes that reached the file when writing fails.\<close>

record append_io =
  position_known :: bool
  write_ok :: bool
  wrote :: nat
  sync_ok :: bool
  truncate_ok :: bool
  seek_ok :: bool
  resync_ok :: bool

definition appendDurable :: "append_io \<Rightarrow> DB \<Rightarrow> Disk \<Rightarrow> string \<Rightarrow> protect_error option \<times> DB \<times> Disk" where
  "appendDurable io db disk l =
    (if \<not> isOpen db then (Some ErrClosed, db, disk)
     else if broken db then (Some ErrBroken, db, disk)
     else if \<not> position_known io then (Some ErrIO, db, disk)
     else
       (let file = the (dFile disk);
            written = disk\<lparr>dFile := Some (file @ (if write_ok io then l else take (wrote io) l))\<rparr>
        in if write_ok io \<and> sync_ok io then (None, db, written)
           else if \<not> truncate_ok io then (Some ErrIO, db\<lparr>broken := True\<rparr>, written)
           else if \<not> seek_ok io \<or> \<not> resync_ok io then (Some ErrIO, db\<lparr>broken := True\<rparr>, disk)
           else (Some ErrIO, db, disk)))"

definition Approve ::
  "u64 \<Rightarrow> append_io \<Rightarrow> DB \<Rightarrow> Disk \<Rightarrow> Scope \<Rightarrow> u64 \<Rightarrow> hash \<Rightarrow> (protect_error + bool) \<times> DB \<times> Disk" where
  "Approve now io db disk sc height h =
    (if h = 0 then (Inl ErrZeroHash, db, disk)
     else (case map_of (records db) (sc, height) of
             Some prev \<Rightarrow> if rBlockHash prev \<noteq> h then (Inl ErrConflict, db, disk) else (Inr False, db, disk)
           | None \<Rightarrow>
             if (case map_of (watermarks db) sc of None \<Rightarrow> False | Some wm \<Rightarrow> height \<le> wm)
             then (Inl ErrBelowWatermark, db, disk)
             else (case appendDurable io db disk (line (record_body sc height h now)) of
                     (Some e, db, disk) \<Rightarrow> (Inl e, db, disk)
                   | (None, db, disk) \<Rightarrow>
                     (Inr True, db\<lparr>records := map_put (sc, height)
                        \<lparr>rScope = sc, rHeight = height, rBlockHash = h, rTime = now\<rparr> (records db)\<rparr>, disk))))"

definition Lookup :: "DB \<Rightarrow> Scope \<Rightarrow> u64 \<Rightarrow> hash option" where
  "Lookup db sc height = map_option rBlockHash (map_of (records db) (sc, height))"

definition SetWatermark :: "u64 \<Rightarrow> append_io \<Rightarrow> DB \<Rightarrow> Disk \<Rightarrow> Scope \<Rightarrow> u64 \<Rightarrow> protect_error option \<times> DB \<times> Disk" where
  "SetWatermark now io db disk sc h =
    (if h \<le> wm_of db sc then (None, db, disk)
     else (case appendDurable io db disk (line (watermark_body sc h now)) of
             (Some e, db, disk) \<Rightarrow> (Some e, db, disk)
           | (None, db, disk) \<Rightarrow> (None, db\<lparr>watermarks := map_put sc h (watermarks db)\<rparr>, disk)))"

definition Records :: "DB \<Rightarrow> Scope \<Rightarrow> Record list" where
  "Records db sc = rev (sort_key rHeight (map snd (filter (\<lambda>(k, r). fst k = sc) (records db))))"

definition MaxHeight :: "DB \<Rightarrow> Scope \<Rightarrow> u64 option" where
  "MaxHeight db sc = foldl (\<lambda>m (k, r). if fst k = sc \<and> (case m of None \<Rightarrow> True | Some x \<Rightarrow> snd k > x) then Some (snd k) else m)
    None (records db)"

section \<open>Moving records between machines\<close>

definition export_record :: "Record \<Rightarrow> ExportRecord" where
  "export_record r =
    \<lparr>eChainID = scChainID (rScope r), eHub = scHub (rScope r), eAttester = scAttester (rScope r), eHeight = rHeight r,
     eBlockHash = rBlockHash r, eWatermark = False, eTime = rTime r\<rparr>"

definition export_watermark :: "Scope \<Rightarrow> u64 \<Rightarrow> ExportRecord" where
  "export_watermark sc h =
    \<lparr>eChainID = scChainID sc, eHub = scHub sc, eAttester = scAttester sc, eHeight = h,
     eBlockHash = 0, eWatermark = True, eTime = 0\<rparr>"

text \<open>The order of \<open>Export\<close>: by attester, height, and records before watermarks.\<close>

definition export_rank :: "ExportRecord \<Rightarrow> nat" where
  "export_rank e = (unat (eAttester e) * 2 ^ 64 + unat (eHeight e)) * 2 + (if eWatermark e then 1 else 0)"

definition Export :: "DB \<Rightarrow> ExportRecord list" where
  "Export db =
    sort_key export_rank (map (export_record \<circ> snd) (records db) @ map (\<lambda>(sc, h). export_watermark sc h) (watermarks db))"

definition export_scope :: "ExportRecord \<Rightarrow> Scope" where
  "export_scope r = \<lparr>scChainID = eChainID r, scHub = eHub r, scAttester = eAttester r\<rparr>"

fun import_check :: "DB \<Rightarrow> (key \<times> hash) list \<Rightarrow> ExportRecord list \<Rightarrow> protect_error option" where
  "import_check db seen [] = None"
| "import_check db seen (r # rs) =
    (if eWatermark r then import_check db seen rs
     else if eBlockHash r = 0 then Some ErrNoHash
     else
       (let k = (export_scope r, eHeight r) in
        if (case map_of (records db) k of None \<Rightarrow> False | Some prev \<Rightarrow> rBlockHash prev \<noteq> eBlockHash r) then Some ErrConflict
        else if (case map_of seen k of None \<Rightarrow> False | Some prev \<Rightarrow> prev \<noteq> eBlockHash r) then Some ErrConflict
        else import_check db (map_put k (eBlockHash r) seen) rs))"

definition zero_record :: Record where
  "zero_record = \<lparr>rScope = \<lparr>scChainID = 0, scHub = 0, scAttester = 0\<rparr>, rHeight = 0, rBlockHash = 0, rTime = 0\<rparr>"

text \<open>The second pass: the records to add, the watermarks to raise, and the database with a placeholder for each addition.\<close>

fun import_collect ::
  "u64 \<Rightarrow> DB \<Rightarrow> (key \<times> Record) list \<Rightarrow> (Scope \<times> u64) list \<Rightarrow> ExportRecord list \<Rightarrow> DB \<times> (key \<times> Record) list \<times> (Scope \<times> u64) list" where
  "import_collect now db adds wms [] = (db, adds, wms)"
| "import_collect now db adds wms (r # rs) =
    (let sc = export_scope r; k = (sc, eHeight r) in
     if eWatermark r then
       import_collect now db adds
         (if eHeight r > wm_of db sc \<and> eHeight r > (case map_of wms sc of None \<Rightarrow> 0 | Some h \<Rightarrow> h)
          then map_put sc (eHeight r) wms else wms) rs
     else if map_of (records db) k \<noteq> None then import_collect now db adds wms rs
     else
       (let ts = (if eTime r = 0 then now else eTime r) in
        import_collect now (db\<lparr>records := map_put k zero_record (records db)\<rparr>)
          (adds @ [(k, \<lparr>rScope = sc, rHeight = eHeight r, rBlockHash = eBlockHash r, rTime = ts\<rparr>)]) wms rs))"

text \<open>\<open>order\<close> is the order in which the map of new watermarks is iterated.\<close>

definition Import ::
  "u64 \<Rightarrow> ((Scope \<times> u64) list \<Rightarrow> (Scope \<times> u64) list) \<Rightarrow> append_io \<Rightarrow> DB \<Rightarrow> Disk \<Rightarrow> ExportRecord list \<Rightarrow>
   (protect_error + nat) \<times> DB \<times> Disk" where
  "Import now order io db disk rs =
    (case import_check db [] rs of Some e \<Rightarrow> (Inl e, db, disk)
     | None \<Rightarrow>
       (let (db, adds, wms) = import_collect now db [] [] rs;
            buf = concat (map (\<lambda>(k, r). line (record_body (rScope r) (rHeight r) (rBlockHash r) (rTime r))) adds) @
                  concat (map (\<lambda>(sc, h). line (watermark_body sc h now)) (order wms))
        in case (if buf = [] then (None, db, disk) else appendDurable io db disk buf) of
             (Some e, db, disk) \<Rightarrow> (Inl e, db\<lparr>records := foldl (\<lambda>m (k, r). map_del k m) (records db) adds\<rparr>, disk)
           | (None, db, disk) \<Rightarrow>
             (Inr (length adds),
              db\<lparr>records := foldl (\<lambda>m (k, r). map_put k r m) (records db) adds,
                 watermarks := foldl (\<lambda>m (sc, h). map_put sc h m) (watermarks db) wms\<rparr>, disk)))"

section \<open>Repair and closing\<close>

definition RepairHandled :: "bool \<Rightarrow> DB \<Rightarrow> Disk \<Rightarrow> protect_error option \<times> DB \<times> Disk" where
  "RepairHandled removed db disk =
    (if repaired db = 0 then (None, db, disk)
     else if \<not> isOpen db then (Some ErrClosed, db, disk)
     else if \<not> removed then (Some ErrIO, db, disk)
     else (None, db\<lparr>repaired := 0\<rparr>, disk\<lparr>dMarker := None\<rparr>))"

definition Close :: "DB \<Rightarrow> DB" where
  "Close db = db\<lparr>isOpen := False\<rparr>"

end
