(* ===== verification/Protect_Log.thy ===== *)
theory Protect_Log
  imports Protect_DB "HOL-Library.Multiset"
begin

text \<open>
  The file of the slashing-protection database as a log: each line is an entry, reading a log applies its
  entries in order, a fragment without a line end is cut, and every write of the database extends the log by
  entries that apply or, when a failed write cannot be undone, by some of them and a fragment.
\<close>

section \<open>The file as a log of entries\<close>

datatype entry = ARec Scope u64 hash u64 | WMark Scope u64 u64

fun entry_fields :: "entry \<Rightarrow> string list" where
  "entry_fields (ARec sc height h ts) =
    [''A1'', dec (unat (scChainID sc)), lower (scHub sc), lower (scAttester sc), dec (unat height), hexutil_Encode (hash_bytes h), dec_int (sint ts)]"
| "entry_fields (WMark sc height ts) =
    [''W1'', dec (unat (scChainID sc)), lower (scHub sc), lower (scAttester sc), dec (unat height), dec_int (sint ts)]"

definition entry_line :: "entry \<Rightarrow> string" where
  "entry_line e = line (Join (entry_fields e))"

fun entry_apply :: "DB \<Rightarrow> entry \<Rightarrow> line_error + DB" where
  "entry_apply db (ARec sc height h ts) =
    (if (case map_of (records db) (sc, height) of None \<Rightarrow> False | Some prev \<Rightarrow> rBlockHash prev \<noteq> h) then Inl Contradiction
     else Inr (db\<lparr>records := map_put (sc, height) \<lparr>rScope = sc, rHeight = height, rBlockHash = h, rTime = ts\<rparr> (records db)\<rparr>))"
| "entry_apply db (WMark sc height ts) =
    Inr (if height > wm_of db sc then db\<lparr>watermarks := map_put sc height (watermarks db)\<rparr> else db)"

lemma record_line: "line (record_body sc height h ts) = entry_line (ARec sc height h ts)"
  by (simp add: record_body_def entry_line_def)

lemma watermark_line: "line (watermark_body sc height ts) = entry_line (WMark sc height ts)"
  by (simp add: watermark_body_def entry_line_def)

lemma parseScope_printed:
  "parseScope (dec (unat (scChainID sc))) (lower (scHub sc)) (lower (scAttester sc)) = Some sc"
  using unat_u64_less [of "scChainID sc"]
  by (simp add: parseScope_def lower_def IsHexAddress_Encode HexToAddress_Encode)

lemma bytes_hash_bytes: "bytes_hash (hash_bytes h) = h"
  by (simp add: bytes_hash_def)

lemma parseHash_printed: "parseHash (hexutil_Encode (hash_bytes h)) = Some h"
  by (simp add: parseHash_def hexutil_Encode_def bytes_hash_bytes)

lemma ParseInt64_printed: "ParseInt64 (dec_int (sint (t :: u64))) = Some (sint t)"
  using sint_ge [of t] sint_lt [of t] by (intro ParseInt64_dec_int) simp_all

lemma crc_field:
  fixes c :: "32 word"
  shows "ParseUint 16 32 (hex_encode (be_bytes 4 (unat c))) = Some (unat c)"
    and "hex_encode (be_bytes 4 (unat c)) \<noteq> []" and "x \<in> set (hex_encode (be_bytes 4 (unat c))) \<Longrightarrow> graphic x"
proof -
  have "unat c < 2 ^ 32" using unsigned_less [of c] by simp
  then have n: "be_nat (be_bytes 4 (unat c)) = unat c" by (simp add: be_nat_be_bytes)
  have "length (be_bytes 4 (unat c)) = 4" by simp
  then have ne: "be_bytes 4 (unat c) \<noteq> []" by force
  show "ParseUint 16 32 (hex_encode (be_bytes 4 (unat c))) = Some (unat c)"
    using ParseUint_hex [OF ne, of 32] \<open>unat c < 2 ^ 32\<close> unfolding n by simp
  have "length (hex_encode (be_bytes 4 (unat c))) = 8" by simp
  then show "hex_encode (be_bytes 4 (unat c)) \<noteq> []" by force
  show "x \<in> set (hex_encode (be_bytes 4 (unat c))) \<Longrightarrow> graphic x" using graphic_hex_encode by blast
qed

lemma entry_fields_graphic:
  "f \<in> set (entry_fields e) \<Longrightarrow> c \<in> set f \<Longrightarrow> graphic c"
  "[] \<notin> set (entry_fields e)"
proof -
  have "graphic (CHR ''A'')" "graphic (CHR ''W'')" "graphic (CHR ''1'')" by (simp_all add: graphic_def)
  then show "f \<in> set (entry_fields e) \<Longrightarrow> c \<in> set f \<Longrightarrow> graphic c"
    using graphic_dec graphic_hexutil_Encode graphic_dec_int by (cases e) (auto simp: lower_def)
  show "[] \<notin> set (entry_fields e)"
    using dec_not_Nil [symmetric] dec_int_not_Nil [symmetric] by (cases e) (auto simp: lower_def hexutil_Encode_def)
qed

lemma entry_line_Join:
  "entry_line e = Join (entry_fields e @ [hex_encode (be_bytes 4 (unat (crc32c (Join (entry_fields e)))))]) @ [newline]"
proof -
  have "entry_fields e \<noteq> []" by (cases e) simp_all
  then show ?thesis by (simp add: entry_line_def line_def Join_snoc)
qed

lemma entry_line_shape:
  "\<exists>p. entry_line e = p @ [newline] \<and> newline \<notin> set p \<and> p \<noteq> [] \<and> graphic (last p) \<and>
    Fields p = entry_fields e @ [hex_encode (be_bytes 4 (unat (crc32c (Join (entry_fields e)))))]"
proof -
  let ?c = "hex_encode (be_bytes 4 (unat (crc32c (Join (entry_fields e)))))"
  let ?p = "Join (entry_fields e @ [?c])"
  have g: "graphic c" if "f \<in> set (entry_fields e @ [?c])" "c \<in> set f" for f c
    using that entry_fields_graphic(1) crc_field(3) by auto
  have n: "[] \<notin> set (entry_fields e @ [?c])" using entry_fields_graphic(2) crc_field(2) [symmetric] by auto
  have "entry_fields e \<noteq> []" by (cases e) simp_all
  then have p: "?p = Join (entry_fields e) @ '' '' @ ?c" by (rule Join_snoc)
  have "CHR '' '' \<noteq> newline" by (auto simp: newline_def dest: arg_cong [of _ _ "of_char :: char \<Rightarrow> nat"])
  moreover have "newline \<notin> set f" if "f \<in> set (entry_fields e @ [?c])" for f
    using g [OF that] graphic_not_newline by blast
  ultimately have "newline \<notin> insert (CHR '' '') (\<Union> (set ` set (entry_fields e @ [?c])))" by simp
  then have "newline \<notin> set ?p" using set_Join [of "entry_fields e @ [?c]"] by blast
  moreover have "graphic (last ?p)" using p crc_field(2) crc_field(3) [OF last_in_set] by (simp add: last_append)
  ultimately show ?thesis
    using Fields_Join [OF g n] p by (intro exI [of _ ?p]) (simp add: entry_line_Join)
qed

lemma apply_line_entry: "apply_line db (TrimRight_crlf (entry_line e)) = entry_apply db e"
proof -
  let ?fs = "entry_fields e" and ?c = "hex_encode (be_bytes 4 (unat (crc32c (Join (entry_fields e)))))"
  obtain p where p: "entry_line e = p @ [newline]" "p \<noteq> []" "graphic (last p)" "Fields p = ?fs @ [?c]"
    using entry_line_shape by blast
  have t: "TrimRight_crlf (entry_line e) = p" using p by (simp add: TrimRight_crlf_line)
  have "2 \<le> length (?fs @ [?c])" by (cases e) simp_all
  then have "apply_line db p = (if hd ?fs = ''A1'' then apply_record db ?fs else if hd ?fs = ''W1'' then apply_watermark db ?fs else Inl BadLine)"
    unfolding apply_line_def p(4) Let_def using crc_field(1) [of "crc32c (Join ?fs)"]
    by (cases e) (simp_all del: Join.simps)
  then show ?thesis
    unfolding t using unat_u64_less
    by (cases e) (simp_all add: apply_record_def apply_watermark_def parseScope_printed parseHash_printed ParseInt64_printed Let_def)
qed

section \<open>Reading a log\<close>

lemma split_entries: "split_lines [] (concat (map entry_line es) @ t) = map entry_line es @ split_lines [] t"
proof (induction es)
  case (Cons e es)
  obtain p where p: "entry_line e = p @ [newline]" "newline \<notin> set p" using entry_line_shape by blast
  have "split_lines [] (entry_line e @ u) = entry_line e # split_lines [] u" for u
    using split_lines_append [of "entry_line e" "[]" u] split_lines_piece(1) [OF p(2), of "[]"] p(1) by simp
  then show ?case using Cons by simp
qed simp

lemma load_entries:
  "run_res entry_apply db es = Inr db' \<Longrightarrow>
    load_lines db (map entry_line es @ rest) good = load_lines db' rest (good + length (concat (map entry_line es)))"
proof (induction es arbitrary: db good)
  case (Cons e es)
  then obtain m where m: "entry_apply db e = Inr m" "run_res entry_apply m es = Inr db'" by (auto split: sum.splits)
  obtain p where p: "entry_line e = p @ [newline]" "p \<noteq> []" "graphic (last p)" using entry_line_shape by blast
  have "TrimRight_crlf (entry_line e) = p" using p by (simp add: TrimRight_crlf_line)
  moreover have "apply_line db p = Inr m" using apply_line_entry [of db e] m(1) calculation by simp
  ultimately have "load_lines db (entry_line e # map entry_line es @ rest) good =
      load_lines m (map entry_line es @ rest) (good + length (entry_line e))"
    using p(1,2) by (simp add: Let_def)
  then show ?case using Cons.IH [OF m(2)] by (simp add: add.assoc)
qed simp

lemma load_log:
  assumes "run_res entry_apply db es = Inr db'" and "newline \<notin> set frag"
  shows "load_lines db (split_lines [] (concat (map entry_line es) @ frag)) 0 =
    (if frag = [] then Whole db' else Torn db' (length (concat (map entry_line es))))"
proof -
  have "split_lines [] frag = (if frag = [] then [] else [frag])" using split_lines_piece(2) [OF assms(2), of "[]"] by simp
  moreover have "last frag \<noteq> newline" if "frag \<noteq> []" using assms(2) that last_in_set by metis
  ultimately show ?thesis unfolding split_entries load_entries [OF assms(1)] by (simp add: Let_def)
qed

lemma take_entries:
  "\<exists>ns1 ns2 frag. ns = ns1 @ ns2 \<and> take k (concat (map entry_line ns)) = concat (map entry_line ns1) @ frag \<and> newline \<notin> set frag"
proof (induction ns arbitrary: k)
  case Nil
  show ?case by (intro exI [of _ "[]"]) simp
next
  case (Cons e ns)
  obtain p where p: "entry_line e = p @ [newline]" "newline \<notin> set p" using entry_line_shape by blast
  show ?case
  proof (cases "k < length (entry_line e)")
    case True
    then have "take k (concat (map entry_line (e # ns))) = take k p" using p(1) by simp
    moreover have "newline \<notin> set (take k p)" using p(2) by (meson in_set_takeD)
    ultimately show ?thesis by (intro exI [of _ "[]"] exI [of _ "e # ns"] exI [of _ "take k p"]) simp
  next
    case False
    obtain ns1 ns2 frag where i: "ns = ns1 @ ns2"
      "take (k - length (entry_line e)) (concat (map entry_line ns)) = concat (map entry_line ns1) @ frag" "newline \<notin> set frag"
      using Cons.IH by blast
    then show ?thesis using False by (intro exI [of _ "e # ns1"] exI [of _ ns2] exI [of _ frag]) simp
  qed
qed

section \<open>The maps of the database\<close>

definition same_maps :: "DB \<Rightarrow> DB \<Rightarrow> bool" where
  "same_maps a b \<longleftrightarrow> map_of (records a) = map_of (records b) \<and> map_of (watermarks a) = map_of (watermarks b)"

lemma same_maps_refl [simp]: "same_maps a a"
  by (simp add: same_maps_def)

lemma same_maps_sym: "same_maps a b \<Longrightarrow> same_maps b a"
  by (simp add: same_maps_def)

lemma same_maps_trans [trans]: "same_maps a b \<Longrightarrow> same_maps b c \<Longrightarrow> same_maps a c"
  by (simp add: same_maps_def)

lemma same_maps_fields [simp]:
  "same_maps (a\<lparr>repaired := n\<rparr>) b = same_maps a b" "same_maps a (b\<lparr>repaired := n\<rparr>) = same_maps a b"
  "same_maps (a\<lparr>broken := x\<rparr>) b = same_maps a b" "same_maps a (b\<lparr>broken := x\<rparr>) = same_maps a b"
  by (simp_all add: same_maps_def)

lemma entry_apply_same:
  assumes "same_maps a b" and "entry_apply a e = Inr a'"
  shows "\<exists>b'. entry_apply b e = Inr b' \<and> same_maps a' b'"
  using assms by (cases e) (auto simp: same_maps_def wm_of_def split: if_splits)

lemma run_entries_same:
  assumes "same_maps a b" and "run_res entry_apply a es = Inr a'"
  shows "\<exists>b'. run_res entry_apply b es = Inr b' \<and> same_maps a' b'"
  using assms
proof (induction es arbitrary: a b)
  case (Cons e es)
  then obtain m where m: "entry_apply a e = Inr m" "run_res entry_apply m es = Inr a'" by (auto split: sum.splits)
  obtain m' where "entry_apply b e = Inr m'" "same_maps m m'" using entry_apply_same [OF Cons.prems(1) m(1)] by blast
  then show ?case using Cons.IH [OF _ m(2)] by simp
qed simp

text \<open>A set of approvals is covered when each is found in the records; a database knows another when it finds all that the other finds.\<close>

definition covers :: "DB \<Rightarrow> (Scope \<times> u64 \<times> hash) set \<Rightarrow> bool" where
  "covers db A \<longleftrightarrow> (\<forall>(sc, height, h) \<in> A. Lookup db sc height = Some h)"

definition knows :: "DB \<Rightarrow> DB \<Rightarrow> bool" where
  "knows m db \<longleftrightarrow> (\<forall>sc height h. Lookup db sc height = Some h \<longrightarrow> Lookup m sc height = Some h)"

lemma covers_knows: "covers db A \<Longrightarrow> knows m db \<Longrightarrow> covers m A"
  by (auto simp: covers_def knows_def)

lemma knows_trans: "knows a b \<Longrightarrow> knows b c \<Longrightarrow> knows a c"
  by (auto simp: knows_def)

lemma knows_same: "same_maps m db \<Longrightarrow> knows m db"
  by (simp add: knows_def Lookup_def same_maps_def)

lemma knows_entry: "entry_apply db e = Inr db' \<Longrightarrow> knows db' db"
  by (cases e) (auto simp: knows_def Lookup_def split: if_splits option.splits)

lemma knows_entries: "run_res entry_apply db es = Inr db' \<Longrightarrow> knows db' db"
proof (induction es arbitrary: db)
  case (Cons e es)
  then obtain m where "entry_apply db e = Inr m" "run_res entry_apply m es = Inr db'" by (auto split: sum.splits)
  then show ?case using Cons.IH knows_entry knows_trans by blast
qed (simp add: knows_def)

section \<open>Every operation extends the log\<close>

text \<open>
  The disk holds a log: the lines of entries that apply in order, and a fragment without a line end.
  While the database is open and no write is left half done there is no fragment, and the maps in
  memory are those of the log; otherwise the log still has them.
\<close>

definition logs :: "Disk \<Rightarrow> entry list \<Rightarrow> string \<Rightarrow> DB \<Rightarrow> bool" where
  "logs disk es frag m \<longleftrightarrow>
    dFile disk = Some (concat (map entry_line es) @ frag) \<and> newline \<notin> set frag \<and> run_res entry_apply empty_DB es = Inr m"

definition open_ok :: "Disk \<Rightarrow> DB \<Rightarrow> bool" where
  "open_ok disk db \<longleftrightarrow>
    (\<exists>es frag m. logs disk es frag m \<and> knows m db \<and> (\<not> broken db \<longrightarrow> frag = [] \<and> same_maps m db))"

definition closed_ok :: "Disk \<Rightarrow> (Scope \<times> u64 \<times> hash) set \<Rightarrow> bool" where
  "closed_ok disk A \<longleftrightarrow> (if dFile disk = None then A = {} else \<exists>es frag m. logs disk es frag m \<and> covers m A)"

lemma open_closed: "open_ok disk db \<Longrightarrow> covers db A \<Longrightarrow> closed_ok disk A"
proof -
  assume "open_ok disk db" "covers db A"
  then obtain es frag m where m: "logs disk es frag m" "covers m A" using covers_knows unfolding open_ok_def by blast
  then have "dFile disk \<noteq> None" by (simp add: logs_def)
  with m show ?thesis unfolding closed_ok_def by auto
qed

lemma knows_fields [simp]: "knows m (db\<lparr>broken := b\<rparr>) = knows m db" "knows m (db\<lparr>repaired := n\<rparr>) = knows m db"
  by (simp_all add: knows_def Lookup_def)

lemma open_ok_broken: "open_ok disk db \<Longrightarrow> open_ok disk (db\<lparr>broken := True\<rparr>)"
  unfolding open_ok_def by (simp del: ex_simps) blast

text \<open>Appending entries that apply: all of them, or some and a fragment when the write cannot be undone.\<close>

lemma log_prefix:
  assumes "logs disk es [] m" and "run_res entry_apply m ns = Inr n"
  shows "\<exists>es' frag m'. logs (disk\<lparr>dFile := Some (concat (map entry_line es) @ take k (concat (map entry_line ns)))\<rparr>) es' frag m' \<and>
    knows m' m"
proof -
  obtain ns1 ns2 frag where p: "ns = ns1 @ ns2" "take k (concat (map entry_line ns)) = concat (map entry_line ns1) @ frag" "newline \<notin> set frag"
    using take_entries by blast
  obtain m1 where "run_res entry_apply m ns1 = Inr m1" using assms(2) p(1) by (auto simp: run_res_append split: sum.splits)
  then show ?thesis using assms(1) p(2,3) knows_entries
    by (intro exI [of _ "es @ ns1"] exI [of _ frag] exI [of _ m1]) (auto simp: logs_def run_res_append)
qed

lemma append_ok:
  assumes "appendDurable io db disk (concat (map entry_line ns)) = (None, db', disk')"
    and "open_ok disk db" and "run_res entry_apply db ns = Inr n" and "same_maps n db''" and "\<not> broken db''"
  shows "db' = db" and "open_ok disk' db''"
proof -
  have a: "\<not> broken db" "db' = db" "disk' = disk\<lparr>dFile := Some (the (dFile disk) @ concat (map entry_line ns))\<rparr>"
    using assms(1) by (auto simp: appendDurable_def Let_def split: if_splits)
  show "db' = db" by (rule a(2))
  obtain es m where lg: "logs disk es [] m" "same_maps m db" using assms(2) a(1) by (auto simp: open_ok_def)
  obtain n' where n': "run_res entry_apply m ns = Inr n'" "same_maps n n'"
    using run_entries_same [OF same_maps_sym [OF lg(2)] assms(3)] by blast
  have "logs disk' (es @ ns) [] n'" using lg(1) n'(1) a(3) by (simp add: logs_def run_res_append)
  moreover have s: "same_maps n' db''" using n'(2) assms(4) by (simp add: same_maps_def)
  ultimately show "open_ok disk' db''" using knows_same [OF s] unfolding open_ok_def by blast
qed

lemma append_failed:
  assumes "appendDurable io db disk (concat (map entry_line ns)) = (Some e, db', disk')"
    and "open_ok disk db" and "run_res entry_apply db ns = Inr n"
  shows "db' = db \<or> db' = db\<lparr>broken := True\<rparr>" and "open_ok disk' db'"
proof -
  consider "db' = db \<or> db' = db\<lparr>broken := True\<rparr>" "disk' = disk"
    | k where "\<not> broken db" "db' = db\<lparr>broken := True\<rparr>"
      "disk' = disk\<lparr>dFile := Some (the (dFile disk) @ take k (concat (map entry_line ns)))\<rparr>"
  proof (cases "isOpen db \<and> \<not> broken db \<and> position_known io \<and> \<not> truncate_ok io")
    case True
    then show ?thesis using assms(1) that(2) [of "length (concat (map entry_line ns))"] that(2) [of "wrote io"]
      by (cases "write_ok io"; cases "sync_ok io") (simp_all add: appendDurable_def Let_def)
  next
    case False
    then show ?thesis using assms(1) that(1) by (auto simp: appendDurable_def Let_def split: if_splits)
  qed
  then have "(db' = db \<or> db' = db\<lparr>broken := True\<rparr>) \<and> open_ok disk' db'"
  proof cases
    case 1
    then show ?thesis using assms(2) open_ok_broken by auto
  next
    case (2 k)
    then obtain es m where lg: "logs disk es [] m" "same_maps m db" using assms(2) by (auto simp: open_ok_def)
    obtain n' where n': "run_res entry_apply m ns = Inr n'" using run_entries_same [OF same_maps_sym [OF lg(2)] assms(3)] by blast
    have "the (dFile disk) = concat (map entry_line es)" using lg(1) by (simp add: logs_def)
    then obtain es' frag m' where l: "logs disk' es' frag m'" "knows m' m" using log_prefix [OF lg(1) n', of k] 2(3) by auto
    have "knows m' db'"
      using knows_trans [OF l(2) knows_same [OF lg(2)]] 2(2) by simp
    then show ?thesis unfolding open_ok_def using 2(2) l(1) by auto
  qed
  then show "db' = db \<or> db' = db\<lparr>broken := True\<rparr>" "open_ok disk' db'" by simp_all
qed

text \<open>One entry at a time: \<open>Approve\<close> and \<open>SetWatermark\<close>.\<close>

lemma Approve_keeps:
  assumes "Approve now io db disk sc height h = (r, db', disk')" and "open_ok disk db"
  shows "open_ok disk' db'" and "knows db' db" and "r = Inr b \<Longrightarrow> Lookup db' sc height = Some h" and "isOpen db' = isOpen db"
    and "same_maps db' db \<or> r = Inr True"
proof -
  have "open_ok disk' db' \<and> knows db' db \<and> (\<forall>b. r = Inr b \<longrightarrow> Lookup db' sc height = Some h) \<and> isOpen db' = isOpen db \<and>
    (same_maps db' db \<or> r = Inr True)"
  proof (cases "map_of (records db) (sc, height) = None \<and> h \<noteq> 0 \<and>
      \<not> (case map_of (watermarks db) sc of None \<Rightarrow> False | Some wm \<Rightarrow> height \<le> wm)")
    case True
    let ?rec = "\<lparr>rScope = sc, rHeight = height, rBlockHash = h, rTime = now\<rparr>"
    let ?db = "db\<lparr>records := map_put (sc, height) ?rec (records db)\<rparr>"
    have run: "run_res entry_apply db [ARec sc height h now] = Inr ?db" using True by simp
    obtain e db1 disk1 where ap: "appendDurable io db disk (concat (map entry_line [ARec sc height h now])) = (e, db1, disk1)"
      by (metis prod_cases3)
    have knows: "knows ?db db" using True by (auto simp: knows_def Lookup_def)
    show ?thesis
    proof (cases e)
      case None
      then have nb: "\<not> broken db" using ap by (auto simp: appendDurable_def split: if_splits)
      have "r = Inr True" "db' = ?db" "disk' = disk1" "db1 = db"
        using assms(1) True ap None append_ok(1) [OF _ assms(2) run same_maps_refl] nb
        by (auto simp: Approve_def record_line split: prod.splits)
      then show ?thesis using append_ok(2) [OF ap [unfolded None] assms(2) run same_maps_refl] nb knows by (simp add: Lookup_def)
    next
      case (Some x)
      then have "r = Inl x" "db' = db1" "disk' = disk1"
        using assms(1) True ap by (auto simp: Approve_def record_line)
      then show ?thesis using append_failed [OF ap [unfolded Some] assms(2) run] by (auto simp: knows_def Lookup_def)
    qed
  next
    case False
    then have "db' = db" "disk' = disk" "\<And>b. r = Inr b \<Longrightarrow> Lookup db sc height = Some h"
      using assms(1) by (auto simp: Approve_def Lookup_def split: option.splits if_splits)
    then show ?thesis using assms(2) by (simp add: knows_def)
  qed
  then show "open_ok disk' db'" "knows db' db" "r = Inr b \<Longrightarrow> Lookup db' sc height = Some h" "isOpen db' = isOpen db"
    "same_maps db' db \<or> r = Inr True" by blast+
qed

lemma SetWatermark_keeps:
  assumes "SetWatermark now io db disk sc h = (r, db', disk')" and "open_ok disk db"
  shows "open_ok disk' db'" and "knows db' db" and "r = None \<Longrightarrow> h \<le> wm_of db' sc" and "isOpen db' = isOpen db"
proof -
  have "open_ok disk' db' \<and> knows db' db \<and> (r = None \<longrightarrow> h \<le> wm_of db' sc) \<and> isOpen db' = isOpen db"
  proof (cases "h \<le> wm_of db sc")
    case False
    let ?db = "db\<lparr>watermarks := map_put sc h (watermarks db)\<rparr>"
    have run: "run_res entry_apply db [WMark sc h now] = Inr ?db" using False by simp
    obtain e db1 disk1 where ap: "appendDurable io db disk (concat (map entry_line [WMark sc h now])) = (e, db1, disk1)"
      by (metis prod_cases3)
    show ?thesis
    proof (cases e)
      case None
      then have nb: "\<not> broken db" using ap by (auto simp: appendDurable_def split: if_splits)
      have "r = None" "db' = ?db" "disk' = disk1" "db1 = db"
        using assms(1) False ap None append_ok(1) [OF _ assms(2) run same_maps_refl] nb
        by (auto simp: SetWatermark_def watermark_line split: prod.splits)
      then show ?thesis using append_ok(2) [OF ap [unfolded None] assms(2) run same_maps_refl] nb
        by (simp add: knows_def Lookup_def wm_of_def)
    next
      case (Some x)
      then have "r = Some x" "db' = db1" "disk' = disk1"
        using assms(1) False ap by (auto simp: SetWatermark_def watermark_line)
      then show ?thesis using append_failed [OF ap [unfolded Some] assms(2) run] by (auto simp: knows_def Lookup_def)
    qed
  qed (use assms in \<open>auto simp: SetWatermark_def knows_def\<close>)
  then show "open_ok disk' db'" "knows db' db" "r = None \<Longrightarrow> h \<le> wm_of db' sc" "isOpen db' = isOpen db" by blast+
qed

section \<open>Import\<close>

definition ekey :: "ExportRecord \<Rightarrow> key" where
  "ekey e = (export_scope e, eHeight e)"

definition put_all :: "('k \<times> 'v) list \<Rightarrow> ('k \<times> 'v) list \<Rightarrow> ('k \<times> 'v) list" where
  "put_all m xs = foldl (\<lambda>m (k, v). map_put k v m) m xs"

lemma map_of_put_all:
  "distinct (map fst xs) \<Longrightarrow> map_of (put_all m xs) k = (case map_of xs k of None \<Rightarrow> map_of m k | Some v \<Rightarrow> Some v)"
  unfolding put_all_def
proof (induction xs arbitrary: m)
  case (Cons x xs)
  obtain a b where x: "x = (a, b)" by (cases x)
  have "map_of xs a = None" using Cons.prems x by (simp add: map_of_eq_None_iff)
  then show ?case using Cons x by (auto split: option.split)
qed simp

lemma map_of_del_all:
  "map_of (foldl (\<lambda>m (k, v). map_del k m) m xs) k = (if k \<in> fst ` set xs then None else map_of m k)"
  by (induction xs arbitrary: m) (auto split: if_splits)

lemma map_of_mset:
  assumes "mset ys = mset xs" and "distinct (map fst xs)"
  shows "map_of ys = map_of xs" and "distinct (map fst ys)"
proof -
  have "mset (map fst ys) = mset (map fst xs)" using assms(1) by simp
  then show d: "distinct (map fst ys)" using assms(2) mset_eq_imp_distinct_iff by blast
  have "set ys = set xs" using assms(1) by (metis set_mset_mset)
  then show "map_of ys = map_of xs" using map_of_inject_set [OF d assms(2)] by simp
qed

definition record_entry :: "key \<times> Record \<Rightarrow> entry" where
  "record_entry p = ARec (rScope (snd p)) (rHeight (snd p)) (rBlockHash (snd p)) (rTime (snd p))"

lemma run_record_entries:
  assumes "distinct (map fst adds)"
    and "\<And>k r. (k, r) \<in> set adds \<Longrightarrow> map_of (records db) k = None \<and> k = (rScope r, rHeight r)"
  shows "run_res entry_apply db (map record_entry adds) = Inr (db\<lparr>records := put_all (records db) adds\<rparr>)"
  using assms
proof (induction adds arbitrary: db)
  case (Cons p adds)
  obtain k r where p: "p = (k, r)" by (cases p)
  have k: "map_of (records db) k = None" "k = (rScope r, rHeight r)" using Cons.prems(2) [of k r] p by auto
  let ?db = "db\<lparr>records := map_put k r (records db)\<rparr>"
  have "entry_apply db (record_entry p) = Inr ?db" using k p by (cases r) (simp add: record_entry_def)
  moreover have "run_res entry_apply ?db (map record_entry adds) = Inr (?db\<lparr>records := put_all (records ?db) adds\<rparr>)"
  proof (rule Cons.IH)
    show "distinct (map fst adds)" using Cons.prems(1) by simp
    fix k' r'
    assume a: "(k', r') \<in> set adds"
    then have "k' \<noteq> k" using Cons.prems(1) p by force
    then show "map_of (records ?db) k' = None \<and> k' = (rScope r', rHeight r')" using Cons.prems(2) [of k' r'] a by auto
  qed
  ultimately show ?case using p by (simp add: put_all_def)
qed (simp add: put_all_def)

lemma run_watermark_entries:
  assumes "distinct (map fst ws)" and "\<And>sc h. (sc, h) \<in> set ws \<Longrightarrow> wm_of db sc < h"
  shows "run_res entry_apply db (map (\<lambda>(sc, h). WMark sc h now) ws) = Inr (db\<lparr>watermarks := put_all (watermarks db) ws\<rparr>)"
  using assms
proof (induction ws arbitrary: db)
  case (Cons p ws)
  obtain sc h where p: "p = (sc, h)" by (cases p)
  let ?db = "db\<lparr>watermarks := map_put sc h (watermarks db)\<rparr>"
  have "entry_apply db (WMark sc h now) = Inr ?db" using Cons.prems(2) [of sc h] p by simp
  moreover have "run_res entry_apply ?db (map (\<lambda>(sc, h). WMark sc h now) ws) = Inr (?db\<lparr>watermarks := put_all (watermarks ?db) ws\<rparr>)"
  proof (rule Cons.IH)
    show "distinct (map fst ws)" using Cons.prems(1) by simp
    fix sc' h'
    assume a: "(sc', h') \<in> set ws"
    then have "sc' \<noteq> sc" using Cons.prems(1) p by force
    then show "wm_of ?db sc' < h'" using Cons.prems(2) [of sc' h'] a by (simp add: wm_of_def)
  qed
  ultimately show ?case using p by (simp add: put_all_def)
qed (simp add: put_all_def)

lemma import_check_None:
  assumes "import_check db seen rs = None"
  shows "\<exists>f. (\<forall>k x. map_of seen k = Some x \<longrightarrow> f k = x) \<and>
    (\<forall>e \<in> set rs. \<not> eWatermark e \<longrightarrow> f (ekey e) = eBlockHash e \<and>
      (\<forall>prev. map_of (records db) (ekey e) = Some prev \<longrightarrow> rBlockHash prev = eBlockHash e))"
  using assms
proof (induction rs arbitrary: seen)
  case Nil
  show ?case by (intro exI [of _ "\<lambda>k. the (map_of seen k)"]) simp
next
  case (Cons r rs)
  show ?case
  proof (cases "eWatermark r")
    case True
    then show ?thesis using Cons by simp
  next
    case False
    let ?k = "ekey r"
    have c: "import_check db (map_put ?k (eBlockHash r) seen) rs = None"
      "\<forall>prev. map_of (records db) ?k = Some prev \<longrightarrow> rBlockHash prev = eBlockHash r"
      "\<forall>x. map_of seen ?k = Some x \<longrightarrow> x = eBlockHash r"
      using Cons.prems False by (auto simp: Let_def ekey_def split: if_splits option.splits)
    from Cons.IH [OF c(1)] obtain f where f: "\<forall>k x. map_of (map_put ?k (eBlockHash r) seen) k = Some x \<longrightarrow> f k = x"
      "\<forall>e \<in> set rs. \<not> eWatermark e \<longrightarrow> f (ekey e) = eBlockHash e \<and>
        (\<forall>prev. map_of (records db) (ekey e) = Some prev \<longrightarrow> rBlockHash prev = eBlockHash e)" by blast
    have "f ?k = eBlockHash r" using f(1) [rule_format, of ?k "eBlockHash r"] by simp
    moreover have "\<forall>k x. map_of seen k = Some x \<longrightarrow> f k = x" using f(1) c(3) by (metis calculation fun_upd_other map_of_map_put)
    ultimately show ?thesis using f(2) c(2) by (intro exI [of _ f]) auto
  qed
qed

text \<open>What the second pass has collected, relative to the database before it.\<close>

definition collected :: "DB \<Rightarrow> DB \<Rightarrow> (key \<times> Record) list \<Rightarrow> (Scope \<times> u64) list \<Rightarrow> bool" where
  "collected db0 db adds wms \<longleftrightarrow>
    (\<exists>rs. db = db0\<lparr>records := rs\<rparr> \<and> (\<forall>k. map_of rs k = (if k \<in> fst ` set adds then Some zero_record else map_of (records db0) k))) \<and>
    distinct (map fst adds) \<and> (\<forall>(k, r) \<in> set adds. map_of (records db0) k = None \<and> k = (rScope r, rHeight r)) \<and>
    distinct (map fst wms) \<and> (\<forall>(sc, h) \<in> set wms. wm_of db0 sc < h)"

lemma collected_wm: "collected db0 db adds wms \<Longrightarrow> wm_of db sc = wm_of db0 sc"
  by (auto simp: collected_def wm_of_def)

lemma collected_map:
  assumes "collected db0 db adds wms"
  shows "map_of (records db) k = (if k \<in> fst ` set adds then Some zero_record else map_of (records db0) k)"
proof -
  obtain rs where "db = db0\<lparr>records := rs\<rparr>" "\<forall>k. map_of rs k = (if k \<in> fst ` set adds then Some zero_record else map_of (records db0) k)"
    using assms unfolding collected_def by blast
  then show ?thesis by (simp del: split_paired_All)
qed

lemma collected_start: "collected db db [] []"
  by (auto simp: collected_def intro: exI [of _ "records db"])

lemma collected_record:
  assumes "collected db0 db adds wms" and "map_of (records db) (ekey e) = None"
  shows "collected db0 (db\<lparr>records := map_put (ekey e) zero_record (records db)\<rparr>)
    (adds @ [(ekey e, \<lparr>rScope = export_scope e, rHeight = eHeight e, rBlockHash = x, rTime = ts\<rparr>)]) wms"
proof -
  obtain rs where rs: "db = db0\<lparr>records := rs\<rparr>" "\<And>k. map_of rs k = (if k \<in> fst ` set adds then Some zero_record else map_of (records db0) k)"
    using assms(1) by (auto simp: collected_def)
  have new: "ekey e \<notin> fst ` set adds" "map_of (records db0) (ekey e) = None"
    using assms(2) rs by (auto split: if_splits)
  have "\<exists>rs'. db\<lparr>records := map_put (ekey e) zero_record (records db)\<rparr> = db0\<lparr>records := rs'\<rparr> \<and>
      (\<forall>k. map_of rs' k = (if k \<in> insert (ekey e) (fst ` set adds) then Some zero_record else map_of (records db0) k))"
    using rs by (intro exI [of _ "map_put (ekey e) zero_record rs"]) auto
  then show ?thesis using assms(1) new unfolding collected_def by (auto simp: ekey_def)
qed

lemma collected_watermark:
  assumes "collected db0 db adds wms" and "wm_of db sc < h"
  shows "collected db0 db adds (map_put sc h wms)"
  using assms collected_wm [OF assms(1), of sc] by (auto simp: collected_def)

text \<open>Every record of the input is known or added, with the hash of a record of the same key, and every watermark is covered.\<close>

definition collects :: "DB \<Rightarrow> (key \<times> Record) list \<Rightarrow> (key \<times> Record) list \<Rightarrow> (Scope \<times> u64) list \<Rightarrow> (Scope \<times> u64) list \<Rightarrow> ExportRecord list \<Rightarrow> bool" where
  "collects db0 adds adds' wms wms' rs \<longleftrightarrow>
    set adds \<subseteq> set adds' \<and>
    (\<forall>e \<in> set rs. \<not> eWatermark e \<longrightarrow> map_of (records db0) (ekey e) \<noteq> None \<or> ekey e \<in> fst ` set adds') \<and>
    (\<forall>(k, r) \<in> set adds'. (k, r) \<in> set adds \<or> (\<exists>e \<in> set rs. \<not> eWatermark e \<and> ekey e = k \<and> rBlockHash r = eBlockHash e)) \<and>
    (\<forall>sc h. map_of wms sc = Some h \<longrightarrow> (\<exists>h'. map_of wms' sc = Some h' \<and> h \<le> h')) \<and>
    (\<forall>e \<in> set rs. eWatermark e \<longrightarrow> eHeight e \<le> wm_of db0 (export_scope e) \<or>
       (\<exists>h. map_of wms' (export_scope e) = Some h \<and> eHeight e \<le> h))"

lemma collectsD:
  assumes "collects db0 adds adds' wms wms' rs"
  shows "set adds \<subseteq> set adds'"
    and "\<And>e. e \<in> set rs \<Longrightarrow> \<not> eWatermark e \<Longrightarrow> map_of (records db0) (ekey e) \<noteq> None \<or> ekey e \<in> fst ` set adds'"
    and "\<And>k r. (k, r) \<in> set adds' \<Longrightarrow> (k, r) \<in> set adds \<or> (\<exists>e \<in> set rs. \<not> eWatermark e \<and> ekey e = k \<and> rBlockHash r = eBlockHash e)"
    and "\<And>sc h. map_of wms sc = Some h \<Longrightarrow> \<exists>h'. map_of wms' sc = Some h' \<and> h \<le> h'"
    and "\<And>e. e \<in> set rs \<Longrightarrow> eWatermark e \<Longrightarrow> eHeight e \<le> wm_of db0 (export_scope e) \<or>
       (\<exists>h. map_of wms' (export_scope e) = Some h \<and> eHeight e \<le> h)"
  using assms unfolding collects_def by blast+

lemma collects_watermark:
  assumes "collects db0 adds adds' wms1 wms' rs" and "eWatermark e"
    and up: "\<And>sc h. map_of wms sc = Some h \<Longrightarrow> \<exists>h'. map_of wms1 sc = Some h' \<and> h \<le> h'"
    and here: "eHeight e \<le> wm_of db0 (export_scope e) \<or> (\<exists>h. map_of wms1 (export_scope e) = Some h \<and> eHeight e \<le> h)"
  shows "collects db0 adds adds' wms wms' (e # rs)"
proof -
  note d = collectsD [OF assms(1)]
  have "\<exists>h'. map_of wms' sc = Some h' \<and> h \<le> h'" if "map_of wms sc = Some h" for sc h
    using up [OF that] d(4) order.trans by blast
  moreover have "eHeight e \<le> wm_of db0 (export_scope e) \<or> (\<exists>h. map_of wms' (export_scope e) = Some h \<and> eHeight e \<le> h)"
    using here d(4) order.trans by blast
  moreover have "\<forall>(k, r) \<in> set adds'. (k, r) \<in> set adds \<or> (\<exists>x \<in> set (e # rs). \<not> eWatermark x \<and> ekey x = k \<and> rBlockHash r = eBlockHash x)"
    using d(3) by fastforce
  ultimately show ?thesis unfolding collects_def using assms(2) d(1,2,5) by simp
qed

lemma collects_record:
  assumes "collects db0 adds1 adds' wms wms' rs" and "\<not> eWatermark e"
    and "adds1 = adds \<and> (map_of (records db0) (ekey e) \<noteq> None \<or> ekey e \<in> fst ` set adds) \<or>
      (\<exists>r. adds1 = adds @ [(ekey e, r)] \<and> rBlockHash r = eBlockHash e)"
  shows "collects db0 adds adds' wms wms' (e # rs)"
proof -
  note d = collectsD [OF assms(1)]
  have sub: "set adds \<subseteq> set adds1" using assms(3) by auto
  have "map_of (records db0) (ekey e) \<noteq> None \<or> ekey e \<in> fst ` set adds1" using assms(3) by auto
  then have "map_of (records db0) (ekey e) \<noteq> None \<or> ekey e \<in> fst ` set adds'" using d(1) by blast
  moreover have "\<forall>(k, r) \<in> set adds'. (k, r) \<in> set adds \<or> (\<exists>x \<in> set (e # rs). \<not> eWatermark x \<and> ekey x = k \<and> rBlockHash r = eBlockHash x)"
    using d(3) assms(2,3) by fastforce
  moreover have "set adds \<subseteq> set adds'" using sub d(1) by blast
  ultimately show ?thesis unfolding collects_def using assms(2) d(2,4,5) by simp
qed

lemma import_collect_spec:
  assumes "import_collect now db adds wms rs = (db', adds', wms')" and "collected db0 db adds wms"
  shows "collected db0 db' adds' wms' \<and> collects db0 adds adds' wms wms' rs"
  using assms
proof (induction rs arbitrary: db adds wms)
  case Nil
  then show ?case by (auto simp: collects_def)
next
  case (Cons e rs)
  show ?case
  proof (cases "eWatermark e")
    case True
    let ?sc = "export_scope e"
    let ?w = "case map_of wms ?sc of None \<Rightarrow> 0 | Some h \<Rightarrow> h"
    define wms1 where "wms1 = (if eHeight e > wm_of db ?sc \<and> eHeight e > ?w then map_put ?sc (eHeight e) wms else wms)"
    have "import_collect now db adds wms1 rs = (db', adds', wms')" using Cons.prems(1) True by (simp add: Let_def wms1_def)
    moreover have "collected db0 db adds wms1" using Cons.prems(2) collected_watermark by (auto simp: wms1_def)
    ultimately have i: "collected db0 db' adds' wms'" "collects db0 adds adds' wms1 wms' rs" using Cons.IH by blast+
    have "\<exists>h'. map_of wms1 sc = Some h' \<and> h \<le> h'" if "map_of wms sc = Some h" for sc h
      using that by (auto simp: wms1_def split: option.splits)
    moreover have "eHeight e \<le> wm_of db0 ?sc \<or> (\<exists>h. map_of wms1 ?sc = Some h \<and> eHeight e \<le> h)"
      using collected_wm [OF Cons.prems(2), of ?sc] by (cases "map_of wms ?sc") (auto simp: wms1_def not_less)
    ultimately show ?thesis using i(1) collects_watermark [OF i(2) True] by blast
  next
    case False
    show ?thesis
    proof (cases "map_of (records db) (ekey e)")
      case (Some x)
      then have "import_collect now db adds wms rs = (db', adds', wms')" using Cons.prems(1) False by (simp add: Let_def ekey_def)
      then have i: "collected db0 db' adds' wms'" "collects db0 adds adds' wms wms' rs" using Cons.IH Cons.prems(2) by blast+
      have "map_of (records db0) (ekey e) \<noteq> None \<or> ekey e \<in> fst ` set adds"
        using Some collected_map [OF Cons.prems(2), of "ekey e"] by (auto split: if_splits)
      then show ?thesis using i(1) collects_record [OF i(2) False] by blast
    next
      case None
      let ?r = "\<lparr>rScope = export_scope e, rHeight = eHeight e, rBlockHash = eBlockHash e, rTime = if eTime e = 0 then now else eTime e\<rparr>"
      have "import_collect now (db\<lparr>records := map_put (ekey e) zero_record (records db)\<rparr>) (adds @ [(ekey e, ?r)]) wms rs = (db', adds', wms')"
        using Cons.prems(1) False None by (simp add: Let_def ekey_def)
      then have i: "collected db0 db' adds' wms'" "collects db0 (adds @ [(ekey e, ?r)]) adds' wms wms' rs"
        using Cons.IH collected_record [OF Cons.prems(2) None] by blast+
      have "rBlockHash ?r = eBlockHash e" by simp
      then show ?thesis using i(1) collects_record [OF i(2) False] by blast
    qed
  qed
qed

lemma append_other_records:
  "appendDurable io (db\<lparr>records := rs\<rparr>) disk l =
    (case appendDurable io db disk l of (e, db', disk') \<Rightarrow> (e, db'\<lparr>records := rs\<rparr>, disk'))"
  by (simp add: appendDurable_def Let_def)

lemma open_ok_same:
  assumes "same_maps a b" and "broken a = broken b"
  shows "open_ok disk a = open_ok disk b"
proof -
  have "knows m a = knows m b" "same_maps m a = same_maps m b" for m
    using assms(1) by (simp_all add: knows_def Lookup_def same_maps_def)
  then show ?thesis using assms(2) by (simp add: open_ok_def)
qed

definition imported :: "DB \<Rightarrow> (key \<times> Record) list \<Rightarrow> (key \<times> Record) list \<Rightarrow> (Scope \<times> u64) list \<Rightarrow> DB" where
  "imported db ps adds wms = db\<lparr>records := put_all ps adds, watermarks := put_all (watermarks db) wms\<rparr>"

lemma imported_flags [simp]: "isOpen (imported db ps adds wms) = isOpen db" "broken (imported db ps adds wms) = broken db"
  by (simp_all add: imported_def)

lemma imported_record:
  assumes "collected db (db\<lparr>records := ps\<rparr>) adds wms"
  shows "map_of (records (imported db ps adds wms)) k = (case map_of adds k of None \<Rightarrow> map_of (records db) k | Some r \<Rightarrow> Some r)"
proof -
  have d: "distinct (map fst adds)" using assms by (simp add: collected_def)
  have "map_of ps k = map_of (records db) k" if "map_of adds k = None"
    using collected_map [OF assms, of k] that by (simp add: map_of_eq_None_iff)
  then show ?thesis by (simp add: imported_def map_of_put_all [OF d] split: option.split)
qed

lemma imported_watermark:
  assumes "collected db (db\<lparr>records := ps\<rparr>) adds wms"
  shows "wm_of (imported db ps adds wms) sc = (case map_of wms sc of None \<Rightarrow> wm_of db sc | Some h \<Rightarrow> h)"
    and "wm_of db sc \<le> wm_of (imported db ps adds wms) sc"
proof -
  have d: "distinct (map fst wms)" and w: "map_of wms sc = Some h \<Longrightarrow> wm_of db sc < h" for h
    using assms by (auto simp: collected_def dest!: map_of_SomeD)
  show eq: "wm_of (imported db ps adds wms) sc = (case map_of wms sc of None \<Rightarrow> wm_of db sc | Some h \<Rightarrow> h)"
    by (simp add: imported_def wm_of_def map_of_put_all [OF d] split: option.split)
  show "wm_of db sc \<le> wm_of (imported db ps adds wms) sc"
    unfolding eq using w by (auto split: option.split dest: less_imp_le)
qed

lemma imported_knows:
  assumes "collected db (db\<lparr>records := ps\<rparr>) adds wms"
  shows "knows (imported db ps adds wms) db"
proof -
  have "map_of adds k = None" if "map_of (records db) k = Some r" for k r
    using assms that map_of_SomeD [of adds k] by (cases "map_of adds k") (fastforce simp: collected_def)+
  then show ?thesis using imported_record [OF assms] by (auto simp: knows_def Lookup_def)
qed

lemma imported_all:
  assumes "collected db (db\<lparr>records := ps\<rparr>) adds wms" and "collects db [] adds [] wms rs" and "import_check db [] rs = None" and "e \<in> set rs"
  shows "if eWatermark e then eHeight e \<le> wm_of (imported db ps adds wms) (export_scope e)
    else Lookup (imported db ps adds wms) (export_scope e) (eHeight e) = Some (eBlockHash e)"
proof (cases "eWatermark e")
  case True
  then show ?thesis using collectsD(5) [OF assms(2,4) True] imported_watermark [OF assms(1), of "export_scope e"]
    by (auto intro: order.trans)
next
  case False
  from import_check_None [OF assms(3)] obtain g where
    g: "\<forall>e \<in> set rs. \<not> eWatermark e \<longrightarrow> g (ekey e) = eBlockHash e \<and>
      (\<forall>prev. map_of (records db) (ekey e) = Some prev \<longrightarrow> rBlockHash prev = eBlockHash e)" by blast
  have "\<exists>r. map_of (records (imported db ps adds wms)) (ekey e) = Some r \<and> rBlockHash r = eBlockHash e"
  proof (cases "map_of adds (ekey e)")
    case None
    then have "map_of (records db) (ekey e) \<noteq> None" using collectsD(2) [OF assms(2,4) False] by (simp add: map_of_eq_None_iff)
    then show ?thesis using None imported_record [OF assms(1), of "ekey e"] g assms(4) False by auto
  next
    case (Some r)
    then obtain x where "x \<in> set rs" "\<not> eWatermark x" "ekey x = ekey e" "rBlockHash r = eBlockHash x"
      using collectsD(3) [OF assms(2) map_of_SomeD [OF Some]] by auto
    then have "rBlockHash r = eBlockHash e" using g assms(4) False by metis
    then show ?thesis using Some imported_record [OF assms(1), of "ekey e"] by simp
  qed
  then show ?thesis using False by (auto simp: Lookup_def ekey_def)
qed

lemma import_entries:
  assumes "collected db (db\<lparr>records := ps\<rparr>) adds wms" and "mset ws = mset wms"
  shows "\<exists>n. run_res entry_apply db (map record_entry adds @ map (\<lambda>(sc, h). WMark sc h now) ws) = Inr n \<and>
    same_maps n (imported db ps adds wms)"
proof -
  let ?db = "db\<lparr>records := put_all (records db) adds\<rparr>"
  have d: "distinct (map fst adds)" "distinct (map fst wms)" using assms(1) by (simp_all add: collected_def)
  note om = map_of_mset [OF assms(2) d(2)]
  have "run_res entry_apply db (map record_entry adds) = Inr ?db"
    using assms(1) d(1) by (intro run_record_entries) (auto simp: collected_def)
  moreover have "set ws = set wms" using assms(2) by (metis set_mset_mset)
  then have w: "wm_of ?db sc < h" if "(sc, h) \<in> set ws" for sc h
    using assms(1) that by (auto simp: collected_def wm_of_def)
  have "run_res entry_apply ?db (map (\<lambda>(sc, h). WMark sc h now) ws) = Inr (?db\<lparr>watermarks := put_all (watermarks db) ws\<rparr>)"
    using run_watermark_entries [OF om(2) w, of now] by simp
  moreover have "map_of (put_all (records db) adds) = map_of (records (imported db ps adds wms))"
    using imported_record [OF assms(1)] by (intro ext) (simp add: map_of_put_all [OF d(1)])
  moreover have "map_of (put_all (watermarks db) ws) = map_of (watermarks (imported db ps adds wms))"
    by (intro ext) (simp add: imported_def map_of_put_all [OF d(2)] map_of_put_all [OF om(2)] om(1))
  ultimately show ?thesis by (simp add: run_res_append same_maps_def)
qed

lemma entry_line_not_Nil [simp]: "entry_line e \<noteq> []"
  using entry_line_shape [of e] by auto

lemma append_or_nothing:
  assumes "(if concat (map entry_line ns) = [] then (None, db, disk) else appendDurable io db disk (concat (map entry_line ns))) = (None, db2, disk2)"
    and "open_ok disk db" and "run_res entry_apply db ns = Inr n" and "same_maps n db'" and "broken db' = broken db"
  shows "open_ok disk2 db'"
proof (cases "concat (map entry_line ns) = []")
  case True
  then have "ns = []" by (cases ns) simp_all
  then show ?thesis using assms open_ok_same [of db db' disk] by simp
next
  case False
  then have a: "appendDurable io db disk (concat (map entry_line ns)) = (None, db2, disk2)" using assms(1) by simp
  then have "\<not> broken db'" using assms(5) by (auto simp: appendDurable_def split: if_splits)
  then show ?thesis using append_ok(2) [OF a assms(2-4)] by blast
qed

text \<open>
  \<open>Import\<close>: a refused import leaves the maps as they were; an accepted one knows every record and
  watermark of its input.
\<close>

lemma Import_keeps:
  assumes imp: "Import now order io db disk rs = (r, db', disk')" and ok: "open_ok disk db" and ord: "\<And>xs. mset (order xs) = mset xs"
  shows "open_ok disk' db' \<and> knows db' db \<and> isOpen db' = isOpen db \<and>
    (case r of Inl _ \<Rightarrow> same_maps db' db
     | Inr _ \<Rightarrow> \<forall>e \<in> set rs. if eWatermark e then eHeight e \<le> wm_of db' (export_scope e)
                             else Lookup db' (export_scope e) (eHeight e) = Some (eBlockHash e))"
proof (cases "import_check db [] rs")
  case (Some e)
  then show ?thesis using imp ok by (auto simp: Import_def knows_def)
next
  case None
  obtain db1 adds wms where col: "import_collect now db [] [] rs = (db1, adds, wms)" by (metis prod_cases3)
  have c1: "collected db db1 adds wms" and c2: "collects db [] adds [] wms rs"
    using import_collect_spec [OF col collected_start] by blast+
  obtain ps where ps: "db1 = db\<lparr>records := ps\<rparr>" using c1 by (auto simp: collected_def)
  note c = c1 [unfolded ps]
  define ns where "ns = map record_entry adds @ map (\<lambda>(sc, h). WMark sc h now) (order wms)"
  obtain n where n: "run_res entry_apply db ns = Inr n" "same_maps n (imported db ps adds wms)"
    using import_entries [OF c ord] unfolding ns_def by blast
  have buf: "concat (map (\<lambda>(k, r). line (record_body (rScope r) (rHeight r) (rBlockHash r) (rTime r))) adds) @
      concat (map (\<lambda>(sc, h). line (watermark_body sc h now)) (order wms)) = concat (map entry_line ns)"
    by (simp add: ns_def record_entry_def record_line watermark_line case_prod_beta' comp_def)
  obtain e db2 disk2 where ap: "(if concat (map entry_line ns) = [] then (None, db, disk) else appendDurable io db disk (concat (map entry_line ns))) = (e, db2, disk2)"
    by (metis prod_cases3)
  have "(if concat (map entry_line ns) = [] then (None, db1, disk) else appendDurable io db1 disk (concat (map entry_line ns))) =
      (e, db2\<lparr>records := ps\<rparr>, disk2)"
    using ap by (auto simp: ps append_other_records split: if_splits prod.splits)
  then have imp': "(r, db', disk') = (case e of
      Some x \<Rightarrow> (Inl x, db2\<lparr>records := foldl (\<lambda>m (k, r). map_del k m) ps adds\<rparr>, disk2)
    | None \<Rightarrow> (Inr (length adds), imported db2 ps adds wms, disk2))"
    using imp None col unfolding Import_def Let_def buf [symmetric]
    by (cases e) (simp_all add: imported_def put_all_def)
  show ?thesis
  proof (cases e)
    case None
    have "db2 = db" using ap None by (auto simp: appendDurable_def Let_def split: if_splits)
    moreover have "open_ok disk2 (imported db ps adds wms)"
      using ap [unfolded None] ok n by (rule append_or_nothing) simp
    ultimately show ?thesis using imp' None imported_knows [OF c] imported_all [OF c c2 \<open>import_check db [] rs = None\<close>]
      by simp
  next
    case (Some x)
    then have a: "appendDurable io db disk (concat (map entry_line ns)) = (Some x, db2, disk2)" using ap by (auto split: if_splits)
    note f = append_failed [OF a ok n(1)]
    let ?db = "db2\<lparr>records := foldl (\<lambda>m (k, r). map_del k m) ps adds\<rparr>"
    have "map_of (foldl (\<lambda>m (k, r). map_del k m) ps adds) k = map_of (records db) k" for k
      using collected_map [OF c, of k] c by (auto simp: map_of_del_all collected_def)
    then have s: "same_maps ?db db2" "same_maps ?db db" using f(1) by (auto simp: same_maps_def)
    then have "open_ok disk2 ?db" using f(2) open_ok_same [of ?db db2 disk2] by simp
    moreover have "knows ?db db" using s(2) by (simp add: knows_def Lookup_def same_maps_def)
    ultimately show ?thesis using imp' Some s(2) f(1) by auto
  qed
qed

end
