(* ===== verification/Protect_Life.thy ===== *)
theory Protect_Life
  imports Protect_Log
begin

text \<open>
  The database across restarts: opening after any sequence of operations, failed writes and crashes finds every
  approval that was ever given, so that two different hashes are never approved for one height of one key.
\<close>

section \<open>Opening after any stop\<close>

lemma run_entries_flags:
  "run_res entry_apply a es = Inr b \<Longrightarrow> broken b = broken a \<and> isOpen b = isOpen a \<and> repaired b = repaired a"
proof (induction es arbitrary: a)
  case (Cons e es)
  then obtain m where m: "entry_apply a e = Inr m" "run_res entry_apply m es = Inr b" by (auto split: sum.splits)
  have "broken m = broken a \<and> isOpen m = isOpen a \<and> repaired m = repaired a" using m(1) by (cases e) (auto split: if_splits)
  then show ?case using Cons.IH [OF m(2)] by simp
qed simp

lemma closed_log:
  assumes "newline \<notin> set frag" "run_res entry_apply empty_DB es = Inr m" "covers m A"
  shows "closed_ok (d\<lparr>dFile := Some (concat (map entry_line es) @ frag)\<rparr>) A"
  unfolding closed_ok_def logs_def using assms by fastforce

lemma open_log:
  assumes "run_res entry_apply empty_DB es = Inr m" "knows m db" "same_maps m db"
  shows "open_ok (d\<lparr>dFile := Some (concat (map entry_line es))\<rparr>) db"
  unfolding open_ok_def logs_def using assms by (intro exI [of _ es] exI [of _ "[]"] exI [of _ m]) simp

text \<open>What opening finds on a disk that holds a log, and what it then does.\<close>

definition marked :: "Disk \<Rightarrow> int" where
  "marked disk = (case dMarker disk of None \<Rightarrow> 0 | Some b \<Rightarrow> marker_value b)"

lemma marker_value_pos: "0 < marker_value b"
  by (simp add: marker_value_def split: option.split)

lemma marked_pos: "0 < marked disk \<longleftrightarrow> dMarker disk \<noteq> None" "0 \<le> marked disk"
  using marker_value_pos less_imp_le by (auto simp: marked_def split: option.split)

definition readable_io :: "load_io \<Rightarrow> Disk \<Rightarrow> bool" where
  "readable_io io disk \<longleftrightarrow> (dMarker disk = None \<or> marker_readable io) \<and> openable io \<and> readable io"

lemma load_shape:
  assumes "closed_ok disk A"
  obtains es frag m db where "newline \<notin> set frag" and "run_res entry_apply empty_DB es = Inr m" and "covers m A"
    and "same_maps m db" and "\<not> broken db" and "isOpen db" and "repaired db = marked disk"
    and "(case dFile disk of None \<Rightarrow> [] | Some s \<Rightarrow> s) = concat (map entry_line es) @ frag"
    and "readable_io io disk \<Longrightarrow>
      load io disk = (let data = concat (map entry_line es) @ frag; disk = disk\<lparr>dFile := Some data\<rparr> in
        if frag = [] then (if seeked io then Inr db else Inl ErrIO, disk)
        else repair_tail io disk db data (length (concat (map entry_line es))))"
    and "\<not> readable_io io disk \<Longrightarrow> load io disk = (Inl ErrIO, disk) \<or>
      load io disk = (Inl ErrIO, disk\<lparr>dFile := Some (concat (map entry_line es) @ frag)\<rparr>)"
proof -
  obtain es frag m where f: "(case dFile disk of None \<Rightarrow> [] | Some s \<Rightarrow> s) = concat (map entry_line es) @ frag" "newline \<notin> set frag"
    "run_res entry_apply empty_DB es = Inr m" "covers m A"
  proof (cases "dFile disk")
    case None
    then have "A = {}" using assms(1) by (simp add: closed_ok_def)
    then show ?thesis using that [of "[]" "[]" empty_DB] None by (simp add: covers_def)
  next
    case (Some s)
    then show ?thesis using assms(1) that by (auto simp: closed_ok_def logs_def)
  qed
  obtain db where db: "run_res entry_apply (empty_DB\<lparr>repaired := marked disk\<rparr>) es = Inr db" "same_maps m db"
    using run_entries_same [OF _ f(3), of "empty_DB\<lparr>repaired := marked disk\<rparr>"] by auto
  have keep: "\<not> broken db" "isOpen db" "repaired db = marked disk"
    using run_entries_flags [OF db(1)] by (simp_all add: empty_DB_def)
  note L = load_log [OF db(1) f(2)]
  have "readable_io io disk \<Longrightarrow> load io disk = (let data = concat (map entry_line es) @ frag; disk = disk\<lparr>dFile := Some data\<rparr> in
        if frag = [] then (if seeked io then Inr db else Inl ErrIO, disk)
        else repair_tail io disk db data (length (concat (map entry_line es))))"
    unfolding load_def Let_def f(1) marked_def [symmetric] L readable_io_def by auto
  moreover have "\<not> readable_io io disk \<Longrightarrow> load io disk = (Inl ErrIO, disk) \<or>
      load io disk = (Inl ErrIO, disk\<lparr>dFile := Some (concat (map entry_line es) @ frag)\<rparr>)"
    unfolding load_def Let_def f(1) readable_io_def by auto
  ultimately show ?thesis using that f db(2) keep by blast
qed

text \<open>A repair is due while the marker is there or the last line of the file is torn.\<close>

definition repair_due :: "Disk \<Rightarrow> bool" where
  "repair_due disk \<longleftrightarrow> dMarker disk \<noteq> None \<or> (case dFile disk of None \<Rightarrow> False | Some s \<Rightarrow> s \<noteq> [] \<and> last s \<noteq> newline)"

lemma last_entry_line [simp]: "last (entry_line e) = newline"
  by (simp add: entry_line_def line_def)

lemma last_entry_lines: "es \<noteq> [] \<Longrightarrow> last (concat (map entry_line es)) = newline"
  using entry_line_not_Nil [of "last es"] by (cases es rule: rev_cases) simp_all

lemma repair_due_log:
  assumes "(case dFile disk of None \<Rightarrow> [] | Some s \<Rightarrow> s) = concat (map entry_line es) @ frag" and "newline \<notin> set frag"
  shows "repair_due disk \<longleftrightarrow> dMarker disk \<noteq> None \<or> frag \<noteq> []"
proof (cases "frag = []")
  case True
  then show ?thesis using assms(1) last_entry_lines [of es] by (auto simp: repair_due_def split: option.splits)
next
  case False
  then have "last frag \<noteq> newline" using assms(2) last_in_set [of frag] by metis
  then show ?thesis using False assms(1) by (auto simp: repair_due_def split: option.splits)
qed

lemma load_closed:
  assumes "closed_ok disk A" and "load io disk = (r, disk')"
  shows "case r of
      Inl e \<Rightarrow> e = ErrIO \<and> closed_ok disk' A \<and> (repair_due disk \<longrightarrow> repair_due disk')
    | Inr db \<Rightarrow> open_ok disk' db \<and> \<not> broken db \<and> isOpen db \<and> covers db A \<and>
        0 \<le> repaired db \<and> (0 < repaired db \<longleftrightarrow> dMarker disk' \<noteq> None) \<and> (repair_due disk \<longrightarrow> 0 < repaired db)"
  using assms(1)
proof (rule load_shape [where io = io])
  fix es frag m db
  let ?good = "concat (map entry_line es)"
  assume f: "newline \<notin> set frag" "run_res entry_apply empty_DB es = Inr m" "covers m A" and db: "same_maps m db"
    and keep: "\<not> broken db" "isOpen db" "repaired db = marked disk"
    and data: "(case dFile disk of None \<Rightarrow> [] | Some s \<Rightarrow> s) = ?good @ frag"
    and ok: "readable_io io disk \<Longrightarrow> load io disk = (let data = ?good @ frag; disk = disk\<lparr>dFile := Some data\<rparr> in
        if frag = [] then (if seeked io then Inr db else Inl ErrIO, disk) else repair_tail io disk db data (length ?good))"
    and bad: "\<not> readable_io io disk \<Longrightarrow> load io disk = (Inl ErrIO, disk) \<or>
      load io disk = (Inl ErrIO, disk\<lparr>dFile := Some (?good @ frag)\<rparr>)"
  have cov: "covers (db\<lparr>repaired := n\<rparr>) A" for n using covers_knows [OF f(3) knows_same [OF same_maps_sym [OF db]]]
    by (simp add: covers_def Lookup_def)
  have closed: "closed_ok (d\<lparr>dFile := Some (?good @ frag)\<rparr>) A" "closed_ok (d\<lparr>dFile := Some ?good\<rparr>) A" for d
    using closed_log [OF f] closed_log [OF _ f(2,3), of "[]"] by simp_all
  have opened: "open_ok (d\<lparr>dFile := Some ?good\<rparr>) (db\<lparr>repaired := n\<rparr>)" for n d
    using db knows_same [OF db] by (intro open_log [OF f(2)]) simp_all
  have due: "repair_due disk \<longleftrightarrow> dMarker disk \<noteq> None \<or> frag \<noteq> []" by (rule repair_due_log [OF data f(1)])
  have due': "dMarker d \<noteq> None \<or> frag \<noteq> [] \<Longrightarrow> repair_due (d\<lparr>dFile := Some (?good @ frag)\<rparr>)" for d
    using repair_due_log [of "d\<lparr>dFile := Some (?good @ frag)\<rparr>" es frag] f(1) by simp
  consider "\<not> readable_io io disk" | "readable_io io disk" "frag = []" | "readable_io io disk" "frag \<noteq> []" by blast
  then show ?thesis
  proof cases
    case 1
    then show ?thesis using bad assms due due' [of disk] closed(1) [of disk] by auto
  next
    case 2
    have "db\<lparr>repaired := marked disk\<rparr> = db" using keep(3) by simp
    then have "open_ok (disk\<lparr>dFile := Some ?good\<rparr>) db" "covers db A"
      using opened [of disk "marked disk"] cov [of "marked disk"] by simp_all
    then show ?thesis
      using ok [OF 2(1)] 2(2) assms(2) closed(2) [of disk] keep due due' [of disk] marked_pos [of disk]
      by (auto split: if_splits)
  next
    case 3
    define d where "d = disk\<lparr>dFile := Some (?good @ frag)\<rparr>"
    define n where "n = marked disk + int (length frag)"
    have "0 < length frag" using 3(2) by simp
    then have "0 < n" using marked_pos(2) [of disk] unfolding n_def by linarith
    have "load io disk = repair_tail io d db (?good @ frag) (length ?good)" using ok [OF 3(1)] 3(2) by (simp add: d_def Let_def)
    then consider "r = Inl ErrIO" "disk' = d\<lparr>dMarker := marker_left io\<rparr>" | "r = Inl ErrIO" "disk' = d\<lparr>dMarker := Some (dec_int n @ [newline])\<rparr>"
      | "r = Inl ErrIO" "disk' = d\<lparr>dMarker := Some (dec_int n @ [newline]), dFile := Some ?good\<rparr>"
      | "r = Inr (db\<lparr>repaired := n\<rparr>)" "disk' = d\<lparr>dMarker := Some (dec_int n @ [newline]), dFile := Some ?good\<rparr>"
      using assms(2) by (auto simp: repair_tail_def Let_def n_def keep(3) split: if_splits)
    then show ?thesis
    proof cases
      case 1
      have "disk' = (disk\<lparr>dMarker := marker_left io\<rparr>)\<lparr>dFile := Some (?good @ frag)\<rparr>" using 1 by (simp add: d_def)
      then show ?thesis using closed(1) due' 3(2) 1(1) by simp
    next
      case 2
      have "disk' = (disk\<lparr>dMarker := Some (dec_int n @ [newline])\<rparr>)\<lparr>dFile := Some (?good @ frag)\<rparr>" using 2 by (simp add: d_def)
      then show ?thesis using closed(1) due' 3(2) 2(1) by simp
    next
      case 3
      then show ?thesis using closed(2) by (simp add: repair_due_def d_def)
    next
      case 4
      then show ?thesis using opened cov keep(1,2) \<open>0 < n\<close> by simp
    qed
  qed
qed

definition io_works :: "load_io \<Rightarrow> bool" where
  "io_works io \<longleftrightarrow> marker_readable io \<and> openable io \<and> readable io \<and> marker_written io \<and> truncated io \<and> synced io \<and> seeked io"

lemma load_works:
  assumes "closed_ok disk A" and "io_works io"
  shows "\<exists>db disk'. load io disk = (Inr db, disk')"
  using assms(1)
proof (rule load_shape [where io = io])
qed (use assms(2) in \<open>auto simp: io_works_def readable_io_def repair_tail_def Let_def\<close>)

section \<open>The life of the database\<close>

text \<open>
  The states the database goes through, with the set of approvals that were given so far: it is opened, used and
  stopped any number of times, and each call may meet any I/O error. A process that dies inside a write is an
  append that fails after some bytes without being undone, followed by a stop.
\<close>

inductive protect_reachable :: "Disk \<Rightarrow> DB option \<Rightarrow> (Scope \<times> u64 \<times> hash) set \<Rightarrow> bool" where
  start: "protect_reachable \<lparr>dFile = None, dMarker = None\<rparr> None {}"
| opened: "protect_reachable disk None A \<Longrightarrow> Open False io disk = (Inr db, disk') \<Longrightarrow> protect_reachable disk' (Some db) A"
| not_opened: "protect_reachable disk None A \<Longrightarrow> Open locked io disk = (Inl e, disk') \<Longrightarrow> protect_reachable disk' None A"
| approved: "protect_reachable disk (Some db) A \<Longrightarrow> Approve now io db disk sc height h = (Inr fresh, db', disk') \<Longrightarrow>
    protect_reachable disk' (Some db') (insert (sc, height, h) A)"
| refused: "protect_reachable disk (Some db) A \<Longrightarrow> Approve now io db disk sc height h = (Inl e, db', disk') \<Longrightarrow>
    protect_reachable disk' (Some db') A"
| raised: "protect_reachable disk (Some db) A \<Longrightarrow> SetWatermark now io db disk sc height = (r, db', disk') \<Longrightarrow>
    protect_reachable disk' (Some db') A"
| merged: "protect_reachable disk (Some db) A \<Longrightarrow> (\<And>xs. mset (order xs) = mset xs) \<Longrightarrow>
    Import now order io db disk rs = (s, db', disk') \<Longrightarrow> protect_reachable disk' (Some db') A"
| handled: "protect_reachable disk (Some db) A \<Longrightarrow> RepairHandled removed db disk = (r, db', disk') \<Longrightarrow>
    protect_reachable disk' (Some db') A"
| closed: "protect_reachable disk (Some db) A \<Longrightarrow> protect_reachable disk (Some (Close db)) A"
| stopped: "protect_reachable disk (Some db) A \<Longrightarrow> protect_reachable disk None A"

definition protect_inv :: "Disk \<Rightarrow> DB option \<Rightarrow> (Scope \<times> u64 \<times> hash) set \<Rightarrow> bool" where
  "protect_inv disk odb A \<longleftrightarrow>
    (case odb of None \<Rightarrow> closed_ok disk A
     | Some db \<Rightarrow> open_ok disk db \<and> covers db A \<and> 0 \<le> repaired db \<and> (0 < repaired db \<longleftrightarrow> dMarker disk \<noteq> None))"

text \<open>No write touches the repair marker.\<close>

lemma append_marker:
  "appendDurable io db disk l = (e, db', disk') \<Longrightarrow> dMarker disk' = dMarker disk \<and> repaired db' = repaired db"
  by (auto simp: appendDurable_def Let_def split: if_splits)

lemma Approve_marker:
  "Approve now io db disk sc height h = (r, db', disk') \<Longrightarrow> dMarker disk' = dMarker disk \<and> repaired db' = repaired db"
  by (auto simp: Approve_def split: if_splits option.splits prod.splits dest: append_marker)

lemma SetWatermark_marker:
  "SetWatermark now io db disk sc height = (r, db', disk') \<Longrightarrow> dMarker disk' = dMarker disk \<and> repaired db' = repaired db"
  by (auto simp: SetWatermark_def split: if_splits option.splits prod.splits dest: append_marker)

lemma import_collect_repaired: "repaired (fst (import_collect now db adds wms rs)) = repaired db"
  by (induction now db adds wms rs rule: import_collect.induct) (simp_all add: Let_def)

lemma Import_marker:
  assumes "Import now order io db disk rs = (r, db', disk')"
  shows "dMarker disk' = dMarker disk \<and> repaired db' = repaired db"
  using assms import_collect_repaired [of now db "[]" "[]" rs]
  by (auto simp: Import_def Let_def split: if_splits option.splits prod.splits dest: append_marker)

lemma protect_inv_step:
  assumes "protect_inv disk (Some db) A" and "open_ok disk' db'" and "knows db' db"
    and "dMarker disk' = dMarker disk \<and> repaired db' = repaired db"
  shows "protect_inv disk' (Some db') A"
  using assms covers_knows by (auto simp: protect_inv_def)

lemma protect_inv_Open:
  assumes "protect_inv disk None A" and "Open locked io disk = (r, disk')"
  shows "protect_inv disk' (case r of Inl _ \<Rightarrow> None | Inr db \<Rightarrow> Some db) A"
  using assms load_closed [of disk A io r disk'] by (auto simp: protect_inv_def Open_def split: if_splits sum.splits)

lemma protect_inv_handled:
  assumes "protect_inv disk (Some db) A" and "RepairHandled removed db disk = (r, db', disk')"
  shows "protect_inv disk' (Some db') A"
proof -
  have "open_ok (disk\<lparr>dMarker := x\<rparr>) (db\<lparr>repaired := n\<rparr>)" if "open_ok disk db" for x n
    using that by (simp add: open_ok_def logs_def)
  moreover have "covers (db\<lparr>repaired := n\<rparr>) A" if "covers db A" for n using that by (simp add: covers_def Lookup_def)
  ultimately show ?thesis using assms by (auto simp: protect_inv_def RepairHandled_def split: if_splits)
qed

lemma protect_inv_closed:
  assumes "protect_inv disk (Some db) A"
  shows "protect_inv disk (Some (Close db)) A" and "protect_inv disk None A"
proof -
  have "open_ok disk (Close db)" using assms
    by (simp add: protect_inv_def open_ok_def Close_def knows_def Lookup_def same_maps_def)
  then show "protect_inv disk (Some (Close db)) A" using assms by (auto simp: protect_inv_def Close_def covers_def Lookup_def)
  show "protect_inv disk None A" using assms open_closed [of disk db A] by (simp add: protect_inv_def)
qed

lemma protect_reachable_inv: "protect_reachable disk odb A \<Longrightarrow> protect_inv disk odb A"
proof (induction rule: protect_reachable.induct)
  case start
  then show ?case by (simp add: protect_inv_def closed_ok_def)
next
  case (opened disk A io db disk')
  then show ?case using protect_inv_Open [of disk A False io "Inr db"] by simp
next
  case (not_opened disk A locked io e disk')
  then show ?case using protect_inv_Open [of disk A locked io "Inl e"] by simp
next
  case (approved disk db A now io sc height h fresh db' disk')
  have ok: "open_ok disk db" using approved.IH by (simp add: protect_inv_def)
  have "protect_inv disk' (Some db') A"
    by (rule protect_inv_step [OF approved.IH Approve_keeps(1,2) [OF approved.hyps(2) ok] Approve_marker [OF approved.hyps(2)]])
  then show ?case using Approve_keeps(3) [OF approved.hyps(2) ok] by (simp add: protect_inv_def covers_def)
next
  case (refused disk db A now io sc height h e db' disk')
  have ok: "open_ok disk db" using refused.IH by (simp add: protect_inv_def)
  show ?case
    by (rule protect_inv_step [OF refused.IH Approve_keeps(1,2) [OF refused.hyps(2) ok] Approve_marker [OF refused.hyps(2)]])
next
  case (raised disk db A now io sc height r db' disk')
  have ok: "open_ok disk db" using raised.IH by (simp add: protect_inv_def)
  show ?case
    by (rule protect_inv_step [OF raised.IH SetWatermark_keeps(1,2) [OF raised.hyps(2) ok] SetWatermark_marker [OF raised.hyps(2)]])
next
  case (merged disk db A order now io rs s db' disk')
  have ok: "open_ok disk db" using merged.IH by (simp add: protect_inv_def)
  note k = Import_keeps [OF merged.hyps(3) ok merged.hyps(2)]
  have "open_ok disk' db'" "knows db' db" using k by simp_all
  then show ?case by (rule protect_inv_step [OF merged.IH _ _ Import_marker [OF merged.hyps(3)]])
next
  case (handled disk db A removed r db' disk')
  then show ?case using protect_inv_handled by blast
qed (simp_all add: protect_inv_closed)

section \<open>Properties\<close>

lemma covers_Lookup: "covers db A \<Longrightarrow> (sc, height, h) \<in> A \<Longrightarrow> Lookup db sc height = Some h"
  by (auto simp: covers_def)

lemma protect_inv_unique:
  assumes "protect_inv disk odb A" and "(sc, height, h) \<in> A" "(sc, height, h') \<in> A"
  shows "h' = h"
proof -
  obtain db where "covers db A"
    using assms(1,2) by (cases odb) (auto simp: protect_inv_def closed_ok_def split: if_splits)
  then have "Some h = Some h'" using covers_Lookup assms(2,3) by metis
  then show ?thesis by simp
qed

text \<open>
  C2. Two different block hashes are never approved for the same height of the same attester key, however often
  the database is opened, stopped or killed and whatever I/O errors the writes meet; while it is open, every
  approval ever given is found by a lookup, and a conflicting approval is refused with \<open>ErrConflict\<close>.
\<close>

theorem never_two_hashes:
  assumes "protect_reachable disk odb A" and "(sc, height, h) \<in> A"
  shows "((sc, height, h') \<in> A \<longrightarrow> h' = h) \<and>
    (case odb of None \<Rightarrow> True
     | Some db \<Rightarrow> Lookup db sc height = Some h \<and>
         (h' \<noteq> h \<and> h' \<noteq> 0 \<longrightarrow> Approve now io db disk sc height h' = (Inl ErrConflict, db, disk)))"
proof -
  note inv = protect_reachable_inv [OF assms(1)]
  have "Lookup db sc height = Some h" if "odb = Some db" for db
    using inv that covers_Lookup [OF _ assms(2)] by (simp add: protect_inv_def)
  then show ?thesis using protect_inv_unique [OF inv assms(2)] by (auto simp: Lookup_def Approve_def split: option.split)
qed

text \<open>
  C8. The database can always be opened again: after any stop, opening with working I/O succeeds, so the log is
  never reported corrupt, every approval given before is found, and writes are possible. When the last line was
  torn or an earlier repair was not handled, the opened database reports it.
\<close>

theorem reopen_finds_approvals:
  assumes "protect_reachable disk None A" and "io_works io"
  shows "\<exists>db disk'. Open False io disk = (Inr db, disk') \<and> \<not> broken db \<and> isOpen db \<and>
    (\<forall>(sc, height, h) \<in> A. Lookup db sc height = Some h) \<and> (repair_due disk \<longrightarrow> 0 < repaired db \<and> dMarker disk' \<noteq> None)"
proof -
  have c: "closed_ok disk A" using protect_reachable_inv [OF assms(1)] by (simp add: protect_inv_def)
  obtain db disk' where "load io disk = (Inr db, disk')" using load_works [OF c assms(2)] by blast
  with load_closed [OF c this] show ?thesis by (auto simp: Open_def covers_def)
qed

text \<open>
  C19. An import is all or nothing: when it is refused or its write fails, the lookups and watermarks are as before;
  when it returns, every imported record is found and every imported watermark is reached, and nothing known
  before is lost.
\<close>

theorem import_all_or_nothing:
  assumes "protect_reachable disk (Some db) A" and "\<And>xs. mset (order xs) = mset xs"
    and "Import now order io db disk rs = (r, db', disk')"
  shows "case r of
      Inl _ \<Rightarrow> map_of (records db') = map_of (records db) \<and> map_of (watermarks db') = map_of (watermarks db)
    | Inr _ \<Rightarrow> (\<forall>e \<in> set rs. if eWatermark e then eHeight e \<le> wm_of db' (export_scope e)
                 else Lookup db' (export_scope e) (eHeight e) = Some (eBlockHash e)) \<and>
        (\<forall>sc height h. Lookup db sc height = Some h \<longrightarrow> Lookup db' sc height = Some h)"
proof -
  have "open_ok disk db" using protect_reachable_inv [OF assms(1)] by (simp add: protect_inv_def)
  from Import_keeps [OF assms(3) this assms(2)] show ?thesis by (auto simp: same_maps_def knows_def split: sum.splits)
qed

end
