(* ===== verification/Protect_Examples.thy ===== *)
theory Protect_Examples
  imports Protect_Life
begin

text \<open>
  One run of the slashing-protection database: it is created, a checkpoint is approved, and the process dies while
  it writes the next approval.
\<close>

definition sample_scope :: Scope where
  "sample_scope = \<lparr>scChainID = 4242, scHub = 11, scAttester = 12\<rparr>"

definition sample_load :: load_io where
  "sample_load = \<lparr>marker_readable = True, openable = True, readable = True, marker_written = True, marker_left = None,
    truncated = True, synced = True, seeked = True\<rparr>"

definition sample_append :: append_io where
  "sample_append = \<lparr>position_known = True, write_ok = True, wrote = 0, sync_ok = True, truncate_ok = True,
    seek_ok = True, resync_ok = True\<rparr>"

definition torn_append :: append_io where
  "torn_append = \<lparr>position_known = True, write_ok = False, wrote = 2, sync_ok = True, truncate_ok = False,
    seek_ok = True, resync_ok = True\<rparr>"

definition sample_disk0 :: Disk where
  "sample_disk0 = \<lparr>dFile = Some [], dMarker = None\<rparr>"

definition sample_line :: string where
  "sample_line = line (record_body sample_scope 256 7 1700000000)"

definition sample_disk1 :: Disk where
  "sample_disk1 = \<lparr>dFile = Some sample_line, dMarker = None\<rparr>"

definition sample_db1 :: DB where
  "sample_db1 = empty_DB\<lparr>records := [((sample_scope, 256), \<lparr>rScope = sample_scope, rHeight = 256, rBlockHash = 7, rTime = 1700000000\<rparr>)]\<rparr>"

definition sample_disk2 :: Disk where
  "sample_disk2 = \<lparr>dFile = Some (sample_line @ ''A1''), dMarker = None\<rparr>"

definition sample_import :: "ExportRecord list" where
  "sample_import =
    [\<lparr>eChainID = 4242, eHub = 11, eAttester = 12, eHeight = 512, eBlockHash = 9, eWatermark = False, eTime = 0\<rparr>,
     \<lparr>eChainID = 4242, eHub = 11, eAttester = 12, eHeight = 300, eBlockHash = 0, eWatermark = True, eTime = 0\<rparr>]"

lemma sample_reachable0: "protect_reachable sample_disk0 (Some empty_DB) {}"
proof (rule protect_reachable.opened [OF protect_reachable.start])
  show "Open False sample_load \<lparr>dFile = None, dMarker = None\<rparr> = (Inr empty_DB, sample_disk0)"
    by (simp add: Open_def load_def sample_load_def sample_disk0_def empty_DB_def)
qed

lemma sample_reachable1: "protect_reachable sample_disk1 (Some sample_db1) {(sample_scope, 256, 7)}"
proof (rule protect_reachable.approved [OF sample_reachable0])
  show "Approve 1700000000 sample_append empty_DB sample_disk0 sample_scope 256 7 = (Inr True, sample_db1, sample_disk1)"
    by (simp add: Approve_def appendDurable_def sample_append_def empty_DB_def sample_disk0_def sample_disk1_def sample_db1_def
        sample_line_def map_put_def)
qed

lemma sample_torn: "take 2 (line (record_body sc height h ts)) = ''A1''"
  by (simp add: line_def record_body_def)

lemma sample_reachable2: "protect_reachable sample_disk2 None {(sample_scope, 256, 7)}"
proof (rule protect_reachable.stopped, rule protect_reachable.refused [OF sample_reachable1])
  show "Approve 1700000300 torn_append sample_db1 sample_disk1 sample_scope 512 8 = (Inl ErrIO, sample_db1\<lparr>broken := True\<rparr>, sample_disk2)"
    by (simp add: Approve_def appendDurable_def torn_append_def sample_db1_def empty_DB_def sample_disk1_def sample_disk2_def sample_torn)
qed

text \<open>\<open>Protect_Life.never_two_hashes\<close> on that run: the other hash is refused for the approved height.\<close>

theorem never_two_hashes_witness:
  "protect_reachable sample_disk1 (Some sample_db1) {(sample_scope, 256, 7)} \<and> Lookup sample_db1 sample_scope 256 = Some 7 \<and>
    Approve 1700000300 sample_append sample_db1 sample_disk1 sample_scope 256 8 = (Inl ErrConflict, sample_db1, sample_disk1)"
  using never_two_hashes [OF sample_reachable1, of sample_scope 256 7 8 1700000300 sample_append] sample_reachable1 by simp

text \<open>\<open>Protect_Life.reopen_finds_approvals\<close> after the crash: the torn line is cut and reported, the approval is found.\<close>

theorem reopen_finds_approvals_witness:
  "\<exists>db disk'. Open False sample_load sample_disk2 = (Inr db, disk') \<and> Lookup db sample_scope 256 = Some 7 \<and> 0 < repaired db"
proof -
  have "repair_due sample_disk2" 
    by (auto simp: repair_due_def sample_disk2_def newline_def dest: arg_cong [of _ _ "of_char :: char \<Rightarrow> nat"])
  moreover have "io_works sample_load" by (simp add: io_works_def sample_load_def)
  ultimately show ?thesis using reopen_finds_approvals [OF sample_reachable2, of sample_load] by auto
qed

text \<open>\<open>Protect_Life.import_all_or_nothing\<close> on a file with a record and a watermark.\<close>

theorem import_all_or_nothing_witness:
  "\<exists>db' disk'. Import 1700000300 (\<lambda>xs. xs) sample_append sample_db1 sample_disk1 sample_import = (Inr 1, db', disk') \<and>
    Lookup db' sample_scope 512 = Some 9 \<and> Lookup db' sample_scope 256 = Some 7 \<and> 300 \<le> wm_of db' sample_scope"
proof -
  let ?i = "Import 1700000300 (\<lambda>xs. xs) sample_append sample_db1 sample_disk1 sample_import"
  have "fst ?i = Inr 1"
    by (simp add: Import_def sample_import_def sample_db1_def empty_DB_def export_scope_def sample_scope_def appendDurable_def
        sample_append_def wm_of_def line_def map_put_def Let_def)
  then obtain db' disk' where i: "?i = (Inr 1, db', disk')" by (metis prod_cases3 fst_conv)
  have "Lookup sample_db1 sample_scope 256 = Some 7" by (simp add: Lookup_def sample_db1_def)
  then show ?thesis using import_all_or_nothing [OF sample_reachable1 _ i] i
    by (simp add: sample_import_def export_scope_def sample_scope_def)
qed

end
