(* ===== verification/Attest.thy ===== *)
theory Attest
  imports Clique_Seal
begin

text \<open>
  The checkpoint attestation of a validator seat (\<open>validator/internal/attest\<close>): the schedule of checkpoints and
  their submission windows, the typed digests that are signed, and the signature format of the hub.

  The schedule is shown to name exactly the last final checkpoint whose window stays open, to return for every
  head, and to accept a wrapped submission margin. The digests determine what was signed unless keccak collides.
\<close>

section \<open>The schedule\<close>

text \<open>Block numbers are \<open>uint64\<close>; sums wrap as in Go. An interval of zero would panic and is refused by \<open>Validate\<close>.\<close>

definition CheckpointInterval :: u64 where "CheckpointInterval = 200"

definition attest_MinDelay :: u64 where "attest_MinDelay = 64"

definition attest_MaxDelay :: u64 where "attest_MaxDelay = 250"

definition DefaultSubmitMargin :: u64 where "DefaultSubmitMargin = 10"

record Schedule =
  Interval :: u64
  MinDelay :: u64
  MaxDelay :: u64
  SubmitMargin :: u64

definition DefaultSchedule :: Schedule where
  "DefaultSchedule = \<lparr>Interval = CheckpointInterval, MinDelay = attest_MinDelay, MaxDelay = attest_MaxDelay,
    SubmitMargin = DefaultSubmitMargin\<rparr>"

datatype schedule_error =
    zeroInterval | minBelowReorgCap u64 | maxLeavesWindow u64 | minNotBelowMax u64 u64 | marginTooLarge u64

definition Validate :: "Schedule \<Rightarrow> schedule_error option" where
  "Validate s =
    (if Interval s = 0 then Some zeroInterval
     else if MinDelay s < attest_MinDelay then Some (minBelowReorgCap (MinDelay s))
     else if MaxDelay s > 255 then Some (maxLeavesWindow (MaxDelay s))
     else if MinDelay s \<ge> MaxDelay s then Some (minNotBelowMax (MinDelay s) (MaxDelay s))
     else if MinDelay s + 1 + SubmitMargin s > MaxDelay s then Some (marginTooLarge (SubmitMargin s))
     else None)"

definition IsCheckpoint :: "Schedule \<Rightarrow> u64 \<Rightarrow> bool" where
  "IsCheckpoint s h \<longleftrightarrow> h > 0 \<and> h mod Interval s = 0"

definition Due :: "Schedule \<Rightarrow> u64 \<Rightarrow> u64 option" where
  "Due s head =
    (if head < MinDelay s then None
     else
       (let h = (head - MinDelay s) div Interval s * Interval s in
        if \<not> IsCheckpoint s h then None
        else if head + 1 + SubmitMargin s > h + MaxDelay s then None
        else Some h))"

partial_function (option) Next_loop :: "Schedule \<Rightarrow> u64 \<Rightarrow> u64 \<Rightarrow> (u64 \<times> u64) option" where
  "Next_loop s head h =
    (if IsCheckpoint s h \<and> h + MinDelay s > head then Some (h, h + MinDelay s) else Next_loop s head (h + Interval s))"

definition Next :: "Schedule \<Rightarrow> u64 \<Rightarrow> (u64 \<times> u64) option" where
  "Next s head = Next_loop s head (head div Interval s * Interval s)"

definition Includable :: "Schedule \<Rightarrow> u64 \<Rightarrow> u64 \<Rightarrow> bool" where
  "Includable s h block \<longleftrightarrow> block \<ge> h + MinDelay s \<and> block \<le> h + MaxDelay s"

definition window_Closed :: "Schedule \<Rightarrow> u64 \<Rightarrow> u64 \<Rightarrow> bool" where
  "window_Closed s h head \<longleftrightarrow> head + 1 > h + MaxDelay s"

section \<open>Digests\<close>

text \<open>Strings are given by their bytes.\<close>

definition ascii :: "string \<Rightarrow> bytes" where
  "ascii s = map of_char s"

definition DomainName :: bytes where "DomainName = ascii ''Ferminux Validator Hub''"

definition DomainVersion :: bytes where "DomainVersion = ascii ''1''"

definition DomainType :: bytes where
  "DomainType = ascii ''EIP712Domain(string name,string version,uint256 chainId,address verifyingContract)''"

definition AttestationType :: bytes where "AttestationType = ascii ''Attestation(uint64 height,bytes32 blockHash)''"

definition AttesterKeyType :: bytes where "AttesterKeyType = ascii ''AttesterKey(address owner,address attester)''"

definition EnodeTag :: bytes where "EnodeTag = ascii ''FMX_VALIDATOR_NODE_V1''"

definition SignatureLength :: nat where "SignatureLength = 65"

record Domain =
  domChainID :: u64
  domHub :: address

text \<open>\<open>word\<close> pads a number to 32 bytes, which are at least its length.\<close>

definition word_bytes :: "nat \<Rightarrow> bytes" where
  "word_bytes x = LeftPadBytes (nat_bytes x) 32"

definition Separator_input :: "crypto \<Rightarrow> Domain \<Rightarrow> bytes" where
  "Separator_input cr d =
    hash_bytes (keccak256 cr DomainType) @ hash_bytes (keccak256 cr DomainName) @ hash_bytes (keccak256 cr DomainVersion) @
    word_bytes (unat (domChainID d)) @ LeftPadBytes (address_bytes (domHub d)) 32"

definition Separator :: "crypto \<Rightarrow> Domain \<Rightarrow> hash" where
  "Separator cr d = keccak256 cr (Separator_input cr d)"

definition StructHash_input :: "crypto \<Rightarrow> u64 \<Rightarrow> hash \<Rightarrow> bytes" where
  "StructHash_input cr height blockHash =
    hash_bytes (keccak256 cr AttestationType) @ word_bytes (unat height) @ hash_bytes blockHash"

definition StructHash :: "crypto \<Rightarrow> u64 \<Rightarrow> hash \<Rightarrow> hash" where
  "StructHash cr height blockHash = keccak256 cr (StructHash_input cr height blockHash)"

definition typed_input :: "crypto \<Rightarrow> Domain \<Rightarrow> hash \<Rightarrow> bytes" where
  "typed_input cr d structHash = [0x19, 0x01] @ hash_bytes (Separator cr d) @ hash_bytes structHash"

definition typed :: "crypto \<Rightarrow> Domain \<Rightarrow> hash \<Rightarrow> hash" where
  "typed cr d structHash = keccak256 cr (typed_input cr d structHash)"

definition Digest :: "crypto \<Rightarrow> Domain \<Rightarrow> u64 \<Rightarrow> hash \<Rightarrow> hash" where
  "Digest cr d height blockHash = typed cr d (StructHash cr height blockHash)"

definition AttesterKey_input :: "crypto \<Rightarrow> address \<Rightarrow> address \<Rightarrow> bytes" where
  "AttesterKey_input cr owner attester =
    hash_bytes (keccak256 cr AttesterKeyType) @ LeftPadBytes (address_bytes owner) 32 @ LeftPadBytes (address_bytes attester) 32"

definition AttesterKeyDigest :: "crypto \<Rightarrow> Domain \<Rightarrow> address \<Rightarrow> address \<Rightarrow> hash" where
  "AttesterKeyDigest cr d owner attester = typed cr d (keccak256 cr (AttesterKey_input cr owner attester))"

definition Enode_input :: "Domain \<Rightarrow> address \<Rightarrow> address \<Rightarrow> bytes" where
  "Enode_input d owner attester =
    EnodeTag @ word_bytes (unat (domChainID d)) @ address_bytes (domHub d) @ address_bytes owner @ address_bytes attester"

definition EnodeDigest :: "crypto \<Rightarrow> Domain \<Rightarrow> address \<Rightarrow> address \<Rightarrow> hash" where
  "EnodeDigest cr d owner attester = keccak256 cr (Enode_input d owner attester)"

section \<open>Signatures\<close>

text \<open>
  \<open>crypto.Sign\<close> with the private key is the argument \<open>sign\<close>, which is \<open>None\<close> when it fails; a missing key is \<open>None\<close>
  as an argument. It returns \<open>r\<close>, \<open>s\<close> and the recovery bit in 65 bytes.
\<close>

datatype attest_error = nilKey | errSign | badLength nat | badV u8 | badRS | highS | errSigToPub

definition secp256k1N :: nat where
  "secp256k1N = 0xfffffffffffffffffffffffffffffffebaaedce6af48a03bbfd25e8cd0364141"

definition secp256k1HalfN :: nat where "secp256k1HalfN = secp256k1N div 2"

definition SignDigest :: "(hash \<Rightarrow> bytes option) option \<Rightarrow> hash \<Rightarrow> attest_error + bytes" where
  "SignDigest key digest =
    (case key of None \<Rightarrow> Inl nilKey
     | Some sign \<Rightarrow> (case sign digest of None \<Rightarrow> Inl errSign | Some sig \<Rightarrow> Inr (sig[64 := sig ! 64 + 27])))"

definition RecoverDigest :: "crypto \<Rightarrow> hash \<Rightarrow> bytes \<Rightarrow> attest_error + address" where
  "RecoverDigest cr digest sig =
    (if length sig \<noteq> SignatureLength then Inl (badLength (length sig))
     else
       (let v = (if sig ! 64 < 27 then sig ! 64 + 27 else sig ! 64) in
        if v \<noteq> 27 \<and> v \<noteq> 28 then Inl (badV (sig ! 64))
        else
          (let r = be_nat (take 32 sig); s = be_nat (take 32 (drop 32 sig)) in
           if r = 0 \<or> s = 0 \<or> r \<ge> secp256k1N then Inl badRS
           else if s > secp256k1HalfN then Inl highS
           else (case Ecrecover cr digest (sig[64 := v - 27]) of None \<Rightarrow> Inl errSigToPub
                 | Some pub \<Rightarrow> Inr (pubkey_address cr pub)))))"

definition attest_Sign :: "crypto \<Rightarrow> Domain \<Rightarrow> (hash \<Rightarrow> bytes option) option \<Rightarrow> u64 \<Rightarrow> hash \<Rightarrow> attest_error + bytes" where
  "attest_Sign cr d key height blockHash = SignDigest key (Digest cr d height blockHash)"

definition attest_Recover :: "crypto \<Rightarrow> Domain \<Rightarrow> u64 \<Rightarrow> hash \<Rightarrow> bytes \<Rightarrow> attest_error + address" where
  "attest_Recover cr d height blockHash sig = RecoverDigest cr (Digest cr d height blockHash) sig"

definition SignAttesterKey ::
  "crypto \<Rightarrow> Domain \<Rightarrow> (hash \<Rightarrow> bytes option) \<Rightarrow> bytes \<Rightarrow> address \<Rightarrow> attest_error + bytes" where
  "SignAttesterKey cr d sign pub owner = SignDigest (Some sign) (AttesterKeyDigest cr d owner (pubkey_address cr pub))"

definition SignEnode ::
  "crypto \<Rightarrow> Domain \<Rightarrow> (hash \<Rightarrow> bytes option) option \<Rightarrow> bytes \<Rightarrow> address \<Rightarrow> address \<Rightarrow> attest_error + bytes \<times> bytes" where
  "SignEnode cr d key pub owner attester =
    (case SignDigest key (EnodeDigest cr d owner attester) of Inl e \<Rightarrow> Inl e | Inr sig \<Rightarrow> Inr (drop 1 pub, sig))"

section \<open>The schedule names the open checkpoint\<close>

lemma u64_add: "unat a + unat b < 2 ^ 64 \<Longrightarrow> unat (a + b) = unat a + unat b" for a b :: u64
  by (simp add: unat_word_ariths)

lemma u64_sub: "b \<le> a \<Longrightarrow> unat (a - b) = unat a - unat b" for a b :: u64
  by (rule unat_sub)

lemma u64_floor: "unat (a div b * b) = unat a div unat b * unat b" for a b :: u64
proof -
  have "unat a div unat b * unat b \<le> unat a" by simp
  also have "\<dots> < 2 ^ 64" using unat_u64_less [of a] by simp
  finally have "unat a div unat b * unat b < 2 ^ 64" .
  then show ?thesis by (simp add: unat_word_ariths(2) unat_div)
qed

lemma Validate_bounds:
  assumes "Validate s = None" and "unat (SubmitMargin s) < 2 ^ 63"
  shows "0 < unat (Interval s)" and "64 \<le> unat (MinDelay s)" and "unat (MaxDelay s) \<le> 255"
    and "unat (MinDelay s) + 1 + unat (SubmitMargin s) \<le> unat (MaxDelay s)"
proof -
  have v: "Interval s \<noteq> 0" "attest_MinDelay \<le> MinDelay s" "MaxDelay s \<le> 255" "MinDelay s < MaxDelay s"
    "MinDelay s + 1 + SubmitMargin s \<le> MaxDelay s"
    using assms(1) by (auto simp: Validate_def not_less split: if_splits)
  show "0 < unat (Interval s)" using v(1) by (simp add: unat_gt_0)
  show "64 \<le> unat (MinDelay s)" using v(2) by (simp add: word_le_nat_alt attest_MinDelay_def)
  show m: "unat (MaxDelay s) \<le> 255" using v(3) by (simp add: word_le_nat_alt)
  have lt: "unat (MinDelay s) < unat (MaxDelay s)" using v(4) by (simp add: word_less_nat_alt)
  have one: "unat (MinDelay s + 1) = unat (MinDelay s) + 1" using lt m by (subst u64_add) simp_all
  have "unat (MinDelay s + 1 + SubmitMargin s) = unat (MinDelay s) + 1 + unat (SubmitMargin s)"
    using lt m assms(2) one by (subst u64_add) simp_all
  then show "unat (MinDelay s) + 1 + unat (SubmitMargin s) \<le> unat (MaxDelay s)" using v(5) by (simp add: word_le_nat_alt)
qed

lemma IsCheckpoint_nat: "IsCheckpoint s h \<longleftrightarrow> 0 < unat h \<and> unat (Interval s) dvd unat h"
proof -
  have "h mod Interval s = 0 \<longleftrightarrow> unat (h mod Interval s) = 0" using unat_eq_zero by metis
  then show ?thesis by (simp add: IsCheckpoint_def unat_mod mod_eq_0_iff_dvd word_less_nat_alt)
qed

lemma floor_greatest:
  fixes n k m :: nat
  assumes "0 < k" and "k dvd m" and "m \<le> n"
  shows "m \<le> n div k * k"
  using div_le_mono [OF assms(3), of k] assms(2) by (metis dvd_div_mult_self mult_le_mono1)

lemma Due_nat:
  assumes "Validate s = None" and "unat (SubmitMargin s) < 2 ^ 63" and "unat head < 2 ^ 63"
  shows "Due s head = Some h \<longleftrightarrow>
    unat (MinDelay s) \<le> unat head \<and> unat h = (unat head - unat (MinDelay s)) div unat (Interval s) * unat (Interval s) \<and>
    0 < unat h \<and> unat head + 1 + unat (SubmitMargin s) \<le> unat h + unat (MaxDelay s)"
proof (cases "head < MinDelay s")
  case True
  then show ?thesis by (simp add: Due_def word_less_nat_alt)
next
  case False
  define g where "g = (head - MinDelay s) div Interval s * Interval s"
  have le: "unat (MinDelay s) \<le> unat head" using False by (simp add: word_less_nat_alt not_less)
  have g: "unat g = (unat head - unat (MinDelay s)) div unat (Interval s) * unat (Interval s)"
    using False by (simp add: g_def u64_floor u64_sub not_less)
  then have g_le: "unat g \<le> unat head" using div_times_less_eq_dividend [of "unat head - unat (MinDelay s)" "unat (Interval s)"] by linarith
  note b = Validate_bounds [OF assms(1,2)]
  have "unat (g + MaxDelay s) = unat g + unat (MaxDelay s)" using g_le assms(3) b(3) by (intro u64_add) simp
  moreover have "unat (head + 1) = unat head + 1" using assms(3) by (subst u64_add) simp_all
  then have "unat (head + 1 + SubmitMargin s) = unat head + 1 + unat (SubmitMargin s)"
    using assms(2,3) by (subst u64_add) simp_all
  ultimately have c: "head + 1 + SubmitMargin s > g + MaxDelay s \<longleftrightarrow> \<not> unat head + 1 + unat (SubmitMargin s) \<le> unat g + unat (MaxDelay s)"
    by (simp only: word_less_nat_alt not_le)
  have "IsCheckpoint s g \<longleftrightarrow> 0 < unat g" by (simp add: IsCheckpoint_nat g)
  then have "Due s head = (if 0 < unat g \<and> unat head + 1 + unat (SubmitMargin s) \<le> unat g + unat (MaxDelay s) then Some g else None)"
    using False c by (simp add: Due_def Let_def g_def [symmetric])
  then show ?thesis unfolding g [symmetric] using le by (auto simp: word_unat_eq_iff)
qed

text \<open>
  C20. Under a validated schedule, with margin and head below \<open>2^63\<close>, the checkpoint that is due at a head is the last one
  that lies at least \<open>MinDelay\<close> (64 or more) blocks below the head, provided that the next block leaves
  \<open>SubmitMargin\<close> blocks before its window ends; nothing is due otherwise.
\<close>

theorem Due_exact:
  assumes "Validate s = None" and "unat (SubmitMargin s) < 2 ^ 63" and "unat head < 2 ^ 63"
  shows "Due s head = Some h \<longleftrightarrow>
    IsCheckpoint s h \<and> unat h + unat (MinDelay s) \<le> unat head \<and> unat head + 1 + unat (SubmitMargin s) \<le> unat h + unat (MaxDelay s) \<and>
    (\<forall>h'. IsCheckpoint s h' \<and> unat h' + unat (MinDelay s) \<le> unat head \<longrightarrow> h' \<le> h)"
  (is "_ \<longleftrightarrow> ?R")
proof -
  let ?I = "unat (Interval s)"
  let ?d = "unat head - unat (MinDelay s)"
  have I: "0 < ?I" by (rule Validate_bounds(1) [OF assms(1,2)])
  have fl: "?d div ?I * ?I \<le> ?d" by simp
  show ?thesis
  proof
    assume "Due s head = Some h"
    then have h: "unat (MinDelay s) \<le> unat head" "unat h = ?d div ?I * ?I" "0 < unat h"
      "unat head + 1 + unat (SubmitMargin s) \<le> unat h + unat (MaxDelay s)"
      using Due_nat [OF assms] by blast+
    have "unat h + unat (MinDelay s) \<le> unat head" using h(1,2) fl by linarith
    moreover have "h' \<le> h" if "IsCheckpoint s h' \<and> unat h' + unat (MinDelay s) \<le> unat head" for h'
    proof -
      have "unat h' \<le> ?d" "?I dvd unat h'" using that by (auto simp: IsCheckpoint_nat)
      then show ?thesis using floor_greatest [OF I, of "unat h'" ?d] h(2) by (simp add: word_le_nat_alt)
    qed
    moreover have "IsCheckpoint s h" using h(2,3) by (simp add: IsCheckpoint_nat)
    ultimately show ?R using h(4) by blast
  next
    assume r: ?R
    define g where "g = (word_of_nat (?d div ?I * ?I) :: u64)"
    have "?d div ?I * ?I \<le> unat head" using fl by linarith
    also have "\<dots> < 2 ^ 64" using assms(3) by simp
    finally have g: "unat g = ?d div ?I * ?I" unfolding g_def by (rule word64_of_nat)
    have le: "unat h \<le> ?d div ?I * ?I" using r by (intro floor_greatest [OF I]) (auto simp: IsCheckpoint_nat)
    have "0 < unat h" using r by (simp add: IsCheckpoint_nat)
    then have "0 < unat g" using le unfolding g by linarith
    then have "IsCheckpoint s g" using g by (simp add: IsCheckpoint_nat)
    moreover have "unat g + unat (MinDelay s) \<le> unat head" using g fl r by linarith
    ultimately have "g \<le> h" using r by blast
    then have "unat h = ?d div ?I * ?I" using le g by (simp add: word_le_nat_alt)
    then show "Due s head = Some h" using Due_nat [OF assms] r \<open>0 < unat h\<close> by simp
  qed
qed

theorem Due_exact_witness:
  "Due DefaultSchedule 464 = Some 400 \<and> IsCheckpoint DefaultSchedule 400 \<and>
    unat (400 :: u64) + unat (MinDelay DefaultSchedule) \<le> unat (464 :: u64)"
proof -
  have "Due DefaultSchedule 464 = Some 400" by code_simp
  moreover have "Validate DefaultSchedule = None" by code_simp
  moreover have "unat (SubmitMargin DefaultSchedule) < 2 ^ 63" by (simp add: DefaultSchedule_def DefaultSubmitMargin_def)
  ultimately show ?thesis using Due_exact [of DefaultSchedule 464 400] by simp
qed

lemma Due_exact_nat:
  assumes "Validate s = None" and "unat (SubmitMargin s) < 2 ^ 63" and "unat head < 2 ^ 63" and "Due s head = Some h"
  shows "unat h + unat (MinDelay s) \<le> unat head \<and> unat head + 1 + unat (SubmitMargin s) \<le> unat h + unat (MaxDelay s)"
proof -
  have r: "unat (MinDelay s) \<le> unat head" "unat h = (unat head - unat (MinDelay s)) div unat (Interval s) * unat (Interval s)"
    "unat head + 1 + unat (SubmitMargin s) \<le> unat h + unat (MaxDelay s)"
    using Due_nat [OF assms(1-3)] assms(4) by blast+
  then have "unat h \<le> unat head - unat (MinDelay s)" using div_times_less_eq_dividend by simp
  then show ?thesis using r by linarith
qed

lemma Due_includable:
  assumes "Validate s = None" and "unat (SubmitMargin s) < 2 ^ 63" and "unat head < 2 ^ 63" and "Due s head = Some h"
  shows "Includable s h (head + 1)" and "\<not> window_Closed s h head"
proof -
  have r: "unat h + unat (MinDelay s) \<le> unat head" "unat head + 1 + unat (SubmitMargin s) \<le> unat h + unat (MaxDelay s)"
    using Due_exact_nat [OF assms] by blast+
  note b = Validate_bounds [OF assms(1,2)]
  have "unat (head + 1) = unat head + 1" using assms(3) by (subst u64_add) simp_all
  moreover have "unat (h + MinDelay s) = unat h + unat (MinDelay s)" using r assms(3) by (intro u64_add) simp
  moreover have "unat (h + MaxDelay s) = unat h + unat (MaxDelay s)" using r assms(3) b(3) by (intro u64_add) simp
  ultimately show "Includable s h (head + 1)" "\<not> window_Closed s h head"
    using r by (simp_all add: Includable_def window_Closed_def word_le_nat_alt not_less)
qed

lemma Next_loop_hit: "IsCheckpoint s h \<Longrightarrow> head < h + MinDelay s \<Longrightarrow> Next_loop s head h = Some (h, h + MinDelay s)"
  by (simp add: Next_loop.simps)

lemma Next_loop_miss: "\<not> (IsCheckpoint s h \<and> head < h + MinDelay s) \<Longrightarrow> Next_loop s head h = Next_loop s head (h + Interval s)"
  by (subst Next_loop.simps) auto

lemma dvd_below:
  fixes a b k :: nat
  assumes "k dvd a" and "k dvd b" and "a < b"
  shows "a + k \<le> b"
proof -
  have "k dvd b - a" "0 < b - a" using assms by (simp_all add: dvd_diff_nat)
  then have "k \<le> b - a" by (rule dvd_imp_le)
  then show ?thesis using assms(3) by simp
qed

text \<open>
  C34. The loop that looks for the next checkpoint ends. For a validated schedule, with the margin
  below \<open>2^63\<close> and interval and head below \<open>2^62\<close>, it returns a checkpoint whose signing opens after
  the head, with the head at which it opens: the first such checkpoint from the last multiple of
  the interval not above the head, and the first of all when the delay is at most the interval.
\<close>

theorem Next_returns:
  assumes "Validate s = None" and "unat (SubmitMargin s) < 2 ^ 63"
    and "unat (Interval s) < 2 ^ 62" and "unat head < 2 ^ 62"
  shows "\<exists>c opens. Next s head = Some (c, opens) \<and> IsCheckpoint s c \<and> unat opens = unat c + unat (MinDelay s) \<and> unat head < unat opens \<and>
    head div Interval s * Interval s \<le> c \<and>
    (\<forall>c'. IsCheckpoint s c' \<and> unat head < unat c' + unat (MinDelay s) \<and>
      (MinDelay s \<le> Interval s \<or> head div Interval s * Interval s \<le> c') \<longrightarrow> c \<le> c')"
proof -
  let ?I = "unat (Interval s)" and ?m = "unat (MinDelay s)"
  note b = Validate_bounds [OF assms(1,2)]
  define h where "h = head div Interval s * Interval s"
  let ?first = "\<lambda>c'. IsCheckpoint s c' \<and> unat head < unat c' + ?m \<and> (MinDelay s \<le> Interval s \<or> h \<le> c')"
  have h: "unat h = unat head div ?I * ?I" by (simp add: h_def u64_floor)
  have le: "unat h \<le> unat head" by (simp add: h)
  have up: "unat head < unat h + ?I" using b(1) dividend_less_div_times [of ?I "unat head"] by (simp add: h)
  have m: "?m < 256" using b(3,4) by simp
  have hm: "unat (h + MinDelay s) = unat h + ?m" using le assms(4) m by (intro u64_add) simp
  have hi: "unat (h + Interval s) = unat h + ?I" using le assms(3,4) by (intro u64_add) simp
  have him: "unat (h + Interval s + MinDelay s) = unat h + ?I + ?m" using le assms(3,4) m hi by (subst u64_add) simp_all
  have I: "?I dvd unat h" by (simp add: h)
  have early: "unat h \<le> unat c'" if "?first c'" for c'
  proof (rule ccontr)
    assume "\<not> unat h \<le> unat c'"
    then have "MinDelay s \<le> Interval s" "unat c' < unat h" using that by (auto simp: word_le_nat_alt)
    then show False using dvd_below [OF _ I, of "unat c'"] that le by (simp add: IsCheckpoint_nat word_le_nat_alt)
  qed
  show ?thesis unfolding h_def [symmetric]
  proof (cases "IsCheckpoint s h \<and> unat head < unat h + ?m")
    case True
    then have "Next s head = Some (h, h + MinDelay s)"
      using hm by (simp add: Next_def h_def [symmetric] Next_loop_hit word_less_nat_alt)
    then show "\<exists>c opens. Next s head = Some (c, opens) \<and> IsCheckpoint s c \<and> unat opens = unat c + ?m \<and> unat head < unat opens \<and>
      h \<le> c \<and> (\<forall>c'. ?first c' \<longrightarrow> c \<le> c')" using True hm early by (auto simp: word_le_nat_alt)
  next
    case False
    have c: "IsCheckpoint s (h + Interval s)" using hi I b(1) by (simp add: IsCheckpoint_nat)
    have "Next s head = Next_loop s head (h + Interval s)"
      using False hm by (simp add: Next_def h_def [symmetric] Next_loop_miss word_less_nat_alt)
    also have "\<dots> = Some (h + Interval s, h + Interval s + MinDelay s)"
      using c him up by (intro Next_loop_hit) (simp_all add: word_less_nat_alt)
    finally have n: "Next s head = Some (h + Interval s, h + Interval s + MinDelay s)" .
    have "h + Interval s \<le> c'" if c': "?first c'" for c'
    proof -
      have "unat c' \<noteq> unat h" using False c' by (metis word_unat_eq_iff)
      then have "unat h < unat c'" using early [OF c'] by simp
      then show ?thesis using dvd_below [OF I, of "unat c'"] c' hi by (simp add: IsCheckpoint_nat word_le_nat_alt)
    qed
    then show "\<exists>c opens. Next s head = Some (c, opens) \<and> IsCheckpoint s c \<and> unat opens = unat c + ?m \<and> unat head < unat opens \<and>
      h \<le> c \<and> (\<forall>c'. ?first c' \<longrightarrow> c \<le> c')" using n c him hi up by (auto simp: word_le_nat_alt)
  qed
qed

theorem Next_returns_witness:
  "\<exists>c opens. Next DefaultSchedule 400 = Some (c, opens) \<and> IsCheckpoint DefaultSchedule c \<and> 400 < unat opens"
proof -
  have "Validate DefaultSchedule = None" "unat (SubmitMargin DefaultSchedule) < 2 ^ 63" "unat (Interval DefaultSchedule) < 2 ^ 62"
    by (simp_all add: Validate_def DefaultSchedule_def CheckpointInterval_def attest_MinDelay_def attest_MaxDelay_def DefaultSubmitMargin_def)
  then show ?thesis using Next_returns [of DefaultSchedule 400] by fastforce
qed

lemma u64_wrap: "2 ^ 64 \<le> unat a + unat b \<Longrightarrow> unat (a + b) = unat a + unat b - 2 ^ 64" for a b :: u64
  using unat_u64_less [of a] unat_u64_less [of b] by (simp add: unat_word_ariths le_mod_geq)

text \<open>
  C38. \<open>Validate\<close> adds the submission margin in 64 bits. Of a schedule that passes the other checks it accepts
  exactly the margins that leave time to submit and those for which the sum wraps. With a margin
  of the second kind, and an interval larger than the window, \<open>Due\<close> names every checkpoint at the
  last head of its window, when the next block has already left it.
\<close>

theorem Validate_accepts_wrapped_margin:
  assumes "0 < Interval s" and "64 \<le> MinDelay s" and "MinDelay s < MaxDelay s" and "MaxDelay s \<le> 255"
  shows "(Validate s = None \<longleftrightarrow>
      unat (MinDelay s) + 1 + unat (SubmitMargin s) \<le> unat (MaxDelay s) \<or> 2 ^ 64 \<le> unat (MinDelay s) + 1 + unat (SubmitMargin s)) \<and>
    (2 ^ 64 \<le> unat (MinDelay s) + 1 + unat (SubmitMargin s) \<and> unat (MaxDelay s) < unat (Interval s) + unat (MinDelay s) \<and>
      IsCheckpoint s h \<and> unat h + 256 < 2 ^ 64 \<longrightarrow>
      Due s (h + MaxDelay s) = Some h \<and> \<not> Includable s h (h + MaxDelay s + 1))"
proof (intro conjI impI)
  let ?m = "unat (MinDelay s)" and ?x = "unat (MaxDelay s)" and ?g = "unat (SubmitMargin s)" and ?I = "unat (Interval s)"
  have b: "0 < ?I" "64 \<le> ?m" "?m < ?x" "?x \<le> 255" using assms by (simp_all add: word_less_nat_alt word_le_nat_alt)
  have m1: "unat (MinDelay s + 1) = ?m + 1" using b by (subst u64_add) simp_all
  have g: "?g < 2 ^ 64" using unat_u64_less [of "SubmitMargin s"] by simp
  have sum: "unat (MinDelay s + 1 + SubmitMargin s) =
      (if 2 ^ 64 \<le> ?m + 1 + ?g then ?m + 1 + ?g - 2 ^ 64 else ?m + 1 + ?g)"
    using u64_wrap [of "MinDelay s + 1" "SubmitMargin s"] u64_add [of "MinDelay s + 1" "SubmitMargin s"] m1 by auto
  show "Validate s = None \<longleftrightarrow> ?m + 1 + ?g \<le> ?x \<or> 2 ^ 64 \<le> ?m + 1 + ?g"
    using assms sum b g by (auto simp: Validate_def attest_MinDelay_def word_le_nat_alt word_less_nat_alt not_less)
  assume w: "2 ^ 64 \<le> ?m + 1 + ?g \<and> ?x < ?I + ?m \<and> IsCheckpoint s h \<and> unat h + 256 < 2 ^ 64"
  then have c: "0 < unat h" "?I dvd unat h" by (simp_all add: IsCheckpoint_nat)
  have hx: "unat (h + MaxDelay s) = unat h + ?x" using w b by (subst u64_add) simp_all
  have hx1: "unat (h + MaxDelay s + 1) = unat h + ?x + 1" using w b hx by (subst u64_add) simp_all
  have le: "MinDelay s \<le> h + MaxDelay s" using hx b by (simp add: word_le_nat_alt)
  have "unat ((h + MaxDelay s - MinDelay s) div Interval s * Interval s) = (unat h + (?x - ?m)) div ?I * ?I"
    using u64_sub [OF le] hx b by (simp add: u64_floor)
  also have "\<dots> = unat h"
  proof -
    obtain k where k: "unat h = ?I * k" using c(2) ..
    moreover have "?x - ?m < ?I" using w b by linarith
    ultimately show ?thesis by simp
  qed
  finally have fl: "(h + MaxDelay s - MinDelay s) div Interval s * Interval s = h" by (simp add: word_unat_eq_iff)
  have "unat (h + MaxDelay s + 1 + SubmitMargin s) = unat h + ?x + 1 + ?g - 2 ^ 64"
    using u64_wrap [of "h + MaxDelay s + 1" "SubmitMargin s"] hx1 w b by simp
  then have "\<not> h + MaxDelay s < h + MaxDelay s + 1 + SubmitMargin s" using hx g by (simp add: word_less_nat_alt)
  then show "Due s (h + MaxDelay s) = Some h" using le fl w by (simp add: Due_def Let_def)
  show "\<not> Includable s h (h + MaxDelay s + 1)" using hx hx1 by (simp add: Includable_def word_le_nat_alt)
qed

theorem Validate_accepts_wrapped_margin_witness:
  "Validate (DefaultSchedule\<lparr>SubmitMargin := - 60\<rparr>) = None \<and> Due (DefaultSchedule\<lparr>SubmitMargin := - 60\<rparr>) 650 = Some 400 \<and>
    \<not> Includable (DefaultSchedule\<lparr>SubmitMargin := - 60\<rparr>) 400 651"
proof -
  let ?s = "DefaultSchedule\<lparr>SubmitMargin := - 60\<rparr>"
  have s: "Interval ?s = 200" "MinDelay ?s = 64" "MaxDelay ?s = 250" "unat (SubmitMargin ?s) = 2 ^ 64 - 60"
    by (simp_all add: DefaultSchedule_def CheckpointInterval_def attest_MinDelay_def attest_MaxDelay_def)
  then show ?thesis using Validate_accepts_wrapped_margin [of ?s 400] by (simp add: IsCheckpoint_def)
qed

section \<open>What a digest determines\<close>

lemma LeftPad_address_inj: "LeftPadBytes (address_bytes a) 32 = LeftPadBytes (address_bytes b) 32 \<longleftrightarrow> a = b"
proof
  assume "LeftPadBytes (address_bytes a) 32 = LeftPadBytes (address_bytes b) 32"
  then have "be_nat (address_bytes a) = be_nat (address_bytes b)" by (metis be_nat_LeftPadBytes)
  then show "a = b" by (simp add: word_unat_eq_iff)
qed simp

lemma word_bytes_inj: "word_bytes m = word_bytes n \<longleftrightarrow> m = n"
  unfolding word_bytes_def by (metis be_nat_LeftPadBytes be_nat_nat_bytes)

lemma length_word_bytes: "length (word_bytes (unat (n :: u64))) = 32"
  using length_nat_bytes_le [of "unat n" 8] unat_u64_less [of n] by (simp add: word_bytes_def length_LeftPadBytes)

lemma length_LeftPad_address: "length (LeftPadBytes (address_bytes a) 32) = 32"
  by (simp add: length_LeftPadBytes)

lemma Separator_input_inj: "Separator_input cr d = Separator_input cr d' \<longleftrightarrow> d = d'"
  by (cases d; cases d') (auto simp: Separator_input_def length_word_bytes word_bytes_inj LeftPad_address_inj word_unat_eq_iff)

lemma StructHash_input_inj: "StructHash_input cr h x = StructHash_input cr h' x' \<longleftrightarrow> h = h' \<and> x = x'"
  by (auto simp: StructHash_input_def length_word_bytes word_bytes_inj word_unat_eq_iff)

lemma typed_input_inj: "typed_input cr d x = typed_input cr d' x' \<longleftrightarrow> Separator cr d = Separator cr d' \<and> x = x'"
  by (simp add: typed_input_def)

lemma length_typed_input: "length (typed_input cr d x) = 66"
  by (simp add: typed_input_def)

lemma length_Enode_input: "length (Enode_input d owner attester) = 113"
  by (simp add: Enode_input_def EnodeTag_def ascii_def length_word_bytes)

text \<open>The byte strings that are hashed on the way to each digest.\<close>

definition attestation_inputs :: "crypto \<Rightarrow> Domain \<Rightarrow> u64 \<Rightarrow> hash \<Rightarrow> bytes set" where
  "attestation_inputs cr d h x =
    {typed_input cr d (StructHash cr h x), Separator_input cr d, StructHash_input cr h x, AttestationType}"

definition attester_key_inputs :: "crypto \<Rightarrow> Domain \<Rightarrow> address \<Rightarrow> address \<Rightarrow> bytes set" where
  "attester_key_inputs cr d owner attester =
    {typed_input cr d (keccak256 cr (AttesterKey_input cr owner attester)), Separator_input cr d, AttesterKey_input cr owner attester,
     AttesterKeyType}"

lemma type_strings_differ: "AttestationType \<noteq> AttesterKeyType"
  by (simp add: AttestationType_def AttesterKeyType_def ascii_def)

lemma Digest_inj:
  assumes inj: "inj_on (keccak256 cr) (attestation_inputs cr d h x \<union> attestation_inputs cr d' h' x')"
    and eq: "Digest cr d h x = Digest cr d' h' x'"
  shows "d = d' \<and> h = h' \<and> x = x'"
proof -
  note D = inj_onD [OF inj]
  have "typed_input cr d (StructHash cr h x) = typed_input cr d' (StructHash cr h' x')"
    using eq by (intro D) (simp_all add: Digest_def typed_def attestation_inputs_def)
  then have "Separator cr d = Separator cr d'" "StructHash cr h x = StructHash cr h' x'" by (simp_all add: typed_input_inj)
  then have "Separator_input cr d = Separator_input cr d'" "StructHash_input cr h x = StructHash_input cr h' x'"
    by (auto intro!: D simp: Separator_def StructHash_def attestation_inputs_def)
  then show ?thesis by (simp add: Separator_input_inj StructHash_input_inj)
qed

lemma Digest_not_attester_key:
  assumes inj: "inj_on (keccak256 cr) (attestation_inputs cr d h x \<union> attester_key_inputs cr d' owner attester)"
  shows "Digest cr d h x \<noteq> AttesterKeyDigest cr d' owner attester"
proof
  note D = inj_onD [OF inj]
  assume eq: "Digest cr d h x = AttesterKeyDigest cr d' owner attester"
  have "typed_input cr d (StructHash cr h x) = typed_input cr d' (keccak256 cr (AttesterKey_input cr owner attester))"
    using eq by (intro D) (simp_all add: Digest_def AttesterKeyDigest_def typed_def attestation_inputs_def attester_key_inputs_def)
  then have "keccak256 cr (StructHash_input cr h x) = keccak256 cr (AttesterKey_input cr owner attester)"
    by (simp add: typed_input_inj StructHash_def)
  then have "StructHash_input cr h x = AttesterKey_input cr owner attester"
    by (rule D) (simp_all add: attestation_inputs_def attester_key_inputs_def)
  then have "keccak256 cr AttestationType = keccak256 cr AttesterKeyType"
    by (simp add: StructHash_input_def AttesterKey_input_def)
  then have "AttestationType = AttesterKeyType" by (rule D) (simp_all add: attestation_inputs_def attester_key_inputs_def)
  then show False using type_strings_differ by contradiction
qed

lemma Digest_not_enode:
  assumes inj: "inj_on (keccak256 cr) (attestation_inputs cr d h x \<union> {Enode_input d' owner attester})"
  shows "Digest cr d h x \<noteq> EnodeDigest cr d' owner attester"
proof
  assume "Digest cr d h x = EnodeDigest cr d' owner attester"
  then have "typed_input cr d (StructHash cr h x) = Enode_input d' owner attester"
    by (intro inj_onD [OF inj]) (simp_all add: Digest_def EnodeDigest_def typed_def attestation_inputs_def)
  then have "length (typed_input cr d (StructHash cr h x)) = length (Enode_input d' owner attester)" by simp
  then show False by (simp add: length_typed_input length_Enode_input)
qed

text \<open>
  C14. A signed attestation cannot be replayed: unless keccak collides on the byte strings that were hashed, the
  digest of an attestation is that of one chain, one hub, one height and one block hash, and is never the digest
  of either possession proof that opens a seat.
\<close>

theorem attestation_digest_binds:
  assumes "Digest cr d h x = y"
  shows "(Digest cr d' h' x' = y \<longrightarrow> d' = d \<and> h' = h \<and> x' = x \<or>
      \<not> inj_on (keccak256 cr) (attestation_inputs cr d h x \<union> attestation_inputs cr d' h' x')) \<and>
    (AttesterKeyDigest cr d' owner attester = y \<longrightarrow>
      \<not> inj_on (keccak256 cr) (attestation_inputs cr d h x \<union> attester_key_inputs cr d' owner attester)) \<and>
    (EnodeDigest cr d' owner attester = y \<longrightarrow>
      \<not> inj_on (keccak256 cr) (attestation_inputs cr d h x \<union> {Enode_input d' owner attester}))"
  using assms Digest_inj [of cr d h x d' h' x'] Digest_not_attester_key [of cr d h x d' owner attester]
    Digest_not_enode [of cr d h x d' owner attester] by metis

theorem attestation_digest_binds_witness:
  "\<not> inj_on (keccak256 \<lparr>keccak256 = (\<lambda>_. 0), Ecrecover = (\<lambda>_ _. None)\<rparr>)
    (attestation_inputs \<lparr>keccak256 = (\<lambda>_. 0), Ecrecover = (\<lambda>_ _. None)\<rparr> \<lparr>domChainID = 1, domHub = 2\<rparr> 200 5 \<union>
     attestation_inputs \<lparr>keccak256 = (\<lambda>_. 0), Ecrecover = (\<lambda>_ _. None)\<rparr> \<lparr>domChainID = 1, domHub = 2\<rparr> 200 6)"
  using attestation_digest_binds [of "\<lparr>keccak256 = (\<lambda>_. 0), Ecrecover = (\<lambda>_ _. None)\<rparr>" "\<lparr>domChainID = 1, domHub = 2\<rparr>" 200 5 0
      "\<lparr>domChainID = 1, domHub = 2\<rparr>" 200 6]
  by (simp add: Digest_def typed_def)

section \<open>The signature format\<close>

text \<open>
  C32. A signature the sidecar makes is one that its own recovery accepts: when \<open>crypto.Sign\<close> returns 65 bytes with a
  recovery bit of 0 or 1, \<open>r\<close> and \<open>s\<close> in range and \<open>s\<close> in the lower half, the signed attestation recovers to the
  address of the key that the recovery of the raw signature gives. The same \<open>r\<close> with the other root \<open>N - s\<close> is
  refused whatever the last byte.
\<close>

theorem Sign_recovers:
  assumes "sign (Digest cr d height x) = Some raw" and "length raw = 65" and "raw ! 64 = 0 \<or> raw ! 64 = 1"
    and "0 < be_nat (take 32 raw)" "be_nat (take 32 raw) < secp256k1N"
    and "0 < be_nat (take 32 (drop 32 raw))" "be_nat (take 32 (drop 32 raw)) \<le> secp256k1HalfN"
    and "Ecrecover cr (Digest cr d height x) raw = Some pub"
  shows "\<exists>sig. attest_Sign cr d (Some sign) height x = Inr sig \<and> attest_Recover cr d height x sig = Inr (pubkey_address cr pub) \<and>
    (\<forall>sig'. take 32 sig' = take 32 sig \<and> length sig' = 65 \<and>
      be_nat (take 32 (drop 32 sig')) = secp256k1N - be_nat (take 32 (drop 32 sig)) \<longrightarrow>
      (\<exists>e. attest_Recover cr d height x sig' = Inl e))"
proof -
  let ?sig = "raw[64 := raw ! 64 + 27]"
  have s: "attest_Sign cr d (Some sign) height x = Inr ?sig" by (simp add: attest_Sign_def SignDigest_def assms(1))
  have t: "take 32 ?sig = take 32 raw" "take 32 (drop 32 ?sig) = take 32 (drop 32 raw)"
    by (simp_all add: drop_update_swap take_update_cancel)
  have undo: "raw[64 := raw ! 64 + 27 - 27] = raw" by simp
  have v: "\<not> raw ! 64 + 27 < 27" "raw ! 64 + 27 = 27 \<or> raw ! 64 + 27 = 28" using assms(3) by auto
  have r: "attest_Recover cr d height x ?sig = Inr (pubkey_address cr pub)"
    using assms(2,4-8) v undo unfolding attest_Recover_def RecoverDigest_def t
    by (auto simp: SignatureLength_def Let_def)
  have "secp256k1HalfN < secp256k1N - be_nat (take 32 (drop 32 raw))"
    using assms(7) by (simp add: secp256k1HalfN_def secp256k1N_def)
  then have "\<exists>e. attest_Recover cr d height x sig' = Inl e"
    if "length sig' = 65" "be_nat (take 32 (drop 32 sig')) = secp256k1N - be_nat (take 32 (drop 32 ?sig))" for sig'
    using that unfolding attest_Recover_def RecoverDigest_def t by (auto simp: Let_def)
  then show ?thesis using s r by blast
qed

definition sample_word :: bytes where
  "sample_word = replicate 31 0 @ [1]"

definition sample_raw :: bytes where
  "sample_raw = sample_word @ sample_word @ [0]"

definition sample_recovery :: crypto where
  "sample_recovery = \<lparr>keccak256 = (\<lambda>_. 7), Ecrecover = (\<lambda>_ _. Some [4])\<rparr>"

lemma sample_raw_facts:
  "length sample_raw = 65" "sample_raw ! 64 = 0" "take 32 sample_raw = sample_word" "take 32 (drop 32 sample_raw) = sample_word"
proof -
  have "length sample_word = 32" by (simp add: sample_word_def)
  then show "length sample_raw = 65" "sample_raw ! 64 = 0" "take 32 sample_raw = sample_word" "take 32 (drop 32 sample_raw) = sample_word"
    by (simp_all add: sample_raw_def nth_append)
qed

lemma sample_raw_range: "be_nat sample_word = 1" "1 \<le> secp256k1HalfN" "1 < secp256k1N"
  by (simp_all add: sample_word_def secp256k1HalfN_def secp256k1N_def)

lemma sample_recovery_address: "pubkey_address sample_recovery [4] = 7"
  by code_simp

theorem Sign_recovers_witness:
  "\<exists>sig. attest_Sign sample_recovery \<lparr>domChainID = 1, domHub = 2\<rparr> (Some (\<lambda>_. Some sample_raw)) 200 5 = Inr sig \<and>
    attest_Recover sample_recovery \<lparr>domChainID = 1, domHub = 2\<rparr> 200 5 sig = Inr 7"
proof -
  have "Ecrecover sample_recovery h sig = Some [4]" for h sig by (simp add: sample_recovery_def)
  then show ?thesis
    using Sign_recovers [of "\<lambda>_. Some sample_raw" sample_recovery "\<lparr>domChainID = 1, domHub = 2\<rparr>" 200 5 sample_raw "[4]"]
      sample_raw_facts sample_raw_range sample_recovery_address by auto
qed

end
