(* ===== verification/Hub_Evidence.thy ===== *)
theory Hub_Evidence
  imports Attest
begin

text \<open>
  What the validator hub checks of signatures and headers (\<open>agents/contracts/src\<close>): the library \<open>Sig\<close> with the hub's
  digests, and the reader of header preimages in \<open>HeaderRLP.sol\<close> with the check of double-seal evidence.

  The hub's digests are those of the sidecar, the hub recovers what the sidecar's own recovery accepts, and from
  the bytes that a Clique signer signs the reader returns exactly the parent hash and the number of the header.
\<close>

section \<open>The EVM environment\<close>

text \<open>
  Values of type \<open>uint256\<close> are natural numbers. The precompile \<open>ecrecover\<close> returns the zero address on failure; it
  and keccak are parameters.
\<close>

record evm =
  ev_crypto :: crypto
  ecrecover_pre :: "hash \<Rightarrow> nat \<Rightarrow> nat \<Rightarrow> nat \<Rightarrow> address"
  this_address :: address
  chainid :: nat

definition keccak :: "evm \<Rightarrow> bytes \<Rightarrow> hash" where
  "keccak ev b = keccak256 (ev_crypto ev) b"

text \<open>\<open>abi.encode\<close> of static values is the concatenation of 32-byte words.\<close>

definition abi_uint :: "nat \<Rightarrow> bytes" where
  "abi_uint n = be_bytes 32 n"

definition abi_address :: "address \<Rightarrow> bytes" where
  "abi_address a = be_bytes 32 (unat a)"

section \<open>Signatures\<close>

definition Sig_recover :: "evm \<Rightarrow> hash \<Rightarrow> bytes \<Rightarrow> address" where
  "Sig_recover ev digest sig =
    (if length sig \<noteq> 65 then 0
     else
       (let r = be_nat (take 32 sig); s = be_nat (take 32 (drop 32 sig)); v = unat (sig ! 64) in
        if s > 0x7FFFFFFFFFFFFFFFFFFFFFFFFFFFFFFF5D576E7357A4501DDFE92F46681B20A0 then 0
        else
          (let v = (if v < 27 then v + 27 else v) in
           if v \<noteq> 27 \<and> v \<noteq> 28 then 0 else ecrecover_pre ev digest v r s)))"

definition DOMAIN_TYPEHASH :: "evm \<Rightarrow> hash" where
  "DOMAIN_TYPEHASH ev =
    keccak ev (ascii ''EIP712Domain(string name,string version,uint256 chainId,address verifyingContract)'')"

definition Sig_domainSeparator :: "evm \<Rightarrow> bytes \<Rightarrow> bytes \<Rightarrow> address \<Rightarrow> hash" where
  "Sig_domainSeparator ev name version verifyingContract =
    keccak ev (hash_bytes (DOMAIN_TYPEHASH ev) @ hash_bytes (keccak ev name) @ hash_bytes (keccak ev version) @
      abi_uint (chainid ev) @ abi_address verifyingContract)"

definition typedDataHash :: "evm \<Rightarrow> hash \<Rightarrow> hash \<Rightarrow> hash" where
  "typedDataHash ev domain structHash = keccak ev ([0x19, 0x01] @ hash_bytes domain @ hash_bytes structHash)"

definition buildDomain :: "evm \<Rightarrow> hash" where
  "buildDomain ev = Sig_domainSeparator ev (ascii ''Ferminux Validator Hub'') (ascii ''1'') (this_address ev)"

text \<open>The hub keeps the domain of the chain it was deployed on and builds it again after a chain split.\<close>

record hub_domain =
  cachedChainId :: nat
  cachedDomain :: hash

definition domainSeparator :: "evm \<Rightarrow> hub_domain \<Rightarrow> hash" where
  "domainSeparator ev d = (if chainid ev = cachedChainId d then cachedDomain d else buildDomain ev)"

definition ATTESTATION_TYPEHASH :: "evm \<Rightarrow> hash" where
  "ATTESTATION_TYPEHASH ev = keccak ev (ascii ''Attestation(uint64 height,bytes32 blockHash)'')"

definition ATTESTER_KEY_TYPEHASH :: "evm \<Rightarrow> hash" where
  "ATTESTER_KEY_TYPEHASH ev = keccak ev (ascii ''AttesterKey(address owner,address attester)'')"

definition attestationDigest :: "evm \<Rightarrow> hub_domain \<Rightarrow> u64 \<Rightarrow> hash \<Rightarrow> hash" where
  "attestationDigest ev d height blockHash =
    typedDataHash ev (domainSeparator ev d)
      (keccak ev (hash_bytes (ATTESTATION_TYPEHASH ev) @ abi_uint (unat height) @ hash_bytes blockHash))"

definition attesterKeyDigest :: "evm \<Rightarrow> hub_domain \<Rightarrow> address \<Rightarrow> address \<Rightarrow> hash" where
  "attesterKeyDigest ev d seatOwner attester =
    typedDataHash ev (domainSeparator ev d)
      (keccak ev (hash_bytes (ATTESTER_KEY_TYPEHASH ev) @ abi_address seatOwner @ abi_address attester))"

definition enodeDigest :: "evm \<Rightarrow> address \<Rightarrow> address \<Rightarrow> hash" where
  "enodeDigest ev seatOwner attester =
    keccak ev (ascii ''FMX_VALIDATOR_NODE_V1'' @ abi_uint (chainid ev) @ address_bytes (this_address ev) @
      address_bytes seatOwner @ address_bytes attester)"

definition signingKeyDigest :: "evm \<Rightarrow> nat \<Rightarrow> address \<Rightarrow> address \<Rightarrow> hash" where
  "signingKeyDigest ev seatId key seatOwner =
    keccak ev (ascii ''FERMINUX-SIGNKEY-V1'' @ abi_uint (chainid ev) @ address_bytes (this_address ev) @ abi_uint seatId @
      address_bytes key @ address_bytes seatOwner)"

section \<open>Header preimages\<close>

text \<open>Every revert of the reader, an index out of bounds included, is \<open>None\<close>.\<close>

definition header_be :: "bytes \<Rightarrow> nat \<Rightarrow> nat \<Rightarrow> nat option" where
  "header_be b off n =
    (if n > 32 then None
     else if 0 < n \<and> length b < off + n then None
     else Some (be_nat (take n (drop off b))))"

definition header_item :: "bytes \<Rightarrow> nat \<Rightarrow> nat \<Rightarrow> (nat \<times> nat \<times> nat) option" where
  "header_item rlp off ending =
    (if off \<ge> ending then None
     else
       (let b = unat (rlp ! off);
            data = (if b < 0x80 then Some (off, 1)
                    else if b \<le> 0xb7 then Some (off + 1, b - 0x80)
                    else if b \<le> 0xbf then
                      (let ll = b - 0xb7 in
                       if off + 1 + ll > ending then None
                       else (case header_be rlp (off + 1) ll of None \<Rightarrow> None | Some dataLen \<Rightarrow> Some (off + 1 + ll, dataLen)))
                    else None)
        in case data of None \<Rightarrow> None
           | Some (dataOff, dataLen) \<Rightarrow>
             (let nxt = dataOff + dataLen in if nxt > ending then None else Some (dataOff, dataLen, nxt))))"

text \<open>The loop over the items \<open>i\<close> to 8; \<open>n\<close> is the number of items that are left.\<close>

fun header_loop :: "bytes \<Rightarrow> nat \<Rightarrow> nat \<Rightarrow> nat \<Rightarrow> hash \<Rightarrow> nat \<Rightarrow> nat \<Rightarrow> (hash \<times> nat) option" where
  "header_loop rlp len off i parent number 0 = Some (parent, number)"
| "header_loop rlp len off i parent number (Suc n) =
    (case header_item rlp off len of None \<Rightarrow> None
     | Some (dataOff, dataLen, nxt) \<Rightarrow>
       if i = 0 then
         (if dataLen \<noteq> 32 then None
          else header_loop rlp len nxt (i + 1) (bytes_hash (take 32 (drop dataOff rlp))) number n)
       else if i = 8 then
         (case header_be rlp dataOff dataLen of None \<Rightarrow> None
          | Some v \<Rightarrow> header_loop rlp len nxt (i + 1) parent v n)
       else header_loop rlp len nxt (i + 1) parent number n)"

definition parentAndNumber :: "bytes \<Rightarrow> (hash \<times> nat) option" where
  "parentAndNumber rlp =
    (let len = length rlp in
     if len = 0 then None
     else
       (let b0 = unat (rlp ! 0) in
        if b0 < 0xc0 then None
        else
          (let outer = (if b0 \<le> 0xf7 then Some (b0 - 0xc0, 1)
                        else
                          (let ll = b0 - 0xf7 in
                           if 1 + ll > len then None
                           else map_option (\<lambda>payload. (payload, 1 + ll)) (header_be rlp 1 ll)))
           in case outer of None \<Rightarrow> None
              | Some (payload, off) \<Rightarrow> if off + payload \<noteq> len then None else header_loop rlp len off 0 0 0 9)))"

definition SealEvidence_check :: "evm \<Rightarrow> bytes \<Rightarrow> bytes \<Rightarrow> (nat \<times> hash \<times> hash) option" where
  "SealEvidence_check ev preimageA preimageB =
    (case (parentAndNumber preimageA, parentAndNumber preimageB) of
       (Some (parentA, numberA), Some (parentB, numberB)) \<Rightarrow>
         (let sealA = keccak ev preimageA; sealB = keccak ev preimageB in
          if numberA \<noteq> numberB \<or> parentA \<noteq> parentB \<or> sealA = sealB \<or> numberA > 2 ^ 64 - 1 then None
          else Some (numberA, sealA, sealB))
     | _ \<Rightarrow> None)"

section \<open>The hub and the sidecar agree\<close>

lemma abi_uint_word: "n < 2 ^ 256 \<Longrightarrow> abi_uint n = word_bytes n"
proof -
  assume "n < 2 ^ 256"
  then have n: "n < 256 ^ 32" by simp
  have len: "length (word_bytes n) = 32"
    using length_nat_bytes_le [OF n] by (simp add: word_bytes_def length_LeftPadBytes)
  have "be_nat (abi_uint n) = be_nat (word_bytes n)"
    using n by (simp add: abi_uint_def be_nat_be_bytes word_bytes_def)
  then show ?thesis by (intro be_nat_inj) (simp_all add: len abi_uint_def)
qed

lemma abi_address_pad: "abi_address a = LeftPadBytes (address_bytes a) 32"
proof -
  have "unat a < 256 ^ 32" using unsigned_less [of a, where 'a = nat] by simp
  then have "be_nat (abi_address a) = be_nat (LeftPadBytes (address_bytes a) 32)"
    by (simp add: abi_address_def be_nat_be_bytes)
  then show ?thesis by (intro be_nat_inj) (simp_all add: abi_address_def length_LeftPadBytes)
qed

lemma sidecar_domain:
  assumes "chainid ev = unat (domChainID d)" and "this_address ev = domHub d"
  shows "buildDomain ev = Separator (ev_crypto ev) d"
proof -
  have "chainid ev < 2 ^ 256" using assms(1) unat_u64_less [of "domChainID d"] by simp
  then show ?thesis
    using assms by (simp add: buildDomain_def Sig_domainSeparator_def Separator_def Separator_input_def keccak_def DOMAIN_TYPEHASH_def
        DomainType_def DomainName_def DomainVersion_def abi_uint_word abi_address_pad)
qed

lemma u64_word: "abi_uint (unat (n :: u64)) = word_bytes (unat n)"
  using unat_u64_less [of n] by (intro abi_uint_word) simp

text \<open>
  The hub's immutables after its deployment on the chain, and the sidecar's domain of that hub.
\<close>

definition deployed :: "evm \<Rightarrow> hub_domain \<Rightarrow> bool" where
  "deployed ev im \<longleftrightarrow> cachedChainId im = chainid ev \<and> cachedDomain im = buildDomain ev"

text \<open>For a recovery bit of 0 or 1 the precompile, called with 27 or 28, gives the address that the node's own recovery gives.\<close>

definition precompile_ok :: "evm \<Rightarrow> bool" where
  "precompile_ok ev \<longleftrightarrow>
    (\<forall>digest v r s pub. (v = 0 \<or> v = 1) \<and> r < 2 ^ 256 \<and> s < 2 ^ 256 \<and> Ecrecover (ev_crypto ev) digest (be_bytes 32 r @ be_bytes 32 s @ [v]) = Some pub \<longrightarrow>
      ecrecover_pre ev digest (unat v + 27) r s = pubkey_address (ev_crypto ev) pub)"

lemma split_signature:
  assumes "length sig = 65"
  shows "sig[64 := w] = be_bytes 32 (be_nat (take 32 sig)) @ be_bytes 32 (be_nat (take 32 (drop 32 sig))) @ [w]"
proof -
  have sig: "sig = take 32 sig @ take 32 (drop 32 sig) @ [sig ! 64]"
  proof -
    have "drop 64 sig = [sig ! 64]" using assms by (metis Cons_nth_drop_Suc drop_all eval_nat_numeral(3) le_refl lessI semiring_norm(26,27))
    then show ?thesis by (metis append_take_drop_id drop_drop numeral_Bit0)
  qed
  have l: "length (take 32 sig) = 32" "length (take 32 (drop 32 sig)) = 32" using assms by simp_all
  have "sig[64 := w] = take 32 sig @ take 32 (drop 32 sig) @ [w]"
    using l by (subst sig) (simp add: list_update_append)
  then show ?thesis using be_bytes_be_nat [of "take 32 sig"] be_bytes_be_nat [of "take 32 (drop 32 sig)"] l by simp
qed

lemma half_order: "secp256k1HalfN = 0x7FFFFFFFFFFFFFFFFFFFFFFFFFFFFFFF5D576E7357A4501DDFE92F46681B20A0"
  by (simp add: secp256k1HalfN_def secp256k1N_def)

lemma Sig_recover_accepts:
  assumes "precompile_ok ev" and "RecoverDigest (ev_crypto ev) digest sig = Inr a"
  shows "Sig_recover ev digest sig = a"
proof -
  define v where "v = (if sig ! 64 < 27 then sig ! 64 + 27 else sig ! 64)"
  have len: "length sig = 65" and v: "v = 27 \<or> v = 28" and s: "be_nat (take 32 (drop 32 sig)) \<le> secp256k1HalfN"
    and rec: "\<exists>pub. Ecrecover (ev_crypto ev) digest (sig[64 := v - 27]) = Some pub \<and> a = pubkey_address (ev_crypto ev) pub"
    using assms(2) unfolding RecoverDigest_def Let_def v_def [symmetric]
    by (simp_all add: SignatureLength_def split: if_splits option.splits)
  have n: "(if unat (sig ! 64) < 27 then unat (sig ! 64) + 27 else unat (sig ! 64)) = unat v"
  proof (cases "sig ! 64 < 27")
    case True
    then have "unat (sig ! 64) < 27" by (simp add: word_less_nat_alt)
    then show ?thesis using True by (simp add: v_def unat_word_ariths)
  next
    case False
    then show ?thesis by (simp add: v_def word_less_nat_alt)
  qed
  have u: "unat v = unat (v - 27) + 27" "unat v = 27 \<or> unat v = 28" using v by auto
  have "v - 27 = 0 \<or> v - 27 = 1" using v by auto
  moreover have "be_nat (take 32 sig) < 2 ^ 256" "be_nat (take 32 (drop 32 sig)) < 2 ^ 256"
    using be_nat_less [of "take 32 sig"] be_nat_less [of "take 32 (drop 32 sig)"] len by simp_all
  ultimately have "ecrecover_pre ev digest (unat v) (be_nat (take 32 sig)) (be_nat (take 32 (drop 32 sig))) = a"
    using rec assms(1) unfolding u(1) split_signature [OF len] precompile_ok_def by blast
  then show ?thesis using len s n u(2) by (auto simp: Sig_recover_def Let_def half_order)
qed

text \<open>
  C15. The sidecar and the hub agree: on the chain and the hub that the sidecar is configured for, each of the three
  digests of the sidecar is the digest that the deployed hub computes, and a signature that the sidecar's own check
  recovers to an address is recovered by the hub to the same address.
\<close>

theorem hub_agrees_with_sidecar:
  assumes "deployed ev im" and "chainid ev = unat (domChainID d)" and "this_address ev = domHub d" and "precompile_ok ev"
  shows "attestationDigest ev im height x = Digest (ev_crypto ev) d height x \<and>
    attesterKeyDigest ev im owner attester = AttesterKeyDigest (ev_crypto ev) d owner attester \<and>
    enodeDigest ev owner attester = EnodeDigest (ev_crypto ev) d owner attester \<and>
    (attest_Recover (ev_crypto ev) d height x sig = Inr a \<longrightarrow> Sig_recover ev (attestationDigest ev im height x) sig = a)"
proof -
  have dom: "domainSeparator ev im = Separator (ev_crypto ev) d"
    using assms(1) sidecar_domain [OF assms(2,3)] by (simp add: deployed_def domainSeparator_def)
  have a: "attestationDigest ev im height x = Digest (ev_crypto ev) d height x"
    by (simp add: attestationDigest_def dom typedDataHash_def Digest_def typed_def typed_input_def StructHash_def StructHash_input_def
        keccak_def ATTESTATION_TYPEHASH_def AttestationType_def u64_word)
  have "attesterKeyDigest ev im owner attester = AttesterKeyDigest (ev_crypto ev) d owner attester"
    by (simp add: attesterKeyDigest_def dom typedDataHash_def AttesterKeyDigest_def typed_def typed_input_def AttesterKey_input_def
        keccak_def ATTESTER_KEY_TYPEHASH_def AttesterKeyType_def abi_address_pad)
  moreover have "enodeDigest ev owner attester = EnodeDigest (ev_crypto ev) d owner attester"
    using assms(2,3) by (simp add: enodeDigest_def EnodeDigest_def Enode_input_def EnodeTag_def keccak_def u64_word)
  ultimately show ?thesis using a Sig_recover_accepts [OF assms(4)] by (simp add: attest_Recover_def)
qed

text \<open>A hub on a chain whose keccak and recovery are constant, and a signature made with \<open>sample_raw\<close>.\<close>

definition sample_evm :: evm where
  "sample_evm = \<lparr>ev_crypto = sample_recovery, ecrecover_pre = (\<lambda>_ _ _ _. 7), this_address = 2, chainid = 1\<rparr>"

lemma sample_signature_recovers:
  "attest_Recover sample_recovery \<lparr>domChainID = 1, domHub = 2\<rparr> 200 5 sample_raw = Inr 7"
proof -
  have "\<exists>a. RecoverDigest sample_recovery h sample_raw = Inr a \<and> a = pubkey_address sample_recovery [4]" for h
    using sample_raw_facts sample_raw_range
    by (simp add: RecoverDigest_def SignatureLength_def Let_def) (simp add: sample_recovery_def)
  then show ?thesis by (auto simp: attest_Recover_def sample_recovery_address)
qed

theorem hub_agrees_with_sidecar_witness:
  "Sig_recover sample_evm
    (attestationDigest sample_evm \<lparr>cachedChainId = 1, cachedDomain = buildDomain sample_evm\<rparr> 200 5) sample_raw = 7"
proof -
  have "Ecrecover sample_recovery dg sg = Some [4]" for dg sg by (simp add: sample_recovery_def)
  then have "precompile_ok sample_evm" by (simp add: precompile_ok_def sample_evm_def sample_recovery_address)
  moreover have "deployed sample_evm \<lparr>cachedChainId = 1, cachedDomain = buildDomain sample_evm\<rparr>" by (simp add: deployed_def sample_evm_def)
  moreover have "chainid sample_evm = unat (domChainID \<lparr>domChainID = 1, domHub = 2\<rparr>)" "ev_crypto sample_evm = sample_recovery"
    "this_address sample_evm = domHub \<lparr>domChainID = 1, domHub = 2\<rparr>" by (simp_all add: sample_evm_def)
  ultimately show ?thesis
    using hub_agrees_with_sidecar [of sample_evm "\<lparr>cachedChainId = 1, cachedDomain = buildDomain sample_evm\<rparr>"
        "\<lparr>domChainID = 1, domHub = 2\<rparr>" 200 5 0 0 sample_raw 7] sample_signature_recovers
    by metis
qed

section \<open>Reading a signed header\<close>

lemma header_be_at:
  assumes "rlp = pre @ b @ post" and "off = length pre" and "n = length b" and "n \<le> 32"
  shows "header_be rlp off n = Some (be_nat b)"
  using assms by (simp add: header_be_def)

lemma u8_head: "n \<le> 8 \<Longrightarrow> unat (0xB7 + word_of_nat n :: u8) = 0xB7 + n" "n < 56 \<Longrightarrow> unat (0x80 + word_of_nat n :: u8) = 0x80 + n"
  "n < 56 \<Longrightarrow> unat (0xC0 + word_of_nat n :: u8) = 0xC0 + n" "n \<le> 8 \<Longrightarrow> unat (0xF7 + word_of_nat n :: u8) = 0xF7 + n"
  by (simp_all add: unat_word_ariths unat_of_nat)

lemma header_item_string:
  assumes "length b < 2 ^ 64"
  shows "\<exists>dataOff. header_item (pre @ rlp_string b @ post) (length pre) (length (pre @ rlp_string b @ post)) =
      Some (dataOff, length b, length (pre @ rlp_string b)) \<and>
    take (length b) (drop dataOff (pre @ rlp_string b @ post)) = b \<and> dataOff + length b \<le> length (pre @ rlp_string b @ post)"
proof -
  consider "length b = 1 \<and> hd b < 0x80" | "\<not> (length b = 1 \<and> hd b < 0x80)" "length b < 56" | "56 \<le> length b" by fastforce
  then show ?thesis
  proof cases
    case 1
    then obtain x where "b = [x]" "x < 0x80" by (cases b) auto
    then show ?thesis by (simp add: rlp_string_def header_item_def nth_append word_less_nat_alt)
  next
    case 2
    then have s: "rlp_string b = (0x80 + word_of_nat (length b)) # b" by (auto simp: rlp_string_def rlp_head_def)
    show ?thesis
      using u8_head(2) [OF 2(2)] 2(2) by (intro exI [of _ "length pre + 1"]) (simp add: s header_item_def nth_append Let_def)
  next
    case 3
    let ?n = "nat_bytes (length b)"
    have l: "length ?n \<le> 8" "0 < length ?n" using length_nat_bytes_8 [OF assms] 3 by auto
    have s: "rlp_string b = (0xB7 + word_of_nat (length ?n)) # ?n @ b" using 3 by (auto simp: rlp_string_def rlp_head_def)
    have be: "header_be (pre @ rlp_string b @ post) (Suc (length pre)) (length ?n) = Some (length b)"
      using l by (subst header_be_at [of _ "pre @ [0xB7 + word_of_nat (length ?n)]" ?n "b @ post"]) (simp_all add: s)
    show ?thesis
      using u8_head(1) [OF l(1)] l be
      by (intro exI [of _ "length pre + 1 + length ?n"]) (simp add: s header_item_def nth_append Let_def)
  qed
qed

lemma header_loop_strings:
  assumes "n = length bs" and "i + n = 9" and "\<And>b. b \<in> set bs \<Longrightarrow> length b < 2 ^ 64"
    and "i = 0 \<Longrightarrow> length (hd bs) = 32" and "length (bs ! (n - 1)) \<le> 32"
  shows "header_loop (pre @ concat (map rlp_string bs) @ post) (length (pre @ concat (map rlp_string bs) @ post)) (length pre) i parent number n =
    Some (if i = 0 then bytes_hash (hd bs) else parent, if n = 0 then number else be_nat (last bs))"
  using assms
proof (induction bs arbitrary: n i pre parent number)
  case (Cons b bs)
  define rlp where "rlp = pre @ concat (map rlp_string (b # bs)) @ post"
  have rlp: "rlp = pre @ rlp_string b @ (concat (map rlp_string bs) @ post)" by (simp add: rlp_def)
  obtain dataOff where it: "header_item rlp (length pre) (length rlp) = Some (dataOff, length b, length (pre @ rlp_string b))"
    and t: "take (length b) (drop dataOff rlp) = b" "dataOff + length b \<le> length rlp"
    using header_item_string [of b pre "concat (map rlp_string bs) @ post"] Cons.prems(3) unfolding rlp by auto
  obtain k where n: "n = Suc k" "k = length bs" using Cons.prems(1) by simp
  have rest: "header_loop rlp (length rlp) (length (pre @ rlp_string b)) (Suc i) p v k =
      Some (p, if k = 0 then v else be_nat (last bs))" for p v
    using Cons.IH [of k "Suc i" "pre @ rlp_string b" p v] Cons.prems n by (cases bs) (simp_all add: rlp)
  have "header_be rlp dataOff (length b) = Some (be_nat b)" if "length b \<le> 32"
    using that t by (simp add: header_be_def)
  moreover have "length b \<le> 32" if "i = 8" using Cons.prems(2,5) that n by simp
  moreover have "k = 0 \<longleftrightarrow> i = 8" using Cons.prems(2) n by auto
  ultimately show ?case
    using Cons.prems(4) t(1) it rest n unfolding rlp_def [symmetric] by auto
qed simp

definition evidence_strings :: "Header \<Rightarrow> bytes list" where
  "evidence_strings h =
    [hash_bytes (ParentHash h), hash_bytes (UncleHash h), address_bytes (Coinbase h), hash_bytes (Root h), hash_bytes (TxHash h),
     hash_bytes (ReceiptHash h), bloom_bytes (Bloom h), (case Difficulty h of None \<Rightarrow> [] | Some i \<Rightarrow> nat_bytes (nat \<bar>i\<bar>)),
     (case Number h of None \<Rightarrow> [] | Some i \<Rightarrow> nat_bytes (nat \<bar>i\<bar>))]"

lemma header_items_strings: "\<exists>more. header_items h = map Str (evidence_strings h) @ more"
  by (simp add: header_items_def evidence_strings_def bigint_item_def)

lemma parentAndNumber_list:
  assumes "c = concat (map rlp_string bs) @ post" and "length bs = 9" and "length c < 2 ^ 64"
    and "\<And>b. b \<in> set bs \<Longrightarrow> length b < 2 ^ 64" and "length (hd bs) = 32" and "length (bs ! 8) \<le> 32"
  shows "parentAndNumber (rlp_list c) = Some (bytes_hash (hd bs), be_nat (last bs))"
proof -
  have loop: "header_loop (pre @ c) (length (pre @ c)) (length pre) 0 0 0 9 = Some (bytes_hash (hd bs), be_nat (last bs))" for pre
    using header_loop_strings [of 9 bs 0 pre post 0 0] assms(2-6) by (simp add: assms(1))
  show ?thesis
  proof (cases "length c < 56")
    case True
    then have s: "rlp_list c = [0xC0 + word_of_nat (length c)] @ c" by (simp add: rlp_list_def rlp_head_def)
    show ?thesis
      using loop [of "[0xC0 + word_of_nat (length c)]"] u8_head(3) [OF True] True
      unfolding s parentAndNumber_def by (simp add: Let_def)
  next
    case False
    let ?n = "nat_bytes (length c)"
    have l: "length ?n \<le> 8" "0 < length ?n" using length_nat_bytes_8 [OF assms(3)] False by auto
    have s: "rlp_list c = ((0xF7 + word_of_nat (length ?n)) # ?n) @ c" using False by (simp add: rlp_list_def rlp_head_def)
    have be: "header_be (rlp_list c) 1 (length ?n) = Some (length c)"
      using l by (subst header_be_at [of _ "[0xF7 + word_of_nat (length ?n)]" ?n c]) (simp_all add: s)
    show ?thesis
      using loop [of "(0xF7 + word_of_nat (length ?n)) # ?n"] u8_head(4) [OF l(1)] l be
      unfolding s parentAndNumber_def by (simp add: Let_def)
  qed
qed

lemma encodeSigHeader_encoded:
  assumes "SanityCheck h = None" and "encodeSigHeader h = Some p"
  shows "p = rlp_encode (Lst (header_items (unsealed h)))" and "length p < 2 ^ 60"
proof -
  have nn: "opt_nonneg (Difficulty h)" "opt_nonneg (BaseFee h)" and p: "p = EncodeToBytes (Lst (header_items (unsealed h)))"
    using assms(2) by (auto simp: encodeSigHeader_items split: if_splits)
  have "encodable (unsealed h)" by (rule unsealed_encodable [OF assms(1) nn])
  then have l: "length (rlp_encode (Lst (header_items (unsealed h)))) < 2 ^ 60" unfolding encodable_def by blast
  then have "length (rlp_encode (Lst (header_items (unsealed h)))) < 2 ^ 63" by (rule less_trans) simp
  then show p': "p = rlp_encode (Lst (header_items (unsealed h)))" unfolding p EncodeToBytes_def by (rule makeBytes_write_item)
  show "length p < 2 ^ 60" using l by (simp only: p')
qed

lemma parentAndNumber_signed:
  assumes "SanityCheck h = None" and "encodeSigHeader h = Some p" and "Number h = Some n"
  shows "parentAndNumber p = Some (ParentHash h, nat n)" and "0 \<le> n" and "nat n < 2 ^ 64"
proof -
  show n: "0 \<le> n" using assms(2,3) by (auto simp: encodeSigHeader_def opt_nonneg_def split: if_splits)
  have "n < 2 ^ 64" using assms(1,3) by (simp add: SanityCheck_None_iff IsUint64_def)
  then show small: "nat n < 2 ^ 64" using n by (simp add: nat_less_iff)
  define bs where "bs = evidence_strings (unsealed h)"
  obtain more where more: "header_items (unsealed h) = map Str bs @ more" using header_items_strings unfolding bs_def by blast
  define c where "c = concat (map rlp_string bs) @ concat (map rlp_encode more)"
  have p: "p = rlp_list c"
    using encodeSigHeader_encoded(1) [OF assms(1,2)] by (simp add: more c_def comp_def)
  have c: "length c < 2 ^ 60" using encodeSigHeader_encoded(2) [OF assms(1,2)] unfolding p by (simp add: rlp_list_def)
  have b: "length b < 2 ^ 64" if "b \<in> set bs" for b
  proof -
    have "length b \<le> length (rlp_string b)" by (simp add: rlp_string_def)
    also have "\<dots> \<le> length (concat (map rlp_string bs))"
      using that by (simp add: length_concat member_le_sum_list o_def)
    finally show ?thesis using c by (simp add: c_def)
  qed
  have "length (bs ! 8) \<le> 32" using length_nat_bytes_8 [OF small] n assms(3) by (simp add: bs_def evidence_strings_def unsealed_def)
  then have "parentAndNumber p = Some (bytes_hash (hd bs), be_nat (last bs))"
    unfolding p using b c by (intro parentAndNumber_list) (simp_all add: c_def bs_def evidence_strings_def)
  then show "parentAndNumber p = Some (ParentHash h, nat n)"
    using assms(3) n by (simp add: bs_def evidence_strings_def unsealed_def bytes_hash_def)
qed

text \<open>
  C21. The hub reads double-seal evidence as the consensus engine wrote it: from the bytes that two Clique signers
  signed for sane headers, the check accepts exactly when the headers have the same number and the same parent
  and different seal hashes, and it returns that number and the two hashes that \<open>clique.SealHash\<close> gives.
\<close>

theorem seal_evidence_exact:
  assumes "SanityCheck a = None" and "encodeSigHeader a = Some pa" and "Number a = Some na"
    and "SanityCheck b = None" and "encodeSigHeader b = Some pb" and "Number b = Some nb"
  shows "SealEvidence_check ev pa pb =
    (if na = nb \<and> ParentHash a = ParentHash b \<and> SealHash (ev_crypto ev) a \<noteq> SealHash (ev_crypto ev) b
     then Some (nat na, the (SealHash (ev_crypto ev) a), the (SealHash (ev_crypto ev) b)) else None)"
proof -
  note pa = parentAndNumber_signed [OF assms(1-3)] and pb = parentAndNumber_signed [OF assms(4-6)]
  have "nat na = nat nb \<longleftrightarrow> na = nb" using pa(2) pb(2) by auto
  moreover have "\<not> nat na > 2 ^ 64 - 1" using pa(3) by simp
  ultimately show ?thesis
    by (simp add: SealEvidence_check_def pa(1) pb(1) SealHash_def assms(2,5) keccak_def Let_def)
qed

text \<open>Two signed headers of block 7 on one parent, which differ in their state root.\<close>

definition rival_header :: Header where
  "rival_header = (sample_header 7)\<lparr>Root := 9\<rparr>"

lemma rivals_sane: "SanityCheck (sample_header 7) = None" "SanityCheck rival_header = None"
proof -
  have "BitLen 2 \<le> 80" "BitLen 1000 \<le> 256" unfolding BitLen_le_iff by simp_all
  then show "SanityCheck (sample_header 7) = None" "SanityCheck rival_header = None"
    by (auto simp: SanityCheck_def sample_header_def rival_header_def IsUint64_def)
qed

lemma rivals_signed:
  obtains pa pb where "encodeSigHeader (sample_header 7) = Some pa" and "encodeSigHeader rival_header = Some pb" and "pa \<noteq> pb"
proof -
  obtain pa pb where p: "encodeSigHeader (sample_header 7) = Some pa" "encodeSigHeader rival_header = Some pb"
    by (simp add: encodeSigHeader_items sample_header_def rival_header_def extraSeal_def opt_nonneg_def)
  note a = encodeSigHeader_encoded [OF rivals_sane(1) p(1)] and b = encodeSigHeader_encoded [OF rivals_sane(2) p(2)]
  have "pa \<noteq> pb"
  proof
    assume "pa = pb"
    let ?x = "Lst (header_items (unsealed (sample_header 7)))" and ?y = "Lst (header_items (unsealed rival_header))"
    have "rlp_encode ?x @ [] = rlp_encode ?y @ []" using a(1) b(1) \<open>pa = pb\<close> by (simp only: append_Nil2)
    moreover have "length (rlp_encode ?x @ []) < 2 ^ 63" using a(2) unfolding a(1) by (simp only: append_Nil2) simp
    ultimately have "?x = ?y" using rlp_encode_prefix_inj by blast
    then show False by (simp add: header_items_def unsealed_def rival_header_def sample_header_def)
  qed
  then show ?thesis using p that by blast
qed

theorem seal_evidence_exact_witness:
  "\<exists>pa pb ev. encodeSigHeader (sample_header 7) = Some pa \<and> encodeSigHeader rival_header = Some pb \<and>
    SealEvidence_check ev pa pb = Some (7, 1, 2)"
proof -
  obtain pa pb where p: "encodeSigHeader (sample_header 7) = Some pa" "encodeSigHeader rival_header = Some pb" "pa \<noteq> pb"
    by (rule rivals_signed)
  define ev where "ev = sample_evm\<lparr>ev_crypto := sample_recovery\<lparr>keccak256 := \<lambda>x. if x = pa then 1 else 2\<rparr>\<rparr>"
  have "SealHash (ev_crypto ev) (sample_header 7) = Some 1" "SealHash (ev_crypto ev) rival_header = Some 2"
    using p by (simp_all add: SealHash_def ev_def)
  moreover have "Number (sample_header 7) = Some 7" "Number rival_header = Some 7"
    "ParentHash rival_header = ParentHash (sample_header 7)"
    by (simp_all add: sample_header_def rival_header_def)
  ultimately have "SealEvidence_check ev pa pb = Some (7, 1, 2)"
    using seal_evidence_exact [OF rivals_sane(1) p(1) _ rivals_sane(2) p(2), of 7 7 ev] by simp
  then show ?thesis using p by blast
qed

end
