(* ===== verification/Spec2Isabelle.thy ===== *)
theory Spec2Isabelle
  imports Fork_Examples Protect_Examples Hub_Evidence
begin

text \<open>
  Ferminux is a chain derived from go-ethereum (\<open>src/chain\<close>) that starts under proof of work and changes to proof
  of authority at a configured block, with a validator sidecar beside it (\<open>src/validator\<close>). The development
  models its consensus, its fork choice and the part of the sidecar that decides what a validator key signs.

  \<^bold>\<open>Foundations.\<close> \<open>Ferminux_Prelude\<close> has the fixed-width types of the Go sources, byte strings, association lists
  for Go maps and the run of a fallible step over a list, with the locales \<open>fixed_width\<close> and \<open>checked_steps\<close>.
  \<open>Go_Text\<close> has the text functions of Go's library and of \<open>chain/common\<close> that the sidecar parses and prints with.
  Machine integers are words and wrap as in Go; Go's \<open>big.Int\<close> is \<open>int\<close>, with \<open>None\<close> for a nil pointer. A panic is
  \<open>None\<close> or an error value. Keccak and secp256k1 are the fields of the record \<open>crypto\<close>, which every definition
  that hashes or recovers takes as an argument.

  \<^bold>\<open>Chain data.\<close> \<open>Chain_Params\<close> models \<open>params/config.go\<close> and the Ferminux constants: fork predicates, rules, the
  order and compatibility checks. \<open>RLP\<close> models the encoder buffer and the raw splitter of \<open>rlp\<close> and shows that the
  encoder refines the recursive encoding and that the splitter accepts canonical input only. \<open>Block_Header\<close> models
  headers, gas limit, base fee and fork-hash checks, and shows that a header hash determines the header unless
  keccak collides. \<open>Emission\<close> models the rewards of both eras, their split and payment and the difficulty
  calculators, and bounds the total issuance; its locale \<open>supply_ledger\<close> is interpreted on the state of the model.

  \<^bold>\<open>Authority engine\<close> (\<open>consensus/clique\<close>). \<open>Clique_Seal\<close>: signed bytes and signer recovery. \<open>Break_Glass\<close>: the owner
  quorum that replaces the signers; it binds the digest to the override. \<open>Clique_Snapshot\<close>: votes, tallies and recent
  signers as a state machine; a signer never seals twice within the window, and the signer set changes by majority
  only. \<open>Clique_Engine\<close>: retrieval of a snapshot through cache and database, header verification, preparation and
  sealing. Retrieval returns. Where it takes no trusted checkpoint and starts from true snapshots, it gives the
  snapshot that replaying from the anchor gives, so that nodes agree on it, and an accepted header extends the chain
  (below block \<open>len(Signers)/2+1\<close> it may not, which is shown too). \<open>Clique_Examples\<close> has concrete runs.

  \<^bold>\<open>Proof-of-work engine\<close> (\<open>consensus/powhash\<close>). \<open>Powhash_Sizes\<close>, \<open>Powhash_Algorithm\<close>: the size tables, cache and dataset
  generation and hashimoto; light and full evaluation agree. \<open>Powhash_Engine\<close>: header, batch and uncle verification
  and the nonce search; a mined seal verifies, and an uncle is rewarded once. \<open>Powhash_Examples\<close> has concrete runs.

  \<^bold>\<open>Dispatching engine\<close> (\<open>consensus/posa\<close>). \<open>Posa_Engine\<close> sends each header to the engine of its era, filters batches
  over the checkpoint, pays rewards and computes the safe and finalized tags; an assembled block validates, and an
  engine keeps the configuration it was created from through every sequence of calls.

  \<^bold>\<open>Fork choice\<close> (\<open>core/blockchain.go\<close>, \<open>core/forkchoice.go\<close>). \<open>Fork_Choice\<close> models storing, importing and adopting
  blocks with the reorganisation cap as an inductive step relation on the state of the node: the canonical index is
  the ancestry of the head, adoption always decides, and a finalized block stays through any single step.
  \<open>Fork_Examples\<close> has the runs, one of which shows that successive steps can drop a finalized block.

  \<^bold>\<open>Slashing protection\<close> (\<open>validator/internal/protect\<close>). \<open>Protect_DB\<close> models every operation on the record file, each
  I/O error an argument. \<open>Protect_Log\<close> shows that the file is a log that every operation extends; \<open>Protect_Life\<close> runs
  the database through restarts, failed writes and crashes as an inductive relation: two hashes are never approved
  for one height, reopening finds every approval, an import is all or nothing. \<open>Protect_Examples\<close> has a run.

  \<^bold>\<open>Attestations\<close> (\<open>validator/internal/attest\<close>). \<open>Attest\<close> models the checkpoint schedule, the digests and the signature
  format; the due checkpoint is exact, digests cannot be replayed, and the check of the submission margin wraps.

  \<^bold>\<open>The hub's view\<close> (\<open>agents/contracts/src\<close>). \<open>Hub_Evidence\<close> models the signature recovery and the digests of the validator
  hub and its reader of double-seal evidence (\<open>Sig.sol\<close>, \<open>HeaderRLP.sol\<close>, the digest functions of \<open>ValidatorHub.sol\<close>):
  they agree with the sidecar's digests and recovery, and from the bytes that a Clique signer signs the reader
  returns the parent and the number of the header. The precompile \<open>ecrecover\<close> is a parameter.

  \<^bold>\<open>Bounds and fuel.\<close> Most loops are structural or have a termination proof. The walk of a snapshot retrieval takes
  fuel, the block number plus two, and retrieval is shown to return with it; the walks of a reorganisation take fuel
  that adoption is shown never to exhaust; the nonce search takes the number of nonces it polls before it is stopped.
  The searches of \<open>Schedule.Next\<close> and of the size calculators and the deletion of canonical entries above a head are
  \<open>partial_function (option)\<close>, with theorems that they return. Theorems on 64-bit arithmetic say where they assume that
  a sum does not wrap.

  \<^bold>\<open>Not modelled.\<close> Executing transactions, state tries, the transaction pool, networking, RPC, databases and process
  set-up are I/O, concurrent or inherited unchanged, and the modelled code uses them only through the parameters
  above. The sidecar's attestation loop, its node client and its transaction sender are not modelled; what they may
  sign is decided by the modelled database and schedule. The seats, deposits, rewards and slashes of the validator
  hub, the other application contracts, the services and the front ends are not part of consensus. Within the
  modelled parts, logging, metrics, timers, the remote sealer and the disk files of the proof-of-work caches are
  left out, and in the fork choice \<open>BlockChain.SetHead\<close> and the rewind of a restarting node.
\<close>

end
